(* ===== verification/Prelude.thy ===== *)
theory Prelude
  imports Main "HOL-Library.Word" "HOL-Library.Monad_Syntax" "HOL-Library.Multiset"
begin

text \<open>
  Shared vocabulary of the development: the machine integers of the C++ sources as words, the
  collections of simplification rules the component theories extend, counted loops in the option
  monad (where \<^const>\<open>None\<close> stands for a failed \<open>CHECK\<close>, an out-of-range access or a null
  dereference), and general facts on lists, sums and words.
\<close>

unbundle bit_operations_syntax

section \<open>Machine integers\<close>

type_synonym u32 = "32 word"
type_synonym u64 = "64 word"

named_theorems word_bits \<open>bit-level characterisations of the word operations of the sources\<close>
named_theorems heap_simps \<open>reading after writing in the array store\<close>

section \<open>Array reads\<close>

definition list_read :: "'a list \<Rightarrow> nat \<Rightarrow> 'a option" where
  "list_read xs i = (if i < length xs then Some (xs ! i) else None)"

section \<open>Words\<close>

lemma unat_of_nat_u32 [simp]: "n < 2 ^ 32 \<Longrightarrow> unat (of_nat n :: u32) = n"
  by (simp add: unat_of_nat take_bit_nat_eq_self)

lemma unat_less_u32 [simp]: "unat (x :: u32) < 4294967296"
  using unsigned_less [of x, where ?'a = nat] by simp

lemma bit_u32_less: "bit (x :: u32) n \<Longrightarrow> n < 32"
  using bit_imp_le_length [of x n] by simp

lemma unat_pow2_u32: "i < 32 \<Longrightarrow> unat (2 ^ i :: u32) = 2 ^ i"
proof -
  assume "i < 32"
  then have "(2 :: nat) ^ i < 2 ^ 32" by (intro power_strict_increasing) simp_all
  then show ?thesis using unat_of_nat_u32 [of "2 ^ i"] by simp
qed

lemma unat_pred_u32:
  assumes "(x :: u32) \<noteq> 0"
  shows "unat x = unat (x - 1) + 1"
proof -
  have "0 < unat x" using assms by (simp add: unat_gt_0)
  then show ?thesis using unat_minus_one [OF assms] by linarith
qed

lemma int_unat_u32: "int (unat (x :: u32)) < 4294967296"
  using unat_less_u32 [of x] by linarith

lemma bit_single_u32 [word_bits]: "bit (push_bit i 1 :: u32) n \<longleftrightarrow> n = i \<and> i < 32"
  by (auto simp: bit_exp_iff)

lemma unat_and_mask_1: "unat ((x :: u32) AND 1) = unat x mod 2"
  by (simp add: and_one_eq unat_mod)

section \<open>Sums over initial segments and dyadic blocks\<close>

lemma sum_lessThan_add:
  fixes f :: "nat \<Rightarrow> 'a :: comm_monoid_add"
  shows "(\<Sum>j<m + n. f j) = (\<Sum>j<m. f j) + (\<Sum>j<n. f (m + j))"
  by (induction n) (simp_all add: add.assoc)

lemma sum_lessThan_blocks:
  fixes f :: "nat \<Rightarrow> 'a :: comm_monoid_add"
  shows "(\<Sum>j<q * b. f j) = (\<Sum>k<q. \<Sum>j<b. f (k * b + j))"
proof (induction q)
  case (Suc q)
  have "(\<Sum>j<Suc q * b. f j) = (\<Sum>j<q * b + b. f j)" by (simp add: add.commute)
  also have "\<dots> = (\<Sum>j<q * b. f j) + (\<Sum>j<b. f (q * b + j))" by (rule sum_lessThan_add)
  finally show ?case using Suc.IH by simp
qed simp

lemma sum_atLeastAtMost_lessThan:
  fixes f :: "nat \<Rightarrow> 'a :: ab_group_add"
  assumes "a \<le> b + 1"
  shows "(\<Sum>j=a..b. f j) = (\<Sum>j<b + 1. f j) - (\<Sum>j<a. f j)"
proof -
  have "{..<b + 1} = {..<a} \<union> {a..b}" using assms by auto
  moreover have "{..<a} \<inter> {a..b} = {}" by auto
  ultimately have "(\<Sum>j<b + 1. f j) = (\<Sum>j<a. f j) + (\<Sum>j=a..b. f j)"
    by (metis finite_atLeastAtMost finite_lessThan sum.union_disjoint)
  then show ?thesis by simp
qed

lemma sint_u32:
  assumes "unat (x :: u32) < 2 ^ 31"
  shows "sint x = int (unat x)"
proof -
  have "uint x < int (2 ^ 31)" unfolding uint_nat using assms by (simp only: of_nat_less_iff)
  then have "uint x < 2 ^ 31" by simp
  moreover have "- (2 ^ 31) \<le> uint x" by (rule order_trans [OF _ uint_ge_0]) simp
  ultimately have "signed_take_bit 31 (uint x) = uint x" by (intro signed_take_bit_int_eq_self)
  then show ?thesis by (simp add: sint_uint)
qed

end
