(* ===== verification/RandomGen.thy ===== *)
theory RandomGen
  imports Prelude
begin

text \<open>
  The random-variable generating schemes of \<open>QueryEngine/Sketch/RandomGenScheme.h\<close>: the parity
  fold \<open>seq_xor\<close>, the Carter-Wegman hash \<open>hash31\<close>, the \<open>+1/-1\<close> schemes BCH3, EH3, CW2, BCH5, RM7
  and CW4, and the bucket-valued schemes CW2B and CW4B. An \<open>unsigned int\<close> is a \<^typ>\<open>u32\<close>, an
  \<open>unsigned long\<close> or \<open>unsigned long long\<close> a \<^typ>\<open>u64\<close>; the \<open>int\<close> results are \<open>1\<close> and \<open>-1\<close>.
  The C library's \<open>rand\<close> is an argument: the \<open>n\<close>-th value it returns is \<open>rand n\<close>, and the number
  of calls made is threaded through. A remainder by zero has no value in C++, so the bucket-valued
  schemes return an option.
\<close>

section \<open>Definitions\<close>

definition RANDOMGENSCHEME_MOD :: nat where
  "RANDOMGENSCHEME_MOD = 2147483647"

definition RANDOMGENSCHEME_HL :: nat where
  "RANDOMGENSCHEME_HL = 31"

definition RandomGenerate :: "(nat \<Rightarrow> u32) \<Rightarrow> nat \<Rightarrow> u32 \<times> nat" where
  "RandomGenerate rand n =
     (let x = rand n; h = rand (n + 1) in (x XOR push_bit 31 (h AND 1), n + 2))"

definition seq_xor :: "u32 \<Rightarrow> u32" where
  "seq_xor x =
     (let x = x XOR drop_bit 16 x;
          x = x XOR drop_bit 8 x;
          x = x XOR drop_bit 4 x;
          x = x XOR drop_bit 2 x;
          x = x XOR drop_bit 1 x
      in x AND 1)"

definition hash31 :: "u64 \<Rightarrow> u64 \<Rightarrow> u64 \<Rightarrow> u32" where
  "hash31 a b x =
     (let result = a * x + b;
          result = (drop_bit RANDOMGENSCHEME_HL result + result) AND of_nat RANDOMGENSCHEME_MOD
      in ucast result)"

text \<open>The sources' \<open>(w & (1U == 1U)) ? 1 : -1\<close>: the comparison is the integer 1.\<close>

definition pm1 :: "u32 \<Rightarrow> int" where
  "pm1 w = (if w AND 1 \<noteq> 0 then 1 else - 1)"

definition BCH3 :: "u32 \<Rightarrow> u32 \<Rightarrow> u32 \<Rightarrow> int" where
  "BCH3 i0 I1 j = pm1 (i0 XOR seq_xor (I1 AND j))"

definition EH3 :: "u32 \<Rightarrow> u32 \<Rightarrow> u32 \<Rightarrow> int" where
  "EH3 i0 I1 j =
     (let mask = 0xAAAAAAAA;
          p_res = (I1 AND j) XOR (j AND push_bit 1 j AND mask)
      in pm1 (i0 XOR seq_xor p_res))"

definition CW2 :: "u64 \<Rightarrow> u64 \<Rightarrow> u64 \<Rightarrow> int" where
  "CW2 a b x = pm1 (hash31 a b x)"

definition BCH5 :: "u32 \<Rightarrow> u32 \<Rightarrow> u32 \<Rightarrow> u32 \<Rightarrow> int" where
  "BCH5 i0 I1 I2 j =
     (let p_res = (I1 AND j) XOR (I2 AND (j * j * j))
      in pm1 (i0 XOR seq_xor p_res))"

text \<open>\<open>((w & (1U << i)) >> i)\<close>, the bit \<open>i\<close> of \<open>w\<close> as an integer.\<close>

definition bit_at :: "u32 \<Rightarrow> nat \<Rightarrow> u32" where
  "bit_at w i = drop_bit i (w AND push_bit i 1)"

definition RM7 :: "u32 \<Rightarrow> (nat \<Rightarrow> u32) \<Rightarrow> u32 \<Rightarrow> int" where
  "RM7 i0 I j =
     (let res = fold (\<lambda>i res. res XOR (bit_at (I i) i AND bit_at j i)) [0..<32] i0;
          res = fold (\<lambda>i res. fold (\<lambda>k res. res XOR ((bit_at j i AND bit_at j k) AND bit_at (I i) k))
                                [i + 1..<32] res) [0..<32] res
      in if res = 1 then 1 else - 1)"

definition CW4 :: "u64 \<Rightarrow> u64 \<Rightarrow> u64 \<Rightarrow> u64 \<Rightarrow> u64 \<Rightarrow> int" where
  "CW4 a b c d x = pm1 (hash31 (ucast (hash31 (ucast (hash31 a b x)) c x)) d x)"

definition CW2B :: "u64 \<Rightarrow> u64 \<Rightarrow> u64 \<Rightarrow> u32 \<Rightarrow> u32 option" where
  "CW2B a b x M =
     (let p_res = hash31 a b x
      in if M = of_nat RANDOMGENSCHEME_MOD then Some p_res
         else if M = 0 then None
         else Some (p_res mod M))"

definition CW4B :: "u64 \<Rightarrow> u64 \<Rightarrow> u64 \<Rightarrow> u64 \<Rightarrow> u64 \<Rightarrow> u32 \<Rightarrow> u32 option" where
  "CW4B a b c d x M =
     (let p_res = hash31 (ucast (hash31 (ucast (hash31 a b x)) c x)) d x
      in if M = of_nat RANDOMGENSCHEME_MOD then Some p_res
         else if M = 0 then None
         else Some (p_res mod M))"

section \<open>Parity\<close>

text \<open>One folding step of \<open>seq_xor\<close>, and the parity of the lowest \<open>m\<close> bits.\<close>

definition xor_fold :: "nat \<Rightarrow> u32 \<Rightarrow> u32" where
  "xor_fold k x = x XOR drop_bit k x"

definition parity :: "nat \<Rightarrow> u32 \<Rightarrow> bool" where
  "parity m x = odd (\<Sum>i<m. of_bool (bit x i) :: nat)"

lemma xor_fold_xor: "xor_fold k (x XOR y) = xor_fold k x XOR xor_fold k y"
  by (simp add: xor_fold_def drop_bit_xor ac_simps)

lemma bit_xor_fold: "bit (xor_fold k x) i \<longleftrightarrow> bit x i \<noteq> bit x (k + i)"
  by (simp add: xor_fold_def bit_xor_iff bit_drop_bit_eq)

lemma seq_xor_fold:
  "seq_xor x = xor_fold 1 (xor_fold 2 (xor_fold 4 (xor_fold 8 (xor_fold 16 x)))) AND 1"
  by (simp add: seq_xor_def xor_fold_def Let_def)

lemma odd_sum_of_bool_neq:
  fixes m :: nat
  shows "odd (\<Sum>i<m. of_bool (P i \<noteq> Q i) :: nat) =
   (odd (\<Sum>i<m. of_bool (P i) :: nat) \<noteq> odd (\<Sum>i<m. of_bool (Q i) :: nat))"
  by (induction m) auto

lemma parity_xor_fold: "parity m (xor_fold m x) = parity (m + m) x"
  unfolding parity_def bit_xor_fold odd_sum_of_bool_neq by (simp add: sum_lessThan_add)

lemma parity_1: "x AND 1 = of_bool (parity 1 x)"
  by (simp add: parity_def and_one_eq odd_iff_mod_2_eq_one bit_0)

lemma card_bits:
  fixes m :: nat
  shows "card {i. i < m \<and> P i} = (\<Sum>i<m. of_bool (P i))"
proof -
  have "(\<Sum>i<m. of_bool (P i) :: nat) = (\<Sum>i\<in>{i. i < m \<and> P i}. 1)"
    by (rule sum.mono_neutral_cong_right) auto
  then show ?thesis by simp
qed

lemma seq_xor_eq_parity: "seq_xor x = of_bool (parity 32 x)"
proof -
  have "parity 1 (xor_fold 1 (xor_fold 2 (xor_fold 4 (xor_fold 8 (xor_fold 16 x))))) = parity 32 x"
    using parity_xor_fold [of 1] parity_xor_fold [of 2] parity_xor_fold [of 4]
      parity_xor_fold [of 8] parity_xor_fold [of 16] by (simp add: numeral_2_eq_2 [symmetric])
  then show ?thesis by (simp only: seq_xor_fold parity_1)
qed

lemma seq_xor_0 [simp]: "seq_xor 0 = 0"
  by (simp add: seq_xor_def)

lemma seq_xor_xor: "seq_xor (x XOR y) = seq_xor x XOR seq_xor y"
  unfolding seq_xor_fold xor_fold_xor by (rule bit.conj_xor_distrib2)

lemma parity_push_bit: "i < 32 \<Longrightarrow> parity 32 (push_bit i 1)"
proof -
  assume i: "i < 32"
  have "(\<Sum>k<32. of_bool (bit (push_bit i 1 :: u32) k) :: nat) = (\<Sum>k<32. of_bool (k = i))"
    by (rule sum.cong) (auto simp: bit_push_bit_iff bit_1_iff bit_exp_iff)
  also have "\<dots> = 1" using i by (simp add: of_bool_def)
  finally show ?thesis by (simp add: parity_def)
qed

lemma parity_xor: "parity m (x XOR y) = (parity m x \<noteq> parity m y)"
  unfolding parity_def bit_xor_iff odd_sum_of_bool_neq by simp

lemma parity_1_iff: "parity 1 x = bit x 0"
  by (simp add: parity_def)

section \<open>The sign schemes\<close>

lemma pm1_values: "pm1 w = 1 \<or> pm1 w = - 1"
  by (simp add: pm1_def)

lemma pm1_eq: "pm1 w = (if bit w 0 then 1 else - 1)"
  by (simp only: pm1_def parity_1 parity_1_iff of_bool_eq_0_iff not_not)

lemma pm1_xor_of_bool: "pm1 (w XOR of_bool p) = (if bit w 0 \<noteq> p then 1 else - 1)"
  by (simp add: pm1_eq bit_xor_iff bit_of_bool_iff)

lemma BCH3_eq: "BCH3 i0 I1 j = (if bit i0 0 \<noteq> parity 32 (I1 AND j) then 1 else - 1)"
  by (simp add: BCH3_def seq_xor_eq_parity pm1_xor_of_bool)

definition quad :: "u32 \<Rightarrow> u32" where
  "quad j = j AND push_bit 1 j AND 0xAAAAAAAA"

lemma EH3_eq:
  "EH3 i0 I1 j = (if bit i0 0 \<noteq> (parity 32 (I1 AND j) \<noteq> parity 32 (quad j)) then 1 else - 1)"
  unfolding EH3_def Let_def seq_xor_eq_parity pm1_xor_of_bool parity_xor quad_def ..

lemma parity_and_xor: "parity 32 ((x XOR c) AND j) = (parity 32 (x AND j) \<noteq> parity 32 (c AND j))"
  by (simp only: bit.conj_xor_distrib2 parity_xor)

lemma parity_single: "k < 32 \<Longrightarrow> parity 32 (push_bit k 1 AND j) = bit j k"
proof -
  assume "k < 32"
  moreover have "push_bit k 1 AND j = (if bit j k then push_bit k 1 else 0)"
    by (rule bit_word_eqI) (auto simp: bit_and_iff bit_exp_iff)
  moreover have "parity 32 0 = False" by (simp add: parity_def)
  ultimately show ?thesis by (simp add: parity_push_bit del: push_bit_of_1)
qed

lemma sum_xor_negates:
  fixes f :: "u32 \<Rightarrow> int"
  assumes "\<And>x. f (x XOR c) = - f x"
  shows "(\<Sum>x\<in>UNIV. f x) = 0"
proof -
  have "bij (\<lambda>x. x XOR c)" by (rule involuntory_imp_bij) (simp add: xor.assoc)
  then have "(\<Sum>x\<in>UNIV. f x) = (\<Sum>x\<in>UNIV. f (x XOR c))"
    by (rule sum.reindex_bij_betw [symmetric])
  also have "\<dots> = - (\<Sum>x\<in>UNIV. f x)" by (simp add: assms sum_negf)
  finally show ?thesis by simp
qed

text \<open>
  What the \<open>+1/-1\<close> schemes with seeds \<open>(i0, I1)\<close> have in common: the values are signs, the lowest
  bit of \<open>i0\<close> is a global sign, and flipping the bits \<open>c\<close> of the seed \<open>I1\<close> flips the variable
  \<open>j\<close> exactly when \<open>c AND j\<close> has odd parity.
\<close>

locale sign_scheme =
  fixes xi :: "u32 \<Rightarrow> u32 \<Rightarrow> u32 \<Rightarrow> int"
  assumes xi_values: "xi i0 I1 j = 1 \<or> xi i0 I1 j = - 1"
    and xi_flip_sign: "xi (i0 XOR 1) I1 j = - xi i0 I1 j"
    and xi_flip_seed: "xi i0 (I1 XOR c) j = (if parity 32 (c AND j) then - xi i0 I1 j else xi i0 I1 j)"
begin

lemma mean_zero: "(\<Sum>i0\<in>UNIV. \<Sum>I1\<in>UNIV. xi i0 I1 j) = 0"
  by (rule sum_xor_negates [where c = 1]) (simp add: xi_flip_sign sum_negf)

lemma pair_zero:
  assumes "j1 \<noteq> j2"
  shows "(\<Sum>i0\<in>UNIV. \<Sum>I1\<in>UNIV. xi i0 I1 j1 * xi i0 I1 j2) = 0"
proof -
  obtain k where k: "k < 32" "bit j1 k \<noteq> bit j2 k" using assms bit_word_eqI [of j1 j2] by auto
  have "(\<Sum>I1\<in>UNIV. xi i0 I1 j1 * xi i0 I1 j2) = 0" for i0
    by (rule sum_xor_negates [where c = "push_bit k 1"])
      (use k in \<open>auto simp: xi_flip_seed parity_single simp del: push_bit_of_1\<close>)
  then show ?thesis by simp
qed

lemma triple_zero:
  "(\<Sum>i0\<in>UNIV. \<Sum>I1\<in>UNIV. xi i0 I1 j1 * xi i0 I1 j2 * xi i0 I1 j3) = 0"
  by (rule sum_xor_negates [where c = 1]) (simp add: xi_flip_sign sum_negf)

lemma three_wise_count:
  assumes d: "distinct [j1, j2, j3]"
    and e: "e1 \<in> {1, - 1}" "e2 \<in> {1, - 1}" "e3 \<in> {1, - 1}"
  shows "8 * (\<Sum>i0\<in>UNIV. \<Sum>I1\<in>UNIV.
            of_bool (xi i0 I1 j1 = e1 \<and> xi i0 I1 j2 = e2 \<and> xi i0 I1 j3 = e3)) = (2 ^ 64 :: int)"
proof -
  have ind: "8 * of_bool (xi i0 I1 j1 = e1 \<and> xi i0 I1 j2 = e2 \<and> xi i0 I1 j3 = e3) =
      1 + e1 * xi i0 I1 j1 + e2 * xi i0 I1 j2 + e3 * xi i0 I1 j3
      + (e1 * e2) * (xi i0 I1 j1 * xi i0 I1 j2) + (e1 * e3) * (xi i0 I1 j1 * xi i0 I1 j3)
      + (e2 * e3) * (xi i0 I1 j2 * xi i0 I1 j3)
      + (e1 * e2 * e3) * (xi i0 I1 j1 * xi i0 I1 j2 * xi i0 I1 j3)" for i0 I1
    using e xi_values [of i0 I1 j1] xi_values [of i0 I1 j2] xi_values [of i0 I1 j3]
    by (elim disjE insertE emptyE) simp_all
  have N: "(\<Sum>i0\<in>(UNIV :: u32 set). \<Sum>I1\<in>(UNIV :: u32 set). (1 :: int)) = 2 ^ 64"
    by (simp add: card_word)
  have "j1 \<noteq> j2" "j1 \<noteq> j3" "j2 \<noteq> j3" using d by auto
  then show ?thesis
    unfolding sum_distrib_left ind sum.distrib
    by (simp only: sum_distrib_left [symmetric] mean_zero triple_zero N) (simp add: pair_zero)
qed

end

interpretation bch3: sign_scheme BCH3
proof
  show "BCH3 i0 (I1 XOR c) j = (if parity 32 (c AND j) then - BCH3 i0 I1 j else BCH3 i0 I1 j)" for i0 I1 c j
    by (simp add: BCH3_eq parity_and_xor)
qed (auto simp: BCH3_eq bit_xor_iff)

interpretation eh3: sign_scheme EH3
proof
  show "EH3 i0 (I1 XOR c) j = (if parity 32 (c AND j) then - EH3 i0 I1 j else EH3 i0 I1 j)" for i0 I1 c j
    by (auto simp: EH3_eq parity_and_xor)
qed (auto simp: EH3_eq bit_xor_iff)

section \<open>The Carter-Wegman hash\<close>

definition hash31_arg :: "u64 \<Rightarrow> u64 \<Rightarrow> u64 \<Rightarrow> nat" where
  "hash31_arg a b x = (unat a * unat x + unat b) mod 2 ^ 64"

lemma and_mersenne: "w AND of_nat RANDOMGENSCHEME_MOD = take_bit 31 (w :: u64)"
  by (simp add: RANDOMGENSCHEME_MOD_def take_bit_eq_mask mask_eq_exp_minus_1)

lemma unat_take_bit_u64: "unat (take_bit n (w :: u64)) = unat w mod 2 ^ n"
  using unsigned_take_bit_eq [of n w, where ?'a = nat] by (simp only: take_bit_nat_def)

lemma unat_drop_bit_u64: "unat (drop_bit n (w :: u64)) = unat w div 2 ^ n"
  using unsigned_drop_bit_eq [of n w, where ?'a = nat] unsigned_less [of w, where ?'a = nat]
  by (simp add: drop_bit_nat_def take_bit_nat_eq_self)

lemma unat_ucast_u32: "unat (ucast (w :: u64) :: u32) = unat w mod 2 ^ 32"
  by (simp add: unsigned_ucast_eq take_bit_eq_mod)

lemma unat_hash31_eq:
  "unat (hash31 a b x) = (hash31_arg a b x div 2 ^ 31 + hash31_arg a b x) mod 2 ^ 31"
proof -
  let ?r = "a * x + b"
  have r: "unat ?r = hash31_arg a b x"
    by (simp add: hash31_arg_def unat_word_ariths mod_simps)
  have "unat (take_bit 31 (drop_bit 31 ?r + ?r)) = (unat (drop_bit 31 ?r) + unat ?r) mod 2 ^ 64 mod 2 ^ 31"
    by (simp add: unat_take_bit_u64 unat_word_ariths)
  also have "\<dots> = (unat ?r div 2 ^ 31 + unat ?r) mod 2 ^ 31"
    by (simp only: unat_drop_bit_u64 mod_mod_cancel [OF le_imp_power_dvd] le_numeral_extra)
  finally have "unat (take_bit 31 (drop_bit 31 ?r + ?r)) = (unat ?r div 2 ^ 31 + unat ?r) mod 2 ^ 31" .
  then show ?thesis
    unfolding hash31_def Let_def RANDOMGENSCHEME_HL_def and_mersenne unat_ucast_u32 r by simp
qed

lemma hash31_less: "unat (hash31 a b x) < 2 ^ 31"
  by (simp add: unat_hash31_eq)

section \<open>The seven-wise scheme\<close>

lemma bit_at_high: "n > 0 \<Longrightarrow> \<not> bit (bit_at w i) n"
  by (auto simp: bit_at_def bit_drop_bit_eq bit_and_iff bit_exp_iff)

lemma fold_xor_high:
  assumes "\<And>i. \<not> bit (f i) n"
  shows "bit (fold (\<lambda>i res. res XOR f i) xs r) n = bit (r :: u32) n"
  using assms by (induction xs arbitrary: r) (simp_all add: bit_xor_iff)

lemma fold_high:
  assumes "\<And>i r. bit (g i r) n = bit (r :: u32) n"
  shows "bit (fold g xs r) n = bit r n"
  using assms by (induction xs arbitrary: r) simp_all

section \<open>Properties\<close>

text \<open>
  \<open>seq_xor\<close> computes the parity bit of its argument: 1 iff an odd number of the 32 bits is set.
\<close>

theorem seq_xor_parity: "seq_xor x = of_bool (odd (card {i. i < 32 \<and> bit x i}))"
  by (simp add: seq_xor_eq_parity parity_def card_bits)

text \<open>
  The BCH3 variables are three-wise independent: over all seeds \<open>(i0, I1)\<close> the variables of
  three distinct indices take every combination of signs for exactly an eighth of the \<open>2 ^ 64\<close> seeds.
\<close>

theorem BCH3_three_wise_independent:
  assumes "distinct [j1, j2, j3]" and "e1 \<in> {1, - 1}" and "e2 \<in> {1, - 1}" and "e3 \<in> {1, - 1}"
  shows "8 * (\<Sum>i0\<in>UNIV. \<Sum>I1\<in>UNIV.
            of_bool (BCH3 i0 I1 j1 = e1 \<and> BCH3 i0 I1 j2 = e2 \<and> BCH3 i0 I1 j3 = e3)) = (2 ^ 64 :: int)"
  using assms by (rule bch3.three_wise_count)

theorem BCH3_three_wise_independent_witness:
  "8 * (\<Sum>i0\<in>UNIV. \<Sum>I1\<in>UNIV.
      of_bool (BCH3 i0 I1 1 = 1 \<and> BCH3 i0 I1 2 = - 1 \<and> BCH3 i0 I1 3 = 1)) = (2 ^ 64 :: int)"
  by (rule BCH3_three_wise_independent) simp_all

text \<open>
  C24. The EH3 variables, the signs of the sketch updates, are three-wise independent too.
\<close>

theorem EH3_three_wise_independent:
  assumes "distinct [j1, j2, j3]" and "e1 \<in> {1, - 1}" and "e2 \<in> {1, - 1}" and "e3 \<in> {1, - 1}"
  shows "8 * (\<Sum>i0\<in>UNIV. \<Sum>I1\<in>UNIV.
            of_bool (EH3 i0 I1 j1 = e1 \<and> EH3 i0 I1 j2 = e2 \<and> EH3 i0 I1 j3 = e3)) = (2 ^ 64 :: int)"
  using assms by (rule eh3.three_wise_count)

theorem EH3_three_wise_independent_witness:
  "8 * (\<Sum>i0\<in>UNIV. \<Sum>I1\<in>UNIV.
      of_bool (EH3 i0 I1 1 = 1 \<and> EH3 i0 I1 2 = - 1 \<and> EH3 i0 I1 3 = 1)) = (2 ^ 64 :: int)"
  by (rule EH3_three_wise_independent) simp_all

text \<open>
  C40. The BCH5 variables are not four-wise independent, although the source groups them with the
  five-wise schemes: it cubes the index in integer arithmetic modulo \<open>2 ^ 32\<close>, which vanishes on
  multiples of 2048, so the product of the four variables 0, 2048, 4096 and 6144 is 1 for all seeds.
\<close>

theorem BCH5_four_wise_dependent:
  "BCH5 i0 I1 I2 0 * BCH5 i0 I1 I2 2048 * BCH5 i0 I1 I2 4096 * BCH5 i0 I1 I2 6144 = 1"
proof -
  have cubes: "(0 :: u32) * 0 * 0 = 0" "(2048 :: u32) * 2048 * 2048 = 0"
    "(4096 :: u32) * 4096 * 4096 = 0" "(6144 :: u32) * 6144 * 6144 = 0" by simp_all
  have "(6144 :: u32) = 2048 XOR 4096" by simp
  then have split: "I1 AND 6144 = (I1 AND 2048) XOR (I1 AND 4096)"
    by (simp only: bit.conj_xor_distrib)
  have "parity 32 0 = False" by (simp add: parity_def)
  then show ?thesis
    unfolding BCH5_def Let_def cubes split seq_xor_eq_parity pm1_xor_of_bool parity_xor by simp
qed

text \<open>
  \<open>hash31\<close> folds the 64-bit value \<open>r = a * x + b\<close> once: its result is
  \<open>(r div 2^31 + r) mod 2^31\<close>, a 31-bit number.
\<close>

theorem hash31_fold:
  "unat (hash31 a b x) = (hash31_arg a b x div 2 ^ 31 + hash31_arg a b x) mod 2 ^ 31"
  by (rule unat_hash31_eq)

text \<open>
  Where the folded halves do not carry out of 31 bits, \<open>hash31\<close> is congruent to
  \<open>a * x + b\<close> modulo the Mersenne prime \<open>2^31 - 1\<close>, as the Carter-Wegman scheme asks.
\<close>

theorem hash31_mersenne:
  assumes "hash31_arg a b x div 2 ^ 31 + hash31_arg a b x mod 2 ^ 31 < 2 ^ 31"
  shows "unat (hash31 a b x) mod RANDOMGENSCHEME_MOD = hash31_arg a b x mod RANDOMGENSCHEME_MOD"
proof -
  let ?r = "hash31_arg a b x"
  have "unat (hash31 a b x) = ?r div 2 ^ 31 + ?r mod 2 ^ 31"
    using assms by (simp add: unat_hash31_eq) (metis mod_add_right_eq mod_less)
  moreover have "?r = (?r div 2 ^ 31 + ?r mod 2 ^ 31) + RANDOMGENSCHEME_MOD * (?r div 2 ^ 31)"
    using div_mult_mod_eq [of ?r "2 ^ 31"] by (simp add: RANDOMGENSCHEME_MOD_def)
  ultimately show ?thesis by (metis mod_mult_self2)
qed

theorem hash31_mersenne_witness:
  "unat (hash31 3 5 1000000000) mod RANDOMGENSCHEME_MOD = 3000000005 mod RANDOMGENSCHEME_MOD"
  using hash31_mersenne [of 3 5 1000000000] by (simp add: hash31_arg_def)


text \<open>
  A bucket returned by \<open>CW2B\<close> for a number of buckets \<open>M\<close> is a valid bucket index, and \<open>CW2B\<close>
  has a result exactly when \<open>M\<close> is not zero.
\<close>

theorem CW2B_bucket:
  "(CW2B a b x M = None \<longleftrightarrow> M = 0) \<and>
   (\<forall>w. CW2B a b x M = Some w \<longrightarrow> w < M \<or> M = 2147483647 \<and> w \<le> M)"
proof (cases "M = 2147483647")
  case True
  then show ?thesis using hash31_less [of a b x]
    by (simp add: CW2B_def RANDOMGENSCHEME_MOD_def word_le_nat_alt)
next
  case False
  then show ?thesis
    by (simp add: CW2B_def RANDOMGENSCHEME_MOD_def Let_def word_less_nat_alt unat_mod unat_gt_0)
qed

theorem CW2B_bucket_witness: "CW2B 3 5 7 10 = Some 6 \<and> (6 :: u32) < 10"
proof -
  have "CW2B 3 5 7 10 = Some 6" by (simp add: CW2B_def RANDOMGENSCHEME_MOD_def RANDOMGENSCHEME_HL_def hash31_def)
  then show ?thesis using CW2B_bucket [of 3 5 7 10] by simp
qed

text \<open>
  \<open>RM7\<close> compares the accumulated word with 1 instead of testing its lowest bit: for a seed
  \<open>i0\<close> above 1 the variable is \<open>-1\<close> for every index.
\<close>

theorem RM7_seed_stuck:
  assumes "1 < i0"
  shows "RM7 i0 I j = - 1"
proof -
  have "\<exists>n>0. bit i0 n"
  proof (rule ccontr)
    assume "\<not> (\<exists>n>0. bit i0 n)"
    then have "i0 = of_bool (bit i0 0)"
      by (intro bit_word_eqI) (metis bit_of_bool_iff not_gr_zero)
    with assms show False by (cases "bit i0 0") auto
  qed
  then obtain n where n: "n > 0" "bit i0 n" by blast
  define r1 where "r1 = fold (\<lambda>i res. res XOR (bit_at (I i) i AND bit_at j i)) [0..<32] i0"
  define r2 where "r2 = fold (\<lambda>i res. fold (\<lambda>k res. res XOR ((bit_at j i AND bit_at j k) AND bit_at (I i) k))
                                [i + 1..<32] res) [0..<32] r1"
  have "bit r1 n" unfolding r1_def
    by (subst fold_xor_high) (simp_all add: bit_and_iff bit_at_high n)
  then have "bit r2 n" unfolding r2_def
    by (subst fold_high) (simp_all add: fold_xor_high bit_and_iff bit_at_high n)
  then have "r2 \<noteq> 1" using n(1) by (auto simp: bit_1_iff)
  then show ?thesis by (simp add: RM7_def r1_def r2_def Let_def)
qed

theorem RM7_seed_stuck_witness: "RM7 2 (\<lambda>i. 5) 3 = - 1 \<and> (1 :: u32) < 2"
  using RM7_seed_stuck [of 2 "\<lambda>i. 5" 3] by simp

end
