(* ===== verification/Binary64.thy ===== *)
theory Binary64
  imports Prelude Complex_Main "HOL-Library.Log_Nat"
begin

text \<open>
  The C++ type \<open>double\<close>. A finite binary64 number is a rational, so the sources' doubles are
  rationals and every arithmetic operation rounds its exact result to 53 significant bits, to
  nearest with ties to even, with the subnormal exponent \<open>-1074\<close> as the smallest one. Infinities,
  NaN and the sign of zero have no representation here: a result beyond \<open>2 ^ 1024\<close> is kept as the
  rounded rational.
\<close>

type_synonym double = rat

definition round_half_even :: "rat \<Rightarrow> int" where
  "round_half_even x =
     (let f = \<lfloor>x\<rfloor>; d = x - of_int f
      in if d < 1 / 2 then f else if d > 1 / 2 then f + 1 else if even f then f else f + 1)"

text \<open>The binary exponent of a positive rational: \<open>2 powi ilog2 x \<le> x\<close>.\<close>

definition ilog2 :: "rat \<Rightarrow> int" where
  "ilog2 x =
     (let (p, q) = quotient_of x; k = bitlen p - bitlen q
      in if 2 powi k \<le> x then k else k - 1)"

definition ulp_exp :: "rat \<Rightarrow> int" where
  "ulp_exp x = max (ilog2 \<bar>x\<bar> - 52) (- 1074)"

definition round64 :: "rat \<Rightarrow> double" where
  "round64 x =
     (if x = 0 then 0
      else let e = ulp_exp x in of_int (round_half_even (x / 2 powi e)) * 2 powi e)"

definition dadd :: "double \<Rightarrow> double \<Rightarrow> double" where
  "dadd a b = round64 (a + b)"

definition dsub :: "double \<Rightarrow> double \<Rightarrow> double" where
  "dsub a b = round64 (a - b)"

definition dmul :: "double \<Rightarrow> double \<Rightarrow> double" where
  "dmul a b = round64 (a * b)"

definition ddiv :: "double \<Rightarrow> double \<Rightarrow> double" where
  "ddiv a b = round64 (a / b)"

lemmas double_ops = dadd_def dsub_def dmul_def ddiv_def

section \<open>Rounding to an integer\<close>

lemma round_half_even_of_int [simp]: "round_half_even (of_int n) = n"
  by (simp add: round_half_even_def)

lemma round_half_even_ge: "of_int n \<le> x \<Longrightarrow> n \<le> round_half_even x"
  using le_floor_iff [of n x] by (auto simp: round_half_even_def Let_def)

lemma round_half_even_le: "x \<le> of_int n \<Longrightarrow> round_half_even x \<le> n"
proof -
  assume le: "x \<le> of_int n"
  show ?thesis
  proof (cases "x = of_int n")
    case False
    with le have "\<lfloor>x\<rfloor> < n" by (simp add: floor_less_iff)
    then show ?thesis by (auto simp: round_half_even_def Let_def)
  qed simp
qed

lemma round_half_even_minus: "round_half_even (- x) = - round_half_even x"
proof (cases "x \<in> \<int>")
  case True
  then obtain n where "x = of_int n" by (auto simp: Ints_def)
  moreover have "- (of_int n :: rat) = of_int (- n)" by simp
  ultimately show ?thesis by (metis round_half_even_of_int)
next
  case False
  then have "\<lceil>x\<rceil> = \<lfloor>x\<rfloor> + 1" by (simp add: ceiling_altdef) (metis Ints_of_int)
  then have fl: "\<lfloor>- x\<rfloor> = - \<lfloor>x\<rfloor> - 1" by (simp add: ceiling_def)
  let ?d = "x - of_int \<lfloor>x\<rfloor>"
  have d: "- x - of_int \<lfloor>- x\<rfloor> = 1 - ?d" by (simp add: fl)
  show ?thesis
    unfolding round_half_even_def Let_def d unfolding fl by auto
qed

section \<open>The binary exponent\<close>

lemma powi_2_nonneg: "0 \<le> k \<Longrightarrow> (2 :: rat) powi k = of_int (2 ^ nat k)"
  by (simp add: power_int_def)

lemma bitlen_powi:
  assumes "p > 0"
  shows "(2 :: rat) powi (bitlen p - 1) \<le> of_int p" and "of_int p < (2 :: rat) powi bitlen p"
proof -
  have b: "2 ^ nat (bitlen p - 1) \<le> p \<and> p < 2 ^ nat (bitlen p)"
    by (rule bitlen_bounds [OF assms])
  have pos: "0 < bitlen p" using assms bitlen_nonneg [of p] bitlen_eq_zero_iff [of p] by linarith
  then show "(2 :: rat) powi (bitlen p - 1) \<le> of_int p"
    using b by (simp add: powi_2_nonneg del: of_int_power)
  show "of_int p < (2 :: rat) powi bitlen p"
    using b pos by (simp add: powi_2_nonneg del: of_int_power)
qed

lemma ilog2_bounds:
  assumes "x > 0"
  shows "2 powi ilog2 x \<le> x" and "x < 2 powi (ilog2 x + 1)"
proof -
  obtain p q where pq: "quotient_of x = (p, q)" by (cases "quotient_of x")
  have q: "q > 0" using quotient_of_denom_pos [OF pq] .
  have x: "x = of_int p / of_int q" using quotient_of_div [OF pq] .
  have p: "p > 0" using assms q unfolding x by (simp add: zero_less_divide_iff)
  have le: "2 powi (bitlen p - 1) / 2 powi bitlen q \<le> x"
    unfolding x using bitlen_powi [OF p] bitlen_powi [OF q] p q by (intro frac_le) auto
  have "x < 2 powi bitlen p / 2 powi (bitlen q - 1)"
    unfolding x using bitlen_powi [OF p] bitlen_powi [OF q] p q by (intro frac_less) auto
  then have "x < 2 powi (bitlen p - bitlen q + 1)"
    by (simp add: power_int_diff power_int_add)
  then show "x < 2 powi (ilog2 x + 1)"
    by (simp add: ilog2_def pq not_le Let_def)
  from le have "2 powi (bitlen p - bitlen q - 1) \<le> x"
    by (simp add: power_int_diff)
  then show "2 powi ilog2 x \<le> x"
    by (simp add: ilog2_def pq Let_def)
qed

section \<open>Rounding to a double\<close>

lemma round64_0 [simp]: "round64 0 = 0"
  by (simp add: round64_def)

lemma round64_exact:
  assumes "x = of_int m * 2 powi e" and "ulp_exp x \<le> e"
  shows "round64 x = x"
proof (cases "x = 0")
  case False
  let ?e = "ulp_exp x"
  have "x / 2 powi ?e = of_int m * 2 powi (e - ?e)"
    using assms(1) by (simp add: power_int_diff)
  also have "\<dots> = of_int (m * 2 ^ nat (e - ?e))"
    using assms(2) by (simp add: powi_2_nonneg)
  finally have q: "x / 2 powi ?e = of_int (m * 2 ^ nat (e - ?e))" .
  then have "round_half_even (x / 2 powi ?e) = m * 2 ^ nat (e - ?e)"
    by (simp only: round_half_even_of_int)
  with q False show ?thesis
    by (simp add: round64_def Let_def field_simps)
qed simp

lemma ulp_exp_le:
  assumes "x \<noteq> 0" and "\<bar>x\<bar> < 2 powi (e + 53)" and "- 1074 \<le> e"
  shows "ulp_exp x \<le> e"
proof -
  have "2 powi ilog2 \<bar>x\<bar> \<le> \<bar>x\<bar>" using assms(1) by (intro ilog2_bounds) simp
  with assms(2) have "(2 :: rat) powi ilog2 \<bar>x\<bar> < 2 powi (e + 53)" by simp
  then have "ilog2 \<bar>x\<bar> < e + 53" 
    using power_int_increasing [of "e + 53" "ilog2 \<bar>x\<bar>" "2 :: rat"] by (force simp: not_le)
  with assms(3) show ?thesis by (simp add: ulp_exp_def)
qed

text \<open>Integers of at most 53 bits are doubles: arithmetic on them is exact.\<close>

lemma round64_of_int:
  assumes "\<bar>n\<bar> \<le> 2 ^ 53"
  shows "round64 (of_int n) = of_int n"
proof (cases "n = 0")
  case False
  let ?x = "of_int n :: rat"
  have "of_int \<bar>n\<bar> \<le> (of_int (2 ^ 53) :: rat)" using assms by (simp only: of_int_le_iff)
  then have le: "\<bar>?x\<bar> \<le> 2 powi 53" by (simp add: power_int_def)
  show ?thesis
  proof (cases "\<bar>?x\<bar> = 2 powi 53")
    case True
    then have "?x = of_int (sgn n) * 2 powi 53"
      by (cases "n > 0") (use False in auto)
    moreover have "ulp_exp ?x \<le> 53"
      using True False by (intro ulp_exp_le) (simp_all add: power_int_def)
    ultimately show ?thesis by (rule round64_exact)
  next
    case neq: False
    with le have "\<bar>?x\<bar> < 2 powi (0 + 53)" by simp
    then have "ulp_exp ?x \<le> 0" using False by (intro ulp_exp_le) simp_all
    then show ?thesis by (intro round64_exact [where m = n and e = 0]) simp_all
  qed
qed simp

lemma round64_minus: "round64 (- x) = - round64 x"
  by (simp add: round64_def ulp_exp_def Let_def round_half_even_minus)

lemma round64_nonneg: "0 \<le> x \<Longrightarrow> 0 \<le> round64 x"
  using round_half_even_ge [of 0] by (auto simp: round64_def Let_def)

text \<open>Rounding is idempotent, and does not go below a double that bounds its argument from below.\<close>

lemma ulp_exp_bounds: "0 < x \<Longrightarrow> x < 2 powi (ulp_exp x + 53)"
proof -
  assume x: "0 < x"
  have "x < 2 powi (ilog2 x + 1)" using ilog2_bounds(2) [OF x] .
  also have "\<dots> \<le> 2 powi (ulp_exp x + 53)" using x by (intro power_int_increasing) (simp_all add: ulp_exp_def)
  finally show ?thesis .
qed

lemma powi_53: "(2 :: rat) powi (e + 53) = of_int (2 ^ 53) * 2 powi e"
  by (simp add: power_int_add)

lemma powi_52: "(2 :: rat) powi e = of_int (2 ^ 52) * 2 powi (e - 52)"
  by (simp add: power_int_diff)

lemma round64_idem_pos:
  assumes "0 < x"
  shows "round64 (round64 x) = round64 x"
proof -
  let ?e = "ulp_exp x"
  define n where "n = round_half_even (x / 2 powi ?e)"
  have y: "round64 x = of_int n * 2 powi ?e" using assms by (simp add: round64_def Let_def n_def)
  have "x / 2 powi ?e \<le> of_int (2 ^ 53)"
    using ulp_exp_bounds [OF assms] unfolding powi_53 by (simp add: field_simps)
  then have n: "n \<le> 2 ^ 53" unfolding n_def by (rule round_half_even_le)
  have n0: "0 \<le> n" unfolding n_def using assms by (intro round_half_even_ge) simp
  show ?thesis
  proof (cases "n = 0 \<or> n = 2 ^ 53")
    case True
    then show ?thesis
    proof
      assume n53: "n = 2 ^ 53"
      then have y': "round64 x = of_int 1 * 2 powi (?e + 53)" unfolding y powi_53 by simp
      have "ulp_exp (of_int 1 * 2 powi (?e + 53)) \<le> ?e + 53"
        by (intro ulp_exp_le) (simp_all add: ulp_exp_def power_int_strict_increasing)
      then show ?thesis unfolding y' by (intro round64_exact [OF refl])
    qed (simp add: y)
  next
    case False
    then have "0 < n" "n < 2 ^ 53" using n n0 by auto
    then have "\<bar>of_int n * 2 powi ?e :: rat\<bar> < 2 powi (?e + 53)"
      unfolding powi_53 by (simp add: abs_mult del: of_int_power)
    then have "ulp_exp (of_int n * 2 powi ?e) \<le> ?e"
      using \<open>0 < n\<close> by (intro ulp_exp_le) (simp_all add: ulp_exp_def)
    then show ?thesis unfolding y by (intro round64_exact [OF refl])
  qed
qed

lemma round64_idem [simp]: "round64 (round64 x) = round64 x"
proof (cases "x < 0")
  case True
  then show ?thesis using round64_idem_pos [of "- x"] by (simp add: round64_minus)
next
  case False
  then show ?thesis using round64_idem_pos [of x] by (cases "x = 0") auto
qed

lemma round64_ge:
  assumes a: "round64 a = a" "0 \<le> a" and x: "a \<le> x"
  shows "a \<le> round64 x"
proof (cases "a = 0")
  case True
  then show ?thesis using x by (simp add: round64_nonneg)
next
  case False
  then have pos: "0 < a" "0 < x" using a x by auto
  let ?e = "ulp_exp x" and ?d = "ulp_exp a"
  have ge: "of_int m * 2 powi ?e \<le> round64 x" if "of_int m * 2 powi ?e \<le> x" for m
    using pos that round_half_even_ge [of m "x / 2 powi ?e"] by (simp add: round64_def Let_def field_simps)
  define m where "m = round_half_even (a / 2 powi ?d)"
  have am: "a = of_int m * 2 powi ?d" using a(1) pos by (simp add: round64_def Let_def m_def)
  show ?thesis
  proof (cases "?e \<le> ?d")
    case True
    have "of_int (m * 2 ^ nat (?d - ?e)) * (2 :: rat) powi ?e = of_int m * (2 powi (?d - ?e) * 2 powi ?e)"
      using True by (simp add: powi_2_nonneg)
    also have "\<dots> = a" using am by (simp add: power_int_diff)
    finally show ?thesis using ge [of "m * 2 ^ nat (?d - ?e)"] x by simp
  next
    case False
    then have e: "?e = ilog2 x - 52" "ilog2 a < ilog2 x" using pos by (auto simp: ulp_exp_def max_def split: if_splits)
    have "a < 2 powi (ilog2 a + 1)" by (rule ilog2_bounds(2) [OF pos(1)])
    also have "\<dots> \<le> 2 powi ilog2 x" using e(2) by (intro power_int_increasing) simp_all
    also have "\<dots> = of_int (2 ^ 52) * 2 powi ?e" unfolding e(1) by (rule powi_52)
    also have "\<dots> \<le> round64 x"
      using ilog2_bounds(1) [OF pos(2)] by (intro ge) (simp only: e(1) powi_52 [symmetric])
    finally show ?thesis by simp
  qed
qed

section \<open>Double arithmetic\<close>

lemma dadd_commute: "dadd a b = dadd b a"
  by (simp add: dadd_def add.commute)

lemma dmul_commute: "dmul a b = dmul b a"
  by (simp add: dmul_def mult.commute)

lemma dadd_of_int:
  "\<bar>m + n\<bar> \<le> 2 ^ 53 \<Longrightarrow> dadd (of_int m) (of_int n) = of_int (m + n)"
  unfolding dadd_def of_int_add [symmetric] by (rule round64_of_int)

lemma dsub_of_int:
  "\<bar>m - n\<bar> \<le> 2 ^ 53 \<Longrightarrow> dsub (of_int m) (of_int n) = of_int (m - n)"
  unfolding dsub_def of_int_diff [symmetric] by (rule round64_of_int)

lemma dmul_of_int:
  "\<bar>m * n\<bar> \<le> 2 ^ 53 \<Longrightarrow> dmul (of_int m) (of_int n) = of_int (m * n)"
  unfolding dmul_def of_int_mult [symmetric] by (rule round64_of_int)

lemma dadd_nonneg: "0 \<le> a \<Longrightarrow> 0 \<le> b \<Longrightarrow> 0 \<le> dadd a b"
  by (simp add: dadd_def round64_nonneg)

lemma dmul_nonneg: "0 \<le> a \<Longrightarrow> 0 \<le> b \<Longrightarrow> 0 \<le> dmul a b"
  by (simp add: dmul_def round64_nonneg)

lemma dmul_self_nonneg: "0 \<le> dmul a a"
  by (simp add: dmul_def round64_nonneg)

lemma dadd_idem [simp]: "round64 (dadd a b) = dadd a b"
  by (simp add: dadd_def)

lemma dadd_0_left: "round64 v = v \<Longrightarrow> dadd 0 v = v"
  by (simp add: dadd_def)

lemma dadd_mono_left: "round64 a = a \<Longrightarrow> 0 \<le> a \<Longrightarrow> 0 \<le> b \<Longrightarrow> a \<le> dadd a b"
  unfolding dadd_def by (rule round64_ge) simp_all

end
