(* ===== verification/RangeSum.thy ===== *)
theory RangeSum
  imports RandomGen Binary64
begin

text \<open>
  The range summation of \<open>QueryEngine/Sketch/RandomRangeSum.h\<close>: the fast algorithms
  \<open>BCH3Interval\<close> and \<open>EH3Interval\<close>, which sum \<open>2 ^ i\<close> variables at a time, the range functions
  built from them, and the dyadic mapping \<open>Dyadic_Range_*\<close>. The accumulators are doubles; the
  theorems show the accumulation exact. A shift of an \<open>int\<close> is its two's complement result on 32
  bits. In the dyadic loops \<^const>\<open>None\<close> stands for a shift by 31 or more places of an \<open>int\<close> or a
  signed overflow, which C++ leaves undefined.
\<close>

section \<open>Fast range summation: definitions\<close>

definition shl_int :: "int \<Rightarrow> nat \<Rightarrow> int" where
  "shl_int v i = signed_take_bit 31 (push_bit i v)"

function BCH3Interval_loop :: "u32 \<Rightarrow> u32 \<Rightarrow> nat \<Rightarrow> u32 \<Rightarrow> double \<Rightarrow> double" where
  "BCH3Interval_loop S0 s0 i gamma sm =
     (if i < 32 then
        if gamma = 0 then sm
        else if drop_bit (i - 1) S0 AND 1 \<noteq> 0 then sm
        else if drop_bit i gamma AND 1 \<noteq> 0 then
          let gamma = gamma XOR push_bit i 1
          in BCH3Interval_loop S0 s0 (i + 1) gamma
               (dadd sm (of_int (shl_int (BCH3 s0 S0 gamma) i)))
        else BCH3Interval_loop S0 s0 (i + 1) gamma sm
      else sm)"
  by pat_completeness auto
termination
  by (relation "measure (\<lambda>(S0, s0, i, gamma, sm). 32 - i)") auto

declare BCH3Interval_loop.simps [simp del]

definition BCH3Interval :: "u32 \<Rightarrow> u32 \<Rightarrow> u32 \<Rightarrow> double" where
  "BCH3Interval gamma S0 s0 =
     (if gamma AND 1 \<noteq> 0 then
        let gamma = gamma - 1
        in BCH3Interval_loop S0 s0 1 gamma (dadd 0 (of_int (BCH3 s0 S0 gamma)))
      else BCH3Interval_loop S0 s0 1 gamma 0)"

definition BCH3_Range :: "u32 \<Rightarrow> u32 \<Rightarrow> u32 \<Rightarrow> u32 \<Rightarrow> double" where
  "BCH3_Range alpha beta S0 s0 =
     (let sm = BCH3Interval (beta + 1) S0 s0 in dsub sm (BCH3Interval alpha S0 s0))"

text \<open>
  \<open>EH3Interval\<close>: one block of the loop adds or subtracts \<open>f_A << (i >> 1)\<close>, depending on the
  parity of the number of all-ones bit pairs of \<open>S0\<close> passed so far.
\<close>

definition EH3_block :: "u32 \<Rightarrow> u32 \<Rightarrow> nat \<Rightarrow> nat \<Rightarrow> u32 \<Rightarrow> double \<Rightarrow> double" where
  "EH3_block S0 s0 i s_bits_one g sm =
     (let f_A = EH3 s0 S0 g
      in if s_bits_one mod 2 = 1 then dsub sm (of_int (shl_int f_A (i div 2)))
         else dadd sm (of_int (shl_int f_A (i div 2))))"

function EH3Interval_loop :: "u32 \<Rightarrow> u32 \<Rightarrow> nat \<Rightarrow> nat \<Rightarrow> u32 \<Rightarrow> double \<Rightarrow> double" where
  "EH3Interval_loop S0 s0 i s_bits_one gamma sm =
     (if i < 32 then
        if gamma = 0 then sm
        else
          let t_bits = drop_bit i gamma AND 3;
              gamma = gamma XOR push_bit i t_bits;
              sm =
                (if t_bits = 1 then EH3_block S0 s0 i s_bits_one gamma sm
                 else if t_bits = 2 then
                   EH3_block S0 s0 i s_bits_one (gamma + push_bit i 1)
                     (EH3_block S0 s0 i s_bits_one gamma sm)
                 else if t_bits = 3 then
                   EH3_block S0 s0 i s_bits_one (gamma + push_bit (i + 1) 1)
                     (EH3_block S0 s0 i s_bits_one (gamma + push_bit i 1)
                       (EH3_block S0 s0 i s_bits_one gamma sm))
                 else sm);
              s_bits = drop_bit i S0 AND 3;
              s_bits_one = (if s_bits = 3 then s_bits_one + 1 else s_bits_one)
          in EH3Interval_loop S0 s0 (i + 2) s_bits_one gamma sm
      else sm)"
  by pat_completeness auto
termination
  by (relation "measure (\<lambda>(S0, s0, i, s_bits_one, gamma, sm). 32 - i)") auto

declare EH3Interval_loop.simps [simp del]

definition EH3Interval :: "u32 \<Rightarrow> u32 \<Rightarrow> u32 \<Rightarrow> double" where
  "EH3Interval gamma S0 s0 =
     (let s_bits_one = (if S0 AND 3 = 3 then 1 else 0);
          t_bits = gamma AND 3;
          (gamma, sm) =
            (if t_bits = 1 then
               let gamma = gamma - 1 in (gamma, dadd 0 (of_int (EH3 s0 S0 gamma)))
             else if t_bits = 2 then
               let gamma = gamma - 2
               in (gamma, dadd (dadd 0 (of_int (EH3 s0 S0 gamma))) (of_int (EH3 s0 S0 (gamma + 1))))
             else if t_bits = 3 then
               let gamma = gamma - 3
               in (gamma, dadd (dadd (dadd 0 (of_int (EH3 s0 S0 gamma)))
                                     (of_int (EH3 s0 S0 (gamma + 1))))
                               (of_int (EH3 s0 S0 (gamma + 2))))
             else (gamma, 0))
      in EH3Interval_loop S0 s0 2 s_bits_one gamma sm)"

definition EH3_Range :: "u32 \<Rightarrow> u32 \<Rightarrow> u32 \<Rightarrow> u32 \<Rightarrow> double" where
  "EH3_Range alpha beta S0 s0 =
     (let sm = EH3Interval (beta + 1) S0 s0 in dsub sm (EH3Interval alpha S0 s0))"

section \<open>Dyadic mapping: definitions\<close>

text \<open>
  The three dyadic loops of the source differ in the scheme they call only: \<open>xi\<close> is \<open>EH3(i0, I1, _)\<close>,
  \<open>BCH5(i0, I1, I2, _)\<close> or \<open>CW4(a, b, c, d, _)\<close>.
\<close>

function dyadic_loop :: "(u32 \<Rightarrow> int) \<Rightarrow> nat \<Rightarrow> int \<Rightarrow> int \<Rightarrow> nat \<Rightarrow> u32 \<Rightarrow> double \<Rightarrow> double option" where
  "dyadic_loop xi dom_size alpha beta pw front_mask sm =
     (if alpha \<le> beta then
        if pw \<ge> 31 \<or> dom_size \<ge> 32 then None
        else
          let (alpha, sm) =
                (if odd (drop_bit pw alpha) then
                   let map = front_mask XOR word_of_int (drop_bit pw alpha)
                   in (alpha + 2 ^ pw, dadd sm (of_int (xi map)))
                 else (alpha, sm))
          in if alpha > 2147483647 then None
             else if alpha > beta then Some sm
             else
               let (beta, sm) =
                     (if even (drop_bit pw beta) then
                        let map = front_mask XOR word_of_int (drop_bit pw (beta - 2 ^ pw + 1))
                        in (beta - 2 ^ pw, dadd sm (of_int (xi map)))
                      else (beta, sm));
                   front_mask = drop_bit 1 front_mask XOR push_bit dom_size 1
               in if beta < - 2147483648 then None
                  else dyadic_loop xi dom_size alpha beta (pw + 1) front_mask sm
      else Some sm)"
  by pat_completeness auto
termination
  by (relation "measure (\<lambda>(xi, dom_size, alpha, beta, pw, front_mask, sm). 31 - pw)") auto

declare dyadic_loop.simps [simp del]

definition Dyadic_Range_EH3 :: "u32 \<Rightarrow> u32 \<Rightarrow> u32 \<Rightarrow> u32 \<Rightarrow> nat \<Rightarrow> double option" where
  "Dyadic_Range_EH3 a b i0 I1 dom_size = dyadic_loop (EH3 i0 I1) dom_size (sint a) (sint b) 0 0 0"

definition Dyadic_Range_BCH5 :: "u32 \<Rightarrow> u32 \<Rightarrow> u32 \<Rightarrow> u32 \<Rightarrow> u32 \<Rightarrow> nat \<Rightarrow> double option" where
  "Dyadic_Range_BCH5 a b i0 I1 I2 dom_size =
     dyadic_loop (BCH5 i0 I1 I2) dom_size (sint a) (sint b) 0 0 0"

definition Dyadic_Range_CW4 ::
  "u32 \<Rightarrow> u32 \<Rightarrow> u64 \<Rightarrow> u64 \<Rightarrow> u64 \<Rightarrow> u64 \<Rightarrow> nat \<Rightarrow> double option" where
  "Dyadic_Range_CW4 aa bb a b c d dom_size =
     dyadic_loop (\<lambda>map. CW4 a b c d (ucast map)) dom_size (sint aa) (sint bb) 0 0 0"

section \<open>Aligned words\<close>

definition aligned :: "nat \<Rightarrow> u32 \<Rightarrow> bool" where
  "aligned i g \<longleftrightarrow> (\<forall>n<i. \<not> bit g n)"

lemma aligned_0 [simp]: "aligned 0 g"
  by (simp add: aligned_def)

lemma aligned_SucI: "aligned i g \<Longrightarrow> \<not> bit g i \<Longrightarrow> aligned (Suc i) g"
  by (auto simp: aligned_def less_Suc_eq)

lemma aligned_dvd: "aligned i g \<Longrightarrow> 2 ^ i dvd unat g"
proof -
  assume "aligned i g"
  then have "take_bit i (unat g) = 0"
    by (intro bit_eqI) (auto simp: aligned_def bit_take_bit_iff bit_unsigned_iff)
  then show ?thesis by (simp add: take_bit_eq_0_iff)
qed

lemma aligned_32: "aligned 32 g \<longleftrightarrow> g = 0"
  by (auto simp: aligned_def intro: bit_word_eqI)

lemma aligned_clear: "aligned i g \<Longrightarrow> bit g i \<Longrightarrow> aligned (Suc i) (g XOR push_bit i 1)"
  by (auto simp: aligned_def bit_xor_iff bit_exp_iff less_Suc_eq dest: bit_u32_less)

lemma unat_clear_bit: "bit (g :: u32) i \<Longrightarrow> unat g = unat (g XOR push_bit i 1) + 2 ^ i"
proof -
  assume b: "bit g i"
  then have i: "i < 32" by (rule bit_u32_less)
  let ?h = "g XOR push_bit i 1"
  have "unat ?h AND unat (push_bit i 1 :: u32) = unat (?h AND push_bit i 1)"
    by (simp add: unsigned_and_eq)
  also have "?h AND push_bit i 1 = 0"
    using b by (auto intro!: bit_word_eqI simp: bit_simps)
  finally have "unat ?h + unat (push_bit i 1 :: u32) = unat (?h XOR push_bit i 1)"
    by (simp add: disjunctive_add_eq_xor unsigned_xor_eq)
  moreover have "unat (push_bit i 1 :: u32) = 2 ^ i"
    using i by (simp add: unat_pow2_u32)
  ultimately show ?thesis by (simp add: xor.assoc)
qed

lemma of_nat_add_pow:
  assumes "\<not> bit g i"
  shows "(of_nat (g + 2 ^ i) :: u32) = of_nat g XOR push_bit i 1"
proof -
  have "g AND 2 ^ i = 0" using assms by (intro bit_eqI) (auto simp: bit_simps)
  then have "g + 2 ^ i = g XOR 2 ^ i" by (rule disjunctive_add_eq_xor)
  then show ?thesis by (simp add: of_nat_xor_eq)
qed

lemma dvd_not_bit_nat: "2 ^ i dvd (g :: nat) \<Longrightarrow> n < i \<Longrightarrow> \<not> bit g n"
  by (metis take_bit_eq_0_iff bit_take_bit_iff bit_0_eq bot_apply bot_bool_def)

lemma take_bit_0_iff: "take_bit i (w :: u32) = 0 \<longleftrightarrow> aligned i w"
proof
  assume "take_bit i w = 0"
  then have "\<not> bit (take_bit i w) n" for n by simp
  then show "aligned i w" by (auto simp: aligned_def bit_take_bit_iff)
qed (auto simp: aligned_def bit_take_bit_iff intro!: bit_word_eqI)

lemma take_bit_Suc_0_iff: "take_bit (Suc i) (w :: u32) = 0 \<longleftrightarrow> take_bit i w = 0 \<and> \<not> bit w i"
  by (auto simp: take_bit_0_iff aligned_def less_Suc_eq)

section \<open>Correctness of the BCH3 summation\<close>

lemma BCH3_flip:
  "BCH3 s0 S0 (j XOR c) = (if parity 32 (S0 AND c) then - BCH3 s0 S0 j else BCH3 s0 S0 j)"
  by (simp add: BCH3_eq bit.conj_xor_distrib parity_xor)

lemma BCH3_block_sum:
  assumes "2 ^ i dvd g" and "i \<le> 32"
  shows "(\<Sum>j<2 ^ i. BCH3 s0 S0 (of_nat (g + j))) =
           (if take_bit i S0 = 0 then 2 ^ i * BCH3 s0 S0 (of_nat g) else 0)"
  using assms
proof (induction i arbitrary: g)
  case (Suc i)
  have d: "2 ^ i dvd g" using Suc.prems by (metis dvd_mult_right power_Suc)
  have IH1: "(\<Sum>j<2 ^ i. BCH3 s0 S0 (of_nat (g + j))) =
      (if take_bit i S0 = 0 then 2 ^ i * BCH3 s0 S0 (of_nat g) else 0)"
    using Suc.IH [OF d] Suc.prems by simp
  have IH2: "(\<Sum>j<2 ^ i. BCH3 s0 S0 (of_nat (g + 2 ^ i + j))) =
      (if take_bit i S0 = 0 then 2 ^ i * BCH3 s0 S0 (of_nat (g + 2 ^ i)) else 0)"
    using Suc.IH [of "g + 2 ^ i"] d Suc.prems by simp
  have "\<not> bit g i" by (rule dvd_not_bit_nat [OF Suc.prems(1)]) simp
  then have flip: "BCH3 s0 S0 (of_nat (g + 2 ^ i)) =
      (if bit S0 i then - BCH3 s0 S0 (of_nat g) else BCH3 s0 S0 (of_nat g))"
    using Suc.prems(2) unfolding of_nat_add_pow [OF \<open>\<not> bit g i\<close>] BCH3_flip
    by (simp add: and.commute [of S0] parity_single del: push_bit_of_1)
  have tb: "take_bit (Suc i) S0 = 0 \<longleftrightarrow> take_bit i S0 = 0 \<and> \<not> bit S0 i"
    by (rule take_bit_Suc_0_iff)
  have "(\<Sum>j<2 ^ Suc i. BCH3 s0 S0 (of_nat (g + j))) =
      (\<Sum>j<2 ^ i. BCH3 s0 S0 (of_nat (g + j))) + (\<Sum>j<2 ^ i. BCH3 s0 S0 (of_nat (g + 2 ^ i + j)))"
    using sum_lessThan_add [of "\<lambda>j. BCH3 s0 S0 (of_nat (g + j))" "2 ^ i" "2 ^ i"]
    by (simp add: mult_2 add.assoc)
  then show ?case unfolding IH1 IH2 flip tb by simp
qed simp

lemma shl_int_pm1: "v = 1 \<or> v = - 1 \<Longrightarrow> i < 31 \<Longrightarrow> shl_int v i = v * 2 ^ i"
proof -
  assume v: "v = 1 \<or> v = - 1" and i: "i < 31"
  have "(2 :: int) ^ i < 2 ^ 31" using i by (intro power_strict_increasing) simp_all
  moreover have "(0 :: int) < 2 ^ i" by simp
  ultimately have "- (2 ^ 31) \<le> v * 2 ^ i" "v * 2 ^ i < 2 ^ 31" using v by (auto simp del: zero_less_power)
  then show ?thesis
    unfolding shl_int_def by (subst signed_take_bit_int_eq_self) (simp_all add: push_bit_eq_mult)
qed

lemma sum_pm1_bound:
  assumes "\<And>j. f j = 1 \<or> f j = (- 1 :: int)"
  shows "\<bar>\<Sum>j<n. f j\<bar> \<le> int n"
proof -
  have "\<bar>f j\<bar> = 1" for j using assms [of j] by auto
  then have "(\<Sum>j<n. \<bar>f j\<bar>) = int n" by simp
  then show ?thesis using sum_abs [of f "{..<n}"] by simp
qed

lemma and_1_drop_bit: "drop_bit i (w :: u32) AND 1 \<noteq> 0 \<longleftrightarrow> bit w i"
  by (simp add: bit_iff_and_drop_bit_eq_1 and_one_eq odd_iff_mod_2_eq_one)

text \<open>The sum of the first \<open>n\<close> BCH3 variables, and how a set bit of \<open>n\<close> splits it.\<close>

abbreviation BCH3_prefix :: "u32 \<Rightarrow> u32 \<Rightarrow> nat \<Rightarrow> int" where
  "BCH3_prefix s0 S0 n \<equiv> \<Sum>j<n. BCH3 s0 S0 (of_nat j)"

lemma BCH3_prefix_aligned_0:
  assumes "aligned i gamma" and "take_bit i S0 \<noteq> 0" and "i < 32"
  shows "BCH3_prefix s0 S0 (unat gamma) = 0"
proof -
  obtain q where q: "unat gamma = q * 2 ^ i"
    using aligned_dvd [OF assms(1)] by (auto simp: dvd_def mult.commute)
  have "BCH3_prefix s0 S0 (unat gamma) = (\<Sum>k<q. \<Sum>j<2 ^ i. BCH3 s0 S0 (of_nat (k * 2 ^ i + j)))"
    unfolding q by (rule sum_lessThan_blocks)
  also have "\<dots> = 0"
    by (rule sum.neutral, intro ballI, subst BCH3_block_sum) (use assms in auto)
  finally show ?thesis .
qed

lemma BCH3_prefix_clear:
  assumes "aligned i gamma" and "bit gamma i" and "take_bit i S0 = 0"
  shows "BCH3_prefix s0 S0 (unat gamma) =
    BCH3_prefix s0 S0 (unat (gamma XOR push_bit i 1)) + BCH3 s0 S0 (gamma XOR push_bit i 1) * 2 ^ i"
proof -
  let ?g = "gamma XOR push_bit i 1"
  have "2 ^ i dvd unat ?g"
    using aligned_clear [OF assms(1,2)] by (intro aligned_dvd) (simp add: aligned_def)
  moreover have "i < 32" using assms(2) by (rule bit_u32_less)
  ultimately have "(\<Sum>j<2 ^ i. BCH3 s0 S0 (of_nat (unat ?g + j))) = 2 ^ i * BCH3 s0 S0 ?g"
    using assms(3) by (subst BCH3_block_sum) simp_all
  then show ?thesis
    unfolding unat_clear_bit [OF assms(2)] sum_lessThan_add by simp
qed

lemma BCH3Interval_loop_correct:
  assumes "aligned i gamma" and "1 \<le> i" and "take_bit (i - 1) S0 = 0"
    and "\<bar>s\<bar> + int (unat gamma) \<le> 2 ^ 53"
    and "take_bit 31 S0 \<noteq> 0 \<or> unat gamma < 2 ^ 31"
  shows "BCH3Interval_loop S0 s0 i gamma (of_int s) = of_int (s + BCH3_prefix s0 S0 (unat gamma))"
  using assms
proof (induction "32 - i" arbitrary: i gamma s)
  case 0
  then have "aligned 32 gamma" by (auto simp: aligned_def)
  then show ?case using 0 by (simp add: BCH3Interval_loop.simps [of S0 s0 i] aligned_32)
next
  case (Suc k)
  have i: "i < 32" using Suc.hyps by simp
  have tb: "take_bit i S0 = 0 \<longleftrightarrow> \<not> bit S0 (i - 1)"
    using take_bit_Suc_0_iff [of "i - 1" S0] Suc.prems(2,3) by simp
  note step = BCH3Interval_loop.simps [of S0 s0 i gamma "of_int s", unfolded and_1_drop_bit Let_def]
  consider "gamma = 0 \<or> bit S0 (i - 1)" | "gamma \<noteq> 0" "\<not> bit S0 (i - 1)" "bit gamma i"
    | "gamma \<noteq> 0" "\<not> bit S0 (i - 1)" "\<not> bit gamma i"
    by blast
  then show ?case
  proof cases
    case 1
    have "BCH3_prefix s0 S0 (unat gamma) = 0"
      using 1 BCH3_prefix_aligned_0 [OF Suc.prems(1) _ i, of S0] tb by (cases "gamma = 0") simp_all
    moreover have "BCH3Interval_loop S0 s0 i gamma (of_int s) = of_int s"
      using 1 i by (subst step) auto
    ultimately show ?thesis by simp
  next
    case 2
    let ?g = "gamma XOR push_bit i 1"
    let ?s = "s + BCH3 s0 S0 ?g * 2 ^ i"
    have u: "unat gamma = unat ?g + 2 ^ i" using unat_clear_bit 2(3) .
    have tb0: "take_bit i S0 = 0" using tb 2 by simp
    have "i \<noteq> 31" using tb0 u Suc.prems(5) by auto
    then have i31: "i < 31" using i by simp
    have b: "\<bar>?s\<bar> + int (unat ?g) \<le> 2 ^ 53"
    proof -
      have "\<bar>?s\<bar> \<le> \<bar>s\<bar> + 2 ^ i"
        using bch3.xi_values [of s0 S0 ?g] abs_triangle_ineq [of s "BCH3 s0 S0 ?g * 2 ^ i"] by auto
      then show ?thesis using Suc.prems(4) u by simp
    qed
    have "BCH3Interval_loop S0 s0 i gamma (of_int s) =
        BCH3Interval_loop S0 s0 (i + 1) ?g (dadd (of_int s) (of_int (shl_int (BCH3 s0 S0 ?g) i)))"
      using 2 i by (subst step) simp
    also have "dadd (of_int s) (of_int (shl_int (BCH3 s0 S0 ?g) i)) = of_int ?s"
      unfolding shl_int_pm1 [OF bch3.xi_values i31] by (rule dadd_of_int) (use b of_nat_0_le_iff [of "unat ?g", where ?'a = int] in linarith)
    also have "BCH3Interval_loop S0 s0 (i + 1) ?g (of_int ?s) = of_int (?s + BCH3_prefix s0 S0 (unat ?g))"
      by (rule Suc.hyps(1)) (use Suc aligned_clear [OF _ 2(3)] b tb0 u in auto)
    finally show ?thesis unfolding BCH3_prefix_clear [OF Suc.prems(1) 2(3) tb0] by simp
  next
    case 3
    then have "aligned (i + 1) gamma" using Suc.prems(1) by (simp add: aligned_SucI)
    moreover have "BCH3Interval_loop S0 s0 i gamma (of_int s) = BCH3Interval_loop S0 s0 (i + 1) gamma (of_int s)"
      using 3 i by (subst step) simp
    ultimately show ?thesis using Suc.hyps(1) [of "i + 1" gamma s] Suc tb 3 by simp
  qed
qed

lemma BCH3Interval_correct:
  assumes "take_bit 31 S0 \<noteq> 0 \<or> unat gamma < 2 ^ 31"
  shows "BCH3Interval gamma S0 s0 = of_int (BCH3_prefix s0 S0 (unat gamma))"
proof (cases "bit gamma 0")
  case True
  let ?g = "gamma - 1"
  have "gamma AND 1 = 1" using True and_1_drop_bit [of 0 gamma] by (simp add: and_one_eq bit_0)
  have u: "unat gamma = unat ?g + 1" using True by (intro unat_pred_u32) auto
  have "\<not> bit ?g 0" using True by (simp add: bit_0)
  then have "aligned 1 ?g" by (simp add: aligned_def)
  moreover have "dadd 0 (of_int (BCH3 s0 S0 ?g)) = of_int (BCH3 s0 S0 ?g)"
    using dadd_of_int [of 0 "BCH3 s0 S0 ?g"] bch3.xi_values [of s0 S0 ?g] by auto
  moreover have "\<bar>BCH3 s0 S0 ?g\<bar> + int (unat ?g) \<le> 2 ^ 53"
    using bch3.xi_values [of s0 S0 ?g] int_unat_u32 [of ?g] by auto
  ultimately show ?thesis
    using BCH3Interval_loop_correct [of 1 ?g S0 "BCH3 s0 S0 ?g" s0] assms u \<open>gamma AND 1 = 1\<close>
    by (auto simp: BCH3Interval_def Let_def)
next
  case False
  then have "aligned 1 gamma" by (simp add: aligned_def)
  then show ?thesis
    using BCH3Interval_loop_correct [of 1 gamma S0 0 s0] assms False and_1_drop_bit [of 0 gamma]
      int_unat_u32 [of gamma]
    by (simp add: BCH3Interval_def)
qed

section \<open>Correctness of the EH3 summation\<close>

text \<open>The mask \<open>0xAAAAAAAA\<close> selects the odd positions: \<open>quad\<close> marks the all-ones bit pairs.\<close>

lemma bit_mask_AA: "n < 32 \<Longrightarrow> bit (0xAAAAAAAA :: u32) n = odd n"
proof -
  have "\<forall>n\<in>{..<32}. bit (0xAAAAAAAA :: u32) n = odd n"
    by (simp add: lessThan_atLeast0 atLeastLessThan_upt upt_rec)
  then show "n < 32 \<Longrightarrow> bit (0xAAAAAAAA :: u32) n = odd n" by blast
qed

lemma bit_quad: "bit (quad j) n \<longleftrightarrow> n < 32 \<and> odd n \<and> bit j n \<and> bit j (n - 1)"
  unfolding quad_def bit_and_iff bit_push_bit_iff
  using bit_mask_AA [of n] by (cases n) (auto dest: bit_u32_less)

lemma parity_0 [simp]: "\<not> parity m 0"
  by (simp add: parity_def)

lemma EH3_flip:
  assumes "quad (j XOR c) = quad j XOR quad c"
  shows "EH3 s0 S0 (j XOR c) =
    (if parity 32 (S0 AND c) \<noteq> parity 32 (quad c) then - EH3 s0 S0 j else EH3 s0 S0 j)"
  by (auto simp: EH3_eq bit.conj_xor_distrib parity_xor assms)

lemma quad_xor_pair:
  assumes "\<not> bit g (2 * k)" and "\<not> bit g (2 * k + 1)" and "\<And>n. bit c n \<Longrightarrow> n = 2 * k \<or> n = 2 * k + 1"
  shows "quad (g XOR c) = quad g XOR quad c"
proof (rule bit_word_eqI)
  fix n
  assume "n < LENGTH(32)"
  show "bit (quad (g XOR c)) n = bit (quad g XOR quad c) n"
  proof (cases "n = 2 * k + 1")
    case False
    have "n - 1 = 2 * k \<Longrightarrow> odd n \<Longrightarrow> n = 2 * k + 1" and "n - 1 = 2 * k + 1 \<Longrightarrow> odd n \<Longrightarrow> False"
      by (cases n; simp)+
    then have "odd n \<Longrightarrow> \<not> bit c n \<and> \<not> bit c (n - 1)"
      using assms(3) False by (metis even_mult_iff even_numeral)
    then show ?thesis by (auto simp: bit_quad bit_xor_iff)
  qed (use assms(1,2) in \<open>auto simp: bit_quad bit_xor_iff\<close>)
qed

lemma parity_quad_single: "\<not> parity 32 (quad (push_bit i 1))"
proof -
  have "quad (push_bit i 1) = 0"
    by (rule bit_word_eqI) (auto simp: bit_quad bit_single_u32 simp del: push_bit_of_1 elim: oddE)
  then show ?thesis by simp
qed

lemma parity_quad_pair: "2 * k + 1 < 32 \<Longrightarrow> parity 32 (quad (push_bit (2 * k) 1 XOR push_bit (2 * k + 1) 1))"
proof -
  assume k: "2 * k + 1 < 32"
  have "quad (push_bit (2 * k) 1 XOR push_bit (2 * k + 1) 1) = push_bit (2 * k + 1) 1"
  proof (rule bit_word_eqI)
    fix n
    assume "n < LENGTH(32)"
    then show "bit (quad (push_bit (2 * k) 1 XOR push_bit (2 * k + 1) 1)) n = bit (push_bit (2 * k + 1) 1 :: u32) n"
      unfolding bit_quad bit_xor_iff bit_single_u32 using k by presburger
  qed
  then show ?thesis using parity_push_bit [OF k] by (simp only:)
qed

text \<open>The three non-zero pairs at position \<open>k\<close> of an index whose pair is zero.\<close>

lemma EH3_pair:
  fixes g :: nat
  assumes k: "k < 16" and d: "4 ^ Suc k dvd g"
  shows "EH3 s0 S0 (of_nat (g + 4 ^ k)) =
      (if bit S0 (2 * k) then - 1 else 1) * EH3 s0 S0 (of_nat g)" (is ?A)
    and "EH3 s0 S0 (of_nat (g + 2 * 4 ^ k)) =
      (if bit S0 (2 * k + 1) then - 1 else 1) * EH3 s0 S0 (of_nat g)" (is ?B)
    and "EH3 s0 S0 (of_nat (g + 3 * 4 ^ k)) =
      (if bit S0 (2 * k) = bit S0 (2 * k + 1) then - 1 else 1) * EH3 s0 S0 (of_nat g)" (is ?C)
proof -
  let ?c1 = "push_bit (2 * k) 1 :: u32" and ?c2 = "push_bit (2 * k + 1) 1 :: u32"
  have pw: "(4 :: nat) ^ k = 2 ^ (2 * k)" by (simp add: power_mult)
  have d2: "2 ^ (2 * k + 2) dvd g" using d by (simp add: power_mult)
  have z1: "\<not> bit g (2 * k)" and z2: "\<not> bit g (2 * k + 1)"
    using dvd_not_bit_nat [OF d2] by auto
  have zw: "\<not> bit (of_nat g :: u32) (2 * k)" "\<not> bit (of_nat g :: u32) (2 * k + 1)"
    using z1 z2 by (simp_all add: bit_of_nat_iff)
  have q: "quad (of_nat g XOR c) = quad (of_nat g) XOR quad c"
    if "\<And>n. bit c n \<Longrightarrow> n = 2 * k \<or> n = 2 * k + 1" for c
    using quad_xor_pair zw that by blast
  have e1: "of_nat (g + 4 ^ k) = of_nat g XOR ?c1" unfolding pw by (rule of_nat_add_pow [OF z1])
  have e2: "of_nat (g + 2 * 4 ^ k) = of_nat g XOR ?c2"
    using of_nat_add_pow [OF z2] by (simp only: pw power_add power_one_right mult.commute)
  have "\<not> bit (g + 2 ^ (2 * k)) (2 * k + 1)"
  proof -
    have "g AND 2 ^ (2 * k) = 0" using z1 by (intro bit_eqI) (auto simp: bit_simps)
    then have "g + 2 ^ (2 * k) = g XOR 2 ^ (2 * k)" by (rule disjunctive_add_eq_xor)
    then show ?thesis using z2 by (simp add: bit_simps)
  qed
  from of_nat_add_pow [OF this] have e3: "of_nat (g + 3 * 4 ^ k) = of_nat g XOR (?c1 XOR ?c2)"
    using e1 by (simp add: pw xor.assoc algebra_simps)
  have s1: "parity 32 (S0 AND ?c1) = bit S0 (2 * k)" and s2: "parity 32 (S0 AND ?c2) = bit S0 (2 * k + 1)"
    using k parity_single [of "2 * k" S0] parity_single [of "2 * k + 1" S0] by (simp_all only: and.commute)
  have b: "bit ?c1 n \<Longrightarrow> n = 2 * k \<or> n = 2 * k + 1" "bit ?c2 n \<Longrightarrow> n = 2 * k \<or> n = 2 * k + 1"
    "bit (?c1 XOR ?c2) n \<Longrightarrow> n = 2 * k \<or> n = 2 * k + 1" for n
    unfolding bit_xor_iff bit_single_u32 by blast+
  have q1: "quad (of_nat g XOR ?c1) = quad (of_nat g) XOR quad ?c1" by (rule q) (rule b(1))
  have q2: "quad (of_nat g XOR ?c2) = quad (of_nat g) XOR quad ?c2" by (rule q) (rule b(2))
  have q3: "quad (of_nat g XOR (?c1 XOR ?c2)) = quad (of_nat g) XOR quad (?c1 XOR ?c2)"
    by (rule q) (rule b(3))
  have "parity 32 (quad (?c1 XOR ?c2))" using k by (intro parity_quad_pair) simp
  then show ?C unfolding e3 EH3_flip [OF q3] bit.conj_xor_distrib parity_xor s1 s2 by simp
  show ?A unfolding e1 EH3_flip [OF q1] s1 by (simp only: parity_quad_single) simp
  show ?B unfolding e2 EH3_flip [OF q2] s2 by (simp only: parity_quad_single) simp
qed

fun ones_pairs :: "u32 \<Rightarrow> nat \<Rightarrow> nat" where
  "ones_pairs S0 0 = 0"
| "ones_pairs S0 (Suc k) = ones_pairs S0 k + (if drop_bit (2 * k) S0 AND 3 = 3 then 1 else 0)"

lemma and_3_eq: "w AND 3 = of_bool (bit w 0) + 2 * of_bool (bit (w :: u32) 1)"
proof -
  have "w AND 3 = take_bit (Suc (Suc 0)) w" by (simp add: take_bit_eq_mask mask_eq_exp_minus_1)
  also have "\<dots> = of_bool (bit w 0) + 2 * of_bool (bit w 1)"
    by (simp add: take_bit_Suc bit_0 bit_Suc mod_2_eq_odd)
  finally show ?thesis .
qed

lemma drop_bit_and_3: "drop_bit i w AND 3 = of_bool (bit w i) + 2 * of_bool (bit (w :: u32) (i + 1))"
  by (simp add: and_3_eq bit_drop_bit_eq)

lemma drop_bit_and_3_eq_3: "drop_bit i w AND 3 = 3 \<longleftrightarrow> bit w i \<and> bit (w :: u32) (i + 1)"
  by (simp add: drop_bit_and_3)

lemma EH3_block_sum:
  assumes "4 ^ k dvd g" and "k \<le> 16"
  shows "(\<Sum>j<4 ^ k. EH3 s0 S0 (of_nat (g + j))) = (- 1) ^ ones_pairs S0 k * 2 ^ k * EH3 s0 S0 (of_nat g)"
  using assms
proof (induction k arbitrary: g)
  case (Suc k)
  have d: "4 ^ k dvd g" using Suc.prems(1) by (metis dvd_mult_right power_Suc)
  have IH: "(\<Sum>j<4 ^ k. EH3 s0 S0 (of_nat (g + a * 4 ^ k + j))) =
      (- 1) ^ ones_pairs S0 k * 2 ^ k * EH3 s0 S0 (of_nat (g + a * 4 ^ k))" for a
    using Suc.IH [of "g + a * 4 ^ k"] Suc.prems(2) d by simp
  have "(\<Sum>j<4 ^ Suc k. EH3 s0 S0 (of_nat (g + j))) =
      (\<Sum>a<4. \<Sum>j<4 ^ k. EH3 s0 S0 (of_nat (g + a * 4 ^ k + j)))"
    using sum_lessThan_blocks [of "\<lambda>j. EH3 s0 S0 (of_nat (g + j))" 4 "4 ^ k"] by (simp add: add.assoc)
  also have "\<dots> = (- 1) ^ ones_pairs S0 k * 2 ^ k *
      (EH3 s0 S0 (of_nat g) + EH3 s0 S0 (of_nat (g + 4 ^ k)) + EH3 s0 S0 (of_nat (g + 2 * 4 ^ k))
       + EH3 s0 S0 (of_nat (g + 3 * 4 ^ k)))"
    unfolding IH by (simp add: numeral_eq_Suc lessThan_Suc algebra_simps)
  finally show ?case
    using Suc.prems EH3_pair [of k g s0 S0]
    by (simp add: drop_bit_and_3_eq_3)
qed simp

abbreviation EH3_prefix :: "u32 \<Rightarrow> u32 \<Rightarrow> nat \<Rightarrow> int" where
  "EH3_prefix s0 S0 n \<equiv> \<Sum>j<n. EH3 s0 S0 (of_nat j)"

text \<open>The pair \<open>t\<close> at position \<open>k\<close> of an aligned word, and the prefix sum it contributes.\<close>

lemma pair_split:
  assumes al: "aligned (2 * k) gamma" and k: "k < 16"
  defines "t \<equiv> drop_bit (2 * k) gamma AND 3"
  defines "g \<equiv> gamma XOR push_bit (2 * k) t"
  shows "aligned (2 * (k + 1)) g" and "unat gamma = unat g + unat t * 4 ^ k" and "unat t < 4"
proof -
  have t: "t = of_bool (bit gamma (2 * k)) + 2 * of_bool (bit gamma (2 * k + 1))"
    unfolding t_def by (rule drop_bit_and_3)
  then show "unat t < 4" by simp
  let ?g1 = "if bit gamma (2 * k) then gamma XOR push_bit (2 * k) 1 else gamma"
  let ?g2 = "if bit gamma (2 * k + 1) then ?g1 XOR push_bit (2 * k + 1) 1 else ?g1"
  have b1: "bit ?g1 (2 * k + 1) = bit gamma (2 * k + 1)"
    by (simp add: bit_xor_iff bit_single_u32 del: push_bit_of_1)
  have g: "g = ?g2"
  proof -
    have "(3 :: u32) = 1 XOR push_bit 1 1" by simp
    then have p3: "push_bit (2 * k) (3 :: u32) = push_bit (2 * k) 1 XOR push_bit (2 * k + 1) 1"
      by (simp only: push_bit_xor push_bit_push_bit add.commute)
    have p2: "push_bit (2 * k) (2 :: u32) = push_bit (2 * k + 1) 1"
      by (simp add: push_bit_eq_mult)
    show ?thesis
      unfolding g_def t
      by (cases "bit gamma (2 * k)"; cases "bit gamma (2 * k + 1)")
        (simp_all add: p3 p2 xor.assoc del: push_bit_of_1 push_bit_Suc Suc_eq_plus1 add_Suc_right)
  qed
  have a1: "aligned (2 * k + 1) ?g1"
    using aligned_clear [OF al] aligned_SucI [OF al] by simp
  then show "aligned (2 * (k + 1)) g"
  proof (cases "bit gamma (2 * k + 1)")
    case True
    then have "aligned (Suc (2 * k + 1)) ?g2" using aligned_clear [OF a1] b1 by (simp only: if_True)
    then show ?thesis unfolding g by simp
  next
    case False
    then have "aligned (Suc (2 * k + 1)) ?g2" using aligned_SucI [OF a1] b1 by (simp only: if_False not_False_eq_True)
    then show ?thesis unfolding g by simp
  qed
  have u1: "unat gamma = unat ?g1 + (if bit gamma (2 * k) then 2 ^ (2 * k) else 0)"
    using unat_clear_bit [of gamma "2 * k"] by simp
  have u2: "unat ?g1 = unat ?g2 + (if bit gamma (2 * k + 1) then 2 ^ (2 * k + 1) else 0)"
    using unat_clear_bit [of ?g1 "2 * k + 1"] b1 by simp
  have "unat t = (if bit gamma (2 * k) then 1 else 0) + (if bit gamma (2 * k + 1) then 2 else 0)"
    unfolding t by simp
  then show "unat gamma = unat g + unat t * 4 ^ k"
    unfolding g using u1 u2 by (simp add: power_mult)
qed

lemma EH3_block_of_int:
  assumes "k < 16" and "\<bar>s\<bar> + 2 ^ k \<le> 2 ^ 53"
  shows "EH3_block S0 s0 (2 * k) c g (of_int s) = of_int (s + (- 1) ^ c * 2 ^ k * EH3 s0 S0 g)"
proof -
  let ?v = "EH3 s0 S0 g"
  have v: "?v = 1 \<or> ?v = - 1" by (rule eh3.xi_values)
  have sh: "shl_int ?v k = ?v * 2 ^ k" using v assms(1) by (intro shl_int_pm1) simp_all
  have "\<bar>?v * 2 ^ k\<bar> = 2 ^ k" using v by auto
  then have "\<bar>s + ?v * 2 ^ k\<bar> \<le> 2 ^ 53" "\<bar>s - ?v * 2 ^ k\<bar> \<le> 2 ^ 53"
    using assms(2) by linarith+
  then show ?thesis
    unfolding EH3_block_def Let_def sh
    by (cases "even c") (simp_all add: sh dadd_of_int dsub_of_int mult.commute odd_iff_mod_2_eq_one del: of_int_add of_int_diff of_int_mult)
qed

text \<open>The three-way chain of the loop body adds one block sum per unit of the pair \<open>t\<close>.\<close>

definition EH3_pair_sum :: "u32 \<Rightarrow> u32 \<Rightarrow> nat \<Rightarrow> nat \<Rightarrow> u32 \<Rightarrow> u32 \<Rightarrow> double \<Rightarrow> double" where
  "EH3_pair_sum S0 s0 i c t g sm =
     (if t = 1 then EH3_block S0 s0 i c g sm
      else if t = 2 then
        EH3_block S0 s0 i c (g + push_bit i 1) (EH3_block S0 s0 i c g sm)
      else if t = 3 then
        EH3_block S0 s0 i c (g + push_bit (i + 1) 1)
          (EH3_block S0 s0 i c (g + push_bit i 1) (EH3_block S0 s0 i c g sm))
      else sm)"

lemma EH3_pair_sum_of_int:
  assumes k: "k < 16" and b: "\<bar>s\<bar> + int (unat t) * 2 ^ k \<le> 2 ^ 53" and t: "unat t < 4"
  shows "EH3_pair_sum S0 s0 (2 * k) c t g (of_int s) =
    of_int (s + (\<Sum>a<unat t. (- 1) ^ c * 2 ^ k * EH3 s0 S0 (of_nat (unat g + a * 4 ^ k))))"
proof -
  have pw: "push_bit (2 * k) 1 = (4 ^ k :: u32)" "push_bit (2 * k + 1) 1 = (2 * 4 ^ k :: u32)"
    by (simp_all add: power_mult)
  define v where "v a = (- 1) ^ c * 2 ^ k * EH3 s0 S0 (of_nat (unat g + a * 4 ^ k))" for a
  have v: "\<bar>v a\<bar> = 2 ^ k" for a
    using eh3.xi_values [of s0 S0 "of_nat (unat g + a * 4 ^ k)"] by (auto simp: v_def abs_mult power_abs)
  have blk: "EH3_block S0 s0 (2 * k) c (g + of_nat a * 4 ^ k) (of_int s') = of_int (s' + v a)"
    if "\<bar>s'\<bar> + 2 ^ k \<le> 2 ^ 53" for a s'
    using EH3_block_of_int [OF k that, of S0 s0 c "g + of_nat a * 4 ^ k"] by (simp add: v_def)
  have blk0: "EH3_block S0 s0 (2 * k) c g (of_int s') = of_int (s' + v 0)"
    and blk1: "EH3_block S0 s0 (2 * k) c (g + 4 ^ k) (of_int s') = of_int (s' + v 1)"
    and blk2: "EH3_block S0 s0 (2 * k) c (g + 2 * 4 ^ k) (of_int s') = of_int (s' + v 2)"
    if "\<bar>s'\<bar> + 2 ^ k \<le> 2 ^ 53" for s'
    using blk [OF that, of 0] blk [OF that, of 1] blk [OF that, of 2] by simp_all
  have s1: "\<bar>s + v 0\<bar> \<le> \<bar>s\<bar> + 2 ^ k" using v [of 0] by linarith
  have s2: "\<bar>s + v 0 + v 1\<bar> \<le> \<bar>s\<bar> + 2 * 2 ^ k" using v [of 0] v [of 1] by linarith
  have pos: "0 \<le> (2 :: int) ^ k" by simp
  have sum2: "(\<Sum>a<2. v a) = v 0 + v 1" by (simp add: numeral_2_eq_2)
  have sum3: "(\<Sum>a<3. v a) = v 0 + v 1 + v 2" by (simp add: numeral_3_eq_3 numeral_2_eq_2)
  obtain n where n: "t = of_nat n" "n < 4" using t that [of "unat t"] by simp
  then have "n = 0 \<or> n = 1 \<or> n = 2 \<or> n = 3" by linarith
  then have "t = 0 \<or> t = 1 \<or> t = 2 \<or> t = 3" unfolding n(1) by (elim disjE) simp_all
  then consider "t = 0" | "t = 1" | "t = 2" | "t = 3" by blast
  then show ?thesis
  proof cases
    case 1
    then show ?thesis by (simp add: EH3_pair_sum_def)
  next
    case 2
    then have "\<bar>s\<bar> + 2 ^ k \<le> 2 ^ 53" using b by simp
    then show ?thesis using 2 unfolding v_def [symmetric] EH3_pair_sum_def by (simp add: blk0)
  next
    case 3
    then have "\<bar>s\<bar> + 2 * 2 ^ k \<le> 2 ^ 53" using b by simp
    then have "\<bar>s\<bar> + 2 ^ k \<le> 2 ^ 53" "\<bar>s + v 0\<bar> + 2 ^ k \<le> 2 ^ 53"
      using s1 pos by linarith+
    then show ?thesis using 3 unfolding v_def [symmetric] EH3_pair_sum_def pw
      by (simp add: blk0 blk1 sum2 del: of_int_add)
  next
    case 4
    then have "\<bar>s\<bar> + 3 * 2 ^ k \<le> 2 ^ 53" using b by simp
    then have "\<bar>s\<bar> + 2 ^ k \<le> 2 ^ 53" "\<bar>s + v 0\<bar> + 2 ^ k \<le> 2 ^ 53" "\<bar>s + v 0 + v 1\<bar> + 2 ^ k \<le> 2 ^ 53"
      using s1 s2 pos by linarith+
    then show ?thesis using 4 unfolding v_def [symmetric] EH3_pair_sum_def pw
      by (simp add: blk0 blk1 blk2 sum3 add.assoc [symmetric] del: of_int_add)
  qed
qed

lemma EH3_prefix_pair:
  assumes "aligned (2 * (k + 1)) g" and "k < 16" and "unat t < 4"
  shows "EH3_prefix s0 S0 (unat g + unat t * 4 ^ k) = EH3_prefix s0 S0 (unat g) +
    (\<Sum>a<unat t. (- 1) ^ ones_pairs S0 k * 2 ^ k * EH3 s0 S0 (of_nat (unat g + a * 4 ^ k)))"
proof -
  have "2 ^ (2 * (k + 1)) dvd unat g" by (rule aligned_dvd [OF assms(1)])
  then have "4 ^ k dvd unat g"
    by (metis power_mult power2_eq_square dvd_mult_right power_add power_one_right mult_2 numeral_Bit0
        dvd_mult_left mult.commute)
  then have "(\<Sum>j<4 ^ k. EH3 s0 S0 (of_nat (unat g + a * 4 ^ k + j))) =
      (- 1) ^ ones_pairs S0 k * 2 ^ k * EH3 s0 S0 (of_nat (unat g + a * 4 ^ k))" for a
    using assms(2) by (intro EH3_block_sum) simp_all
  then show ?thesis
    unfolding sum_lessThan_add by (simp add: sum_lessThan_blocks add.assoc)
qed

lemma EH3Interval_loop_step:
  assumes "i < 32" and "gamma \<noteq> 0"
  shows "EH3Interval_loop S0 s0 i c gamma sm =
    EH3Interval_loop S0 s0 (i + 2) (if drop_bit i S0 AND 3 = 3 then c + 1 else c)
      (gamma XOR push_bit i (drop_bit i gamma AND 3))
      (EH3_pair_sum S0 s0 i c (drop_bit i gamma AND 3) (gamma XOR push_bit i (drop_bit i gamma AND 3)) sm)"
  using assms by (subst EH3Interval_loop.simps) (simp only: Let_def EH3_pair_sum_def if_True if_False)

lemma EH3Interval_loop_correct:
  assumes "aligned (2 * k) gamma" and "\<bar>s\<bar> + int (unat gamma) \<le> 2 ^ 53"
  shows "EH3Interval_loop S0 s0 (2 * k) (ones_pairs S0 k) gamma (of_int s) =
           of_int (s + EH3_prefix s0 S0 (unat gamma))"
  using assms
proof (induction "16 - k" arbitrary: k gamma s)
  case 0
  then have "aligned 32 gamma" by (auto simp: aligned_def)
  then show ?case using 0 by (simp add: EH3Interval_loop.simps [of S0 s0 "2 * k"] aligned_32)
next
  case (Suc d)
  have k: "k < 16" using Suc.hyps by simp
  show ?case
  proof (cases "gamma = 0")
    case True
    then show ?thesis using k by (simp add: EH3Interval_loop.simps [of S0 s0 "2 * k"])
  next
    case False
    let ?t = "drop_bit (2 * k) gamma AND 3"
    let ?g = "gamma XOR push_bit (2 * k) ?t"
    note split = pair_split [OF Suc.prems(1) k]
    define S where "S = (\<Sum>a<unat ?t. (- 1) ^ ones_pairs S0 k * 2 ^ k * EH3 s0 S0 (of_nat (unat ?g + a * 4 ^ k)))"
    have "\<bar>(- 1) ^ ones_pairs S0 k * 2 ^ k * EH3 s0 S0 w\<bar> = 2 ^ k" for w
      using eh3.xi_values [of s0 S0 w] by (auto simp: abs_mult power_abs)
    then have Sb: "\<bar>S\<bar> \<le> int (unat ?t) * 2 ^ k"
      unfolding S_def by (intro order_trans [OF sum_abs]) simp
    have "(2 :: int) ^ k \<le> 4 ^ k" by (rule power_mono) simp_all
    then have tk: "int (unat ?t) * 2 ^ k \<le> int (unat ?t) * 4 ^ k" by (rule mult_left_mono) simp
    have u: "int (unat gamma) = int (unat ?g) + int (unat ?t) * 4 ^ k"
      using arg_cong [OF split(2), of int] by (simp only: of_nat_add of_nat_mult of_nat_power of_nat_numeral)
    have b: "\<bar>s\<bar> + int (unat ?t) * 2 ^ k \<le> 2 ^ 53" and b': "\<bar>s + S\<bar> + int (unat ?g) \<le> 2 ^ 53"
      using Suc.prems(2) u tk Sb of_nat_0_le_iff [of "unat ?g", where ?'a = int] by linarith+
    have k2: "2 * k < 32" using k by simp
    have "EH3Interval_loop S0 s0 (2 * k) (ones_pairs S0 k) gamma (of_int s) =
        EH3Interval_loop S0 s0 (2 * (k + 1)) (ones_pairs S0 (k + 1)) ?g (of_int (s + S))"
      unfolding EH3Interval_loop_step [OF k2 False]
        EH3_pair_sum_of_int [OF k b split(3)] S_def by simp
    also have "\<dots> = of_int (s + S + EH3_prefix s0 S0 (unat ?g))"
      using Suc.hyps(1) [OF _ split(1) b'] Suc.hyps(2) by simp
    finally show ?thesis
      using EH3_prefix_pair [OF split(1) k split(3), of s0 S0] unfolding split(2) [symmetric] S_def
      by (simp only: ac_simps)
  qed
qed

lemma and_3_cases: "(x :: u32) AND 3 = 0 \<or> x AND 3 = 1 \<or> x AND 3 = 2 \<or> x AND 3 = 3"
proof -
  have "x AND 3 = of_nat (unat x mod 4)"
    using take_bit_eq_mask [of 2 x] by (simp add: mask_eq_decr_exp unat_mod word_arith_nat_mod take_bit_eq_mod)
  moreover have "unat x mod 4 = 0 \<or> unat x mod 4 = 1 \<or> unat x mod 4 = 2 \<or> unat x mod 4 = 3" by arith
  ultimately show ?thesis by auto
qed

text \<open>The code before the loop is the loop body for the lowest pair.\<close>

lemma EH3Interval_eq_loop: "EH3Interval gamma S0 s0 = EH3Interval_loop S0 s0 0 0 gamma 0"
proof (cases "gamma = 0")
  case True
  then show ?thesis by (simp add: EH3Interval_def EH3Interval_loop.simps)
next
  case False
  let ?t = "gamma AND 3"
  let ?g = "gamma XOR ?t"
  have "aligned (2 * 0) gamma" by simp
  note split = pair_split [OF this, simplified]
  have u: "unat gamma = unat ?g + unat ?t" using split(2) by simp
  have "of_nat (unat gamma) = ?g + ?t" unfolding u by (simp only: of_nat_add of_nat_unat ucast_id)
  then have "gamma = ?g + ?t" by (simp only: of_nat_unat ucast_id)
  then have g: "?g = gamma - ?t" by (simp only: eq_diff_eq)
  have sh: "shl_int (EH3 s0 S0 w) 0 = EH3 s0 S0 w" for w
    using shl_int_pm1 [OF eh3.xi_values, of 0 s0 S0 w] by simp
  have "EH3Interval_loop S0 s0 0 0 gamma 0 =
      EH3Interval_loop S0 s0 2 (if S0 AND 3 = 3 then 1 else 0) ?g (EH3_pair_sum S0 s0 0 0 ?t ?g 0)"
    using EH3Interval_loop_step [OF _ False, of 0 S0 s0 0 0] by (simp add: numeral_2_eq_2 [symmetric])
  then show ?thesis
    unfolding EH3Interval_def Let_def EH3_pair_sum_def EH3_block_def g sh
    using and_3_cases [of gamma] by (elim disjE) (simp_all add: sh)
qed

lemma EH3Interval_correct: "EH3Interval gamma S0 s0 = of_int (EH3_prefix s0 S0 (unat gamma))"
  using EH3Interval_loop_correct [of 0 gamma 0 S0 s0] int_unat_u32 [of gamma]
  by (simp add: EH3Interval_eq_loop)

section \<open>Properties of the fast range sums\<close>

lemma dsub_prefix:
  assumes "\<And>j. f j = 1 \<or> f j = (- 1 :: int)"
  shows "dsub (of_int (\<Sum>j<unat (a :: u32). f j)) (of_int (\<Sum>j<unat (b :: u32). f j)) =
    of_int ((\<Sum>j<unat a. f j) - (\<Sum>j<unat b. f j))"
proof (rule dsub_of_int)
  have "\<bar>\<Sum>j<unat a. f j\<bar> \<le> int (unat a)" "\<bar>\<Sum>j<unat b. f j\<bar> \<le> int (unat b)"
    using assms by (intro sum_pm1_bound; blast)+
  then show "\<bar>(\<Sum>j<unat a. f j) - (\<Sum>j<unat b. f j)\<bar> \<le> 2 ^ 53"
    using int_unat_u32 [of a] int_unat_u32 [of b] by simp
qed

lemma unat_Suc_u32: "unat (x :: u32) < 4294967295 \<Longrightarrow> unat (x + 1) = unat x + 1"
  by (simp add: unat_word_ariths)

lemma EH3_Range_sum:
  assumes "unat beta < 4294967295" and "unat alpha \<le> unat beta + 1"
  shows "EH3_Range alpha beta S0 s0 = of_int (\<Sum>j=unat alpha..unat beta. EH3 s0 S0 (of_nat j))"
proof -
  have "EH3_Range alpha beta S0 s0 =
      of_int (EH3_prefix s0 S0 (unat (beta + 1)) - EH3_prefix s0 S0 (unat alpha))"
    unfolding EH3_Range_def Let_def EH3Interval_correct by (rule dsub_prefix) (rule eh3.xi_values)
  then show ?thesis
    unfolding unat_Suc_u32 [OF assms(1)] sum_atLeastAtMost_lessThan [OF assms(2)] .
qed

text \<open>
  C25. The fast EH3 range summation returns exactly the sum of the EH3 variables of the range, for
  every range of at most \<open>2^32 - 1\<close> values that does not end in the largest \<open>unsigned int\<close>: the
  double accumulator never rounds.
\<close>

theorem EH3_Range_correct:
  assumes "unat beta < 4294967295" and "unat alpha \<le> unat beta + 1"
  shows "EH3_Range alpha beta S0 s0 = of_int (\<Sum>j=unat alpha..unat beta. EH3 s0 S0 (of_nat j))"
  using assms by (rule EH3_Range_sum)

theorem EH3_Range_correct_witness:
  "EH3_Range 5 9 11 1 = of_int (\<Sum>j=5..9. EH3 1 11 (of_nat j))"
  using EH3_Range_correct [of 9 5 11 1] by simp

text \<open>
  C36. A range ending in the largest \<open>unsigned int\<close> wraps \<open>beta + 1\<close> to 0 and loses its upper part:
  the code returns minus the sum of the variables below \<open>alpha\<close>.
\<close>

theorem EH3_Range_wraps:
  "EH3_Range alpha 4294967295 S0 s0 = of_int (- (\<Sum>j<unat alpha. EH3 s0 S0 (of_nat j)))"
proof -
  have "EH3_Range alpha 4294967295 S0 s0 = of_int (EH3_prefix s0 S0 (unat (0 :: u32)) - EH3_prefix s0 S0 (unat alpha))"
    unfolding EH3_Range_def Let_def EH3Interval_correct
    using dsub_prefix [of "\<lambda>j. EH3 s0 S0 (of_nat j)" 0 alpha] eh3.xi_values by simp
  then show ?thesis by simp
qed

lemma BCH3_Range_sum:
  assumes "unat beta < 4294967295" and "unat alpha \<le> unat beta + 1"
    and "take_bit 31 S0 \<noteq> 0 \<or> unat beta < 2147483647"
  shows "BCH3_Range alpha beta S0 s0 = of_int (\<Sum>j=unat alpha..unat beta. BCH3 s0 S0 (of_nat j))"
proof -
  have s: "take_bit 31 S0 \<noteq> 0 \<or> unat (beta + 1) < 2 ^ 31" "take_bit 31 S0 \<noteq> 0 \<or> unat alpha < 2 ^ 31"
    using assms unat_Suc_u32 [OF assms(1)] by auto
  have "BCH3_Range alpha beta S0 s0 =
      of_int (BCH3_prefix s0 S0 (unat (beta + 1)) - BCH3_prefix s0 S0 (unat alpha))"
    unfolding BCH3_Range_def Let_def BCH3Interval_correct [OF s(1)] BCH3Interval_correct [OF s(2)]
    by (rule dsub_prefix) (rule bch3.xi_values)
  then show ?thesis
    unfolding unat_Suc_u32 [OF assms(1)] sum_atLeastAtMost_lessThan [OF assms(2)] .
qed

text \<open>
  C34. The fast BCH3 range summation is exact too, as long as the \<open>int\<close> shift does not reach the
  sign bit: the range lies below \<open>2^31 - 1\<close>, or one of the lower 31 bits of the seed is set.
\<close>

theorem BCH3_Range_correct:
  assumes "unat beta < 4294967295" and "unat alpha \<le> unat beta + 1"
    and "take_bit 31 S0 \<noteq> 0 \<or> unat beta < 2147483647"
  shows "BCH3_Range alpha beta S0 s0 = of_int (\<Sum>j=unat alpha..unat beta. BCH3 s0 S0 (of_nat j))"
  using assms by (rule BCH3_Range_sum)

theorem BCH3_Range_correct_witness:
  "BCH3_Range 5 9 8 1 = of_int (\<Sum>j=5..9. BCH3 1 8 (of_nat j))"
  using BCH3_Range_correct [of 9 5 8 1] by simp

lemma bit_top_u32: "(2147483648 :: u32) = push_bit 31 1"
  by simp

lemma BCH3Interval_loop_top:
  assumes "1 \<le> i" and "i < 31"
  shows "BCH3Interval_loop 0 1 i 2147483648 0 = BCH3Interval_loop 0 1 (i + 1) 2147483648 0"
proof -
  have "drop_bit i (2147483648 :: u32) AND 1 = 0"
    using assms bit_single_u32 [of 31 i] unfolding bit_top_u32
    by (simp add: and_one_eq bit_iff_odd_drop_bit even_iff_mod_2_eq_zero del: push_bit_of_1)
  then show ?thesis using assms by (subst BCH3Interval_loop.simps) simp
qed

text \<open>
  C35. Beyond that bound the 32-bit shift overflows: with seed 0 every BCH3 variable with \<open>s0 = 1\<close>
  is 1, so the \<open>2^31\<close> variables below \<open>2^31\<close> sum to \<open>2^31\<close>, but \<open>BCH3Interval\<close> returns \<open>- 2^31\<close>.
\<close>

theorem BCH3Interval_overflow:
  "BCH3Interval 2147483648 0 1 = - 2147483648 \<and> BCH3 1 0 j = 1"
proof
  have run: "n < 31 \<Longrightarrow> BCH3Interval_loop 0 1 1 2147483648 0 = BCH3Interval_loop 0 1 (1 + n) 2147483648 0" for n
    by (induction n) (simp_all add: BCH3Interval_loop_top)
  have one: "BCH3 1 0 w = 1" for w by (simp add: BCH3_eq parity_def)
  show "BCH3 1 0 j = 1" by (rule one)
  have "BCH3Interval_loop 0 1 1 2147483648 0 = BCH3Interval_loop 0 1 31 2147483648 0"
    using run [of 30] by simp
  also have "\<dots> = - 2147483648"
    using dadd_of_int [of 0 "- 2147483648"]
    by (simp add: BCH3Interval_loop.simps [of 0 1 31] BCH3Interval_loop.simps [of 0 1 32] one shl_int_def)
  finally show "BCH3Interval 2147483648 0 1 = - 2147483648" by (simp add: BCH3Interval_def)
qed

end
