(* ===== verification/Dyadic.thy ===== *)
theory Dyadic
  imports RangeSum
begin

text \<open>
  The dyadic mapping of \<open>QueryEngine/Sketch/RandomRangeSum.h\<close>: the loop of \<open>Dyadic_Range_EH3\<close>,
  \<open>Dyadic_Range_BCH5\<close> and \<open>Dyadic_Range_CW4\<close> sums one variable per dyadic interval of a minimal
  cover of the range. The identifier of the interval \<open>[k 2^p, (k + 1) 2^p)\<close> is \<open>front_mask_of p XOR k\<close>.
\<close>

section \<open>Identifiers of dyadic intervals\<close>

primrec front_mask_of :: "nat \<Rightarrow> nat \<Rightarrow> u32" where
  "front_mask_of dom_size 0 = 0"
| "front_mask_of dom_size (Suc p) = drop_bit 1 (front_mask_of dom_size p) XOR push_bit dom_size 1"

definition dyadic_id :: "nat \<Rightarrow> nat \<Rightarrow> nat \<Rightarrow> u32" where
  "dyadic_id dom_size p k = front_mask_of dom_size p XOR of_nat k"

lemma bit_front_mask:
  assumes "dom_size < 32" and "n < 32" and "p \<le> dom_size + 1"
  shows "bit (front_mask_of dom_size p) n \<longleftrightarrow> dom_size + 1 \<le> n + p \<and> n \<le> dom_size"
  using assms(2,3)
proof (induction p arbitrary: n)
  case 0
  then show ?case by simp
next
  case (Suc p)
  have "bit (front_mask_of dom_size p) (1 + n) \<longleftrightarrow> dom_size + 1 \<le> 1 + n + p \<and> 1 + n \<le> dom_size"
  proof (cases "1 + n < 32")
    case True
    then show ?thesis using Suc by simp
  next
    case False
    then show ?thesis using bit_u32_less [of "front_mask_of dom_size p" "1 + n"] assms(1) by auto
  qed
  then show ?case
    using Suc.prems assms(1) bit_single_u32 [of dom_size n]
    by (auto simp: bit_xor_iff bit_drop_bit_eq simp del: push_bit_of_1)
qed

lemma bit_of_nat_bound: "k < 2 ^ m \<Longrightarrow> m \<le> n \<Longrightarrow> \<not> bit (of_nat k :: u32) n"
  by (metis bit_of_nat_iff bit_take_bit_iff linorder_not_le take_bit_nat_eq_self_iff)

lemma dyadic_id_bit:
  assumes "dom_size < 32" and "p \<le> dom_size" and "k < 2 ^ (dom_size - p)" and "dom_size - p \<le> n" and "n \<le> dom_size"
  shows "bit (dyadic_id dom_size p k) n \<longleftrightarrow> dom_size - p < n"
  using assms bit_front_mask [of dom_size n p] bit_of_nat_bound [OF assms(3,4)]
  by (auto simp: dyadic_id_def bit_xor_iff)

lemma dyadic_id_neq:
  assumes "dom_size < 32" and "p < q" and "q \<le> dom_size" and "k < 2 ^ (dom_size - p)" and "l < 2 ^ (dom_size - q)"
  shows "dyadic_id dom_size p k \<noteq> dyadic_id dom_size q l"
proof -
  have "\<not> bit (dyadic_id dom_size p k) (dom_size - p)"
    using assms by (subst dyadic_id_bit) simp_all
  moreover have "bit (dyadic_id dom_size q l) (dom_size - p)"
    using assms by (subst dyadic_id_bit) simp_all
  ultimately show ?thesis by auto
qed

lemma dyadic_id_inj_same:
  assumes "dyadic_id dom_size p k = dyadic_id dom_size p l" and "k < 2 ^ 32" and "l < 2 ^ 32"
  shows "k = l"
proof -
  have "(of_nat k :: u32) = of_nat l"
    using arg_cong [OF assms(1), of "\<lambda>w. front_mask_of dom_size p XOR w"]
    by (simp add: dyadic_id_def flip: xor.assoc)
  then have "unat (of_nat k :: u32) = unat (of_nat l :: u32)" by simp
  then show ?thesis using assms(2,3) by (simp add: unat_of_nat_u32)
qed

text \<open>
  Different dyadic intervals of the domain \<open>[0, 2^dom_size)\<close> are mapped to different
  identifiers, so the scheme is called on distinct arguments for distinct intervals.
\<close>

theorem dyadic_id_injective:
  assumes "dom_size < 32" and "p \<le> dom_size" and "q \<le> dom_size"
    and "k < 2 ^ (dom_size - p)" and "l < 2 ^ (dom_size - q)"
    and "dyadic_id dom_size p k = dyadic_id dom_size q l"
  shows "p = q \<and> k = l"
proof -
  have pq: "p = q"
    using dyadic_id_neq [of dom_size p q k l] dyadic_id_neq [of dom_size q p l k] assms
    by (metis linorder_neqE_nat)
  have "(2 :: nat) ^ (dom_size - p) \<le> 2 ^ 32" using assms(1) by (intro power_increasing) simp_all
  then show ?thesis
    using dyadic_id_inj_same [of dom_size p k l] assms pq by simp
qed

theorem dyadic_id_injective_witness: "dyadic_id 4 1 3 \<noteq> dyadic_id 4 2 3"
  using dyadic_id_injective [of 4 1 2 3 3] by auto

section \<open>The cover the loop visits\<close>

fun dyadic_cover :: "nat \<Rightarrow> nat \<Rightarrow> nat \<Rightarrow> nat \<Rightarrow> (nat \<times> nat) list" where
  "dyadic_cover 0 p A B = []"
| "dyadic_cover (Suc d) p A B =
     (if A < B then
        (if odd A then [(p, A)] else []) @
        (if odd B \<and> A + A mod 2 < B then [(p, B - 1)] else []) @
        dyadic_cover d (p + 1) ((A + 1) div 2) (B div 2)
      else [])"

definition covering :: "nat \<Rightarrow> nat \<times> nat \<Rightarrow> bool" where
  "covering j = (\<lambda>(p, k). k = j div 2 ^ p)"

lemma covering_pair: "covering j (p, k) \<longleftrightarrow> k = j div 2 ^ p"
  by (simp add: covering_def)

lemma half_le: "((A :: nat) + 1) div 2 \<le> m div 2 \<longleftrightarrow> A + A mod 2 \<le> m"
  by (cases "even A"; cases "even m") (auto elim!: evenE oddE)

lemma half_less: "(m :: nat) div 2 < B div 2 \<longleftrightarrow> m < B - B mod 2"
  by (cases "even B"; cases "even m") (auto elim!: evenE oddE)

lemma cover_split:
  assumes "A < (B :: nat)"
  shows "of_bool (odd A \<and> A = m) + (of_bool ((odd B \<and> A + A mod 2 < B) \<and> B - 1 = m) +
    of_bool (A + A mod 2 \<le> m \<and> m < B - B mod 2)) = (of_bool (A \<le> m \<and> m < B) :: nat)"
proof -
  obtain a r where a: "A = 2 * a + r" "r = 0 \<or> r = 1" by (metis mult_div_mod_eq parity_cases)
  obtain b q where b: "B = 2 * b + q" "q = 0 \<or> q = 1" by (metis mult_div_mod_eq parity_cases)
  show ?thesis
    using assms a(2) b(2) unfolding a(1) b(1)
    by (elim disjE) (auto simp: of_bool_def)
qed

lemma length_filter_single: "length (filter P (if c then [x] else [])) = of_bool (c \<and> P x)"
  by (cases c; cases "P x") simp_all

lemma dyadic_cover_count:
  "B < 2 ^ d \<Longrightarrow>
   length (filter (covering j) (dyadic_cover d p A B)) = of_bool (A \<le> j div 2 ^ p \<and> j div 2 ^ p < B)"
proof (induction d arbitrary: p A B)
  case 0
  then show ?case by simp
next
  case (Suc d)
  let ?m = "j div 2 ^ p"
  have m: "j div 2 ^ (p + 1) = ?m div 2" unfolding power_add by (simp add: div_mult2_eq)
  have IH: "length (filter (covering j) (dyadic_cover d (p + 1) ((A + 1) div 2) (B div 2))) =
      of_bool ((A + 1) div 2 \<le> ?m div 2 \<and> ?m div 2 < B div 2)"
    using Suc.IH [of "B div 2" "p + 1" "(A + 1) div 2"] Suc.prems unfolding m by simp
  show ?case
  proof (cases "A < B")
    case True
    show ?thesis
      using True cover_split [OF True, of ?m] unfolding dyadic_cover.simps(2)
      by (simp only: if_True filter_append length_append IH half_le half_less length_filter_single
          covering_pair add.assoc)
  next
    case False
    then show ?thesis by auto
  qed
qed

lemma dyadic_cover_empty [simp]: "B \<le> A \<Longrightarrow> dyadic_cover d p A B = []"
  by (cases d) simp_all

lemma dyadic_cover_bound:
  "(q, k) \<in> set (dyadic_cover d p A B) \<Longrightarrow> p \<le> q \<and> q < p + d \<and> (k + 1) * 2 ^ q \<le> B * 2 ^ p"
proof (induction d arbitrary: p A B)
  case 0
  then show ?case by simp
next
  case (Suc d)
  have half: "B div 2 * 2 ^ (p + 1) \<le> B * 2 ^ p"
    using mult_le_mono1 [of "B div 2 * 2" B "2 ^ p"] by (simp add: mult.assoc)
  have "A < B" using Suc.prems by (cases "A < B") simp_all
  then consider "(q, k) = (p, A)" | "(q, k) = (p, B - 1)"
    | "(q, k) \<in> set (dyadic_cover d (p + 1) ((A + 1) div 2) (B div 2))"
    using Suc.prems by (auto split: if_splits)
  then show ?case
  proof cases
    case 1
    then show ?thesis using mult_le_mono1 [of "A + 1" B "2 ^ p"] \<open>A < B\<close> by simp
  next
    case 2
    then show ?thesis using \<open>A < B\<close> by simp
  next
    case 3
    then show ?thesis using Suc.IH [OF 3] order_trans [OF _ half] by simp
  qed
qed

section \<open>The loop computes the sum over the cover\<close>

definition dyadic_sum :: "(u32 \<Rightarrow> int) \<Rightarrow> nat \<Rightarrow> (nat \<times> nat) list \<Rightarrow> int" where
  "dyadic_sum xi dom_size C = (\<Sum>(p, k)\<leftarrow>C. xi (dyadic_id dom_size p k))"

lemma dyadic_sum_simps [simp]:
  "dyadic_sum xi dom_size [] = 0"
  "dyadic_sum xi dom_size ((p, k) # C) = xi (dyadic_id dom_size p k) + dyadic_sum xi dom_size C"
  "dyadic_sum xi dom_size (C @ D) = dyadic_sum xi dom_size C + dyadic_sum xi dom_size D"
  by (simp_all add: dyadic_sum_def)

text \<open>One iteration, in units of \<open>2 ^ p\<close>: \<open>alpha = A 2^p\<close> and \<open>beta + 1 = B 2^p\<close>.\<close>

lemma word_of_int_nat: "word_of_int (int n) = (of_nat n :: u32)"
  by simp

lemma drop_bit_unit:
  "drop_bit p (int A * 2 ^ p) = int A"
  "0 < B \<Longrightarrow> drop_bit p (int B * 2 ^ p - 1) = int (B - 1)"
proof -
  show "drop_bit p (int A * 2 ^ p) = int A" by (simp add: drop_bit_eq_div)
  assume "0 < B"
  then have "int B * 2 ^ p - 1 = int (B - 1) * 2 ^ p + (2 ^ p - 1)"
    by (simp add: of_nat_diff algebra_simps)
  also have "\<dots> div 2 ^ p = int (B - 1)" by (simp add: div_pos_pos_trivial)
  finally show "drop_bit p (int B * 2 ^ p - 1) = int (B - 1)" by (simp add: drop_bit_eq_div)
qed

lemma dyadic_loop_correct:
  assumes "dom_size < 32" and xi: "\<And>w. \<bar>xi w\<bar> \<le> 1"
  shows "p + d \<le> 31 \<Longrightarrow> B < 2 ^ d \<Longrightarrow> int B * 2 ^ p \<le> 2 ^ 30 \<Longrightarrow> \<bar>s\<bar> + 2 * int d \<le> 2 ^ 53 \<Longrightarrow>
    dyadic_loop xi dom_size (int A * 2 ^ p) (int B * 2 ^ p - 1) p (front_mask_of dom_size p) (of_int s) =
      Some (of_int (s + dyadic_sum xi dom_size (dyadic_cover d p A B)))"
proof (induction d arbitrary: p A B s)
  case 0
  have "0 \<le> int A * 2 ^ p" by simp
  then have "\<not> int A * 2 ^ p \<le> - 1" by linarith
  then show ?case using 0 by (subst dyadic_loop.simps) simp
next
  case (Suc d)
  have le: "int A * 2 ^ p \<le> int B * 2 ^ p - 1 \<longleftrightarrow> A < B" for A B
  proof -
    have "int A * 2 ^ p < int B * 2 ^ p \<longleftrightarrow> A < B" by simp
    then show ?thesis by linarith
  qed
  show ?case
  proof (cases "A < B")
    case False
    then show ?thesis using le [of A B] by (subst dyadic_loop.simps) simp
  next
    case True
    define A1 where "A1 = A + A mod 2"
    define s1 where "s1 = s + (if odd A then xi (dyadic_id dom_size p A) else 0)"
    define B1 where "B1 = B - B mod 2"
    define s2 where "s2 = s1 + (if odd B then xi (dyadic_id dom_size p (B - 1)) else 0)"
    have s1: "\<bar>s1\<bar> \<le> \<bar>s\<bar> + 1" and s2: "\<bar>s2\<bar> \<le> \<bar>s1\<bar> + 1"
      using xi [of "dyadic_id dom_size p A"] xi [of "dyadic_id dom_size p (B - 1)"]
      by (auto simp: s1_def s2_def)
    have dadd: "dadd (of_int s) (of_int (xi w)) = of_int (s + xi w)"
      "dadd (of_int s1) (of_int (xi w)) = of_int (s1 + xi w)" for w
      using xi [of w] s1 Suc.prems(4) by (intro dadd_of_int; simp)+
    have first: "(if odd (drop_bit p (int A * 2 ^ p)) then
           let map = front_mask_of dom_size p XOR word_of_int (drop_bit p (int A * 2 ^ p))
           in (int A * 2 ^ p + 2 ^ p, dadd (of_int s) (of_int (xi map)))
         else (int A * 2 ^ p, of_int s)) = (int A1 * 2 ^ p, of_int s1)"
      by (simp add: drop_bit_unit A1_def s1_def dyadic_id_def dadd algebra_simps odd_iff_mod_2_eq_one
          del: of_int_add)
    have second: "(if even (drop_bit p (int B * 2 ^ p - 1)) then
           let map = front_mask_of dom_size p XOR word_of_int (drop_bit p (int B * 2 ^ p - 1 - 2 ^ p + 1))
           in (int B * 2 ^ p - 1 - 2 ^ p, dadd (of_int s1) (of_int (xi map)))
         else (int B * 2 ^ p - 1, of_int s1)) = (int B1 * 2 ^ p - 1, of_int s2)"
    proof -
      obtain C where C: "B = Suc C" using True by (cases B) simp_all
      have "int B * 2 ^ p - 1 - 2 ^ p + 1 = int C * 2 ^ p" "int B * 2 ^ p - 1 - 2 ^ p = int C * 2 ^ p - 1"
        by (simp_all add: C algebra_simps)
      moreover have "drop_bit p (int B * 2 ^ p - 1) = int C" using drop_bit_unit(2) [of B p] C by simp
      moreover have "even C \<Longrightarrow> B - B mod 2 = C" "odd C \<Longrightarrow> B - B mod 2 = B" unfolding C by presburger+
      ultimately show ?thesis
        by (cases "even C") (simp_all only: if_True if_False Let_def drop_bit_unit dadd s2_def B1_def C
            dyadic_id_def even_of_nat even_Suc diff_Suc_1 of_int_of_nat_eq word_of_int_nat add_0_right
            not_True_eq_False not_False_eq_True simp_thms)
    qed
    have p: "\<not> (31 \<le> p \<or> 32 \<le> dom_size)" using Suc.prems(1) assms(1) by simp
    have bound: "int A1 * 2 ^ p \<le> 2147483647"
    proof -
      have "A1 \<le> B" using True unfolding A1_def by presburger
      then have "int A1 * 2 ^ p \<le> int B * 2 ^ p" by simp
      also note Suc.prems(3)
      also have "(2 :: int) ^ 30 \<le> 2147483647" by simp
      finally show ?thesis .
    qed
    have "0 \<le> int B1 * 2 ^ p" by simp
    then have "\<not> int B1 * 2 ^ p - 1 < - 2147483648" by linarith
    then have step: "dyadic_loop xi dom_size (int A * 2 ^ p) (int B * 2 ^ p - 1) p (front_mask_of dom_size p) (of_int s) =
       (if int A1 * 2 ^ p > int B * 2 ^ p - 1 then Some (of_int s1)
        else dyadic_loop xi dom_size (int A1 * 2 ^ p) (int B1 * 2 ^ p - 1) (p + 1) (front_mask_of dom_size (p + 1)) (of_int s2))"
      using True le [of A B] p bound
      by (subst dyadic_loop.simps) (simp only: first [unfolded Let_def] second [unfolded Let_def] Let_def
          prod.case if_True if_False linorder_not_less [symmetric] front_mask_of.simps Suc_eq_plus1 [symmetric] simp_thms)
    have halves: "int A1 * 2 ^ p = int ((A + 1) div 2) * 2 ^ (p + 1)" "int B1 * 2 ^ p = int (B div 2) * 2 ^ (p + 1)"
    proof -
      have "A1 = (A + 1) div 2 * 2" "B1 = B div 2 * 2" unfolding A1_def B1_def by presburger+
      then show "int A1 * 2 ^ p = int ((A + 1) div 2) * 2 ^ (p + 1)" "int B1 * 2 ^ p = int (B div 2) * 2 ^ (p + 1)"
        by simp_all
    qed
    have cover: "s + dyadic_sum xi dom_size (dyadic_cover (Suc d) p A B) =
        (if A1 < B then s2 + dyadic_sum xi dom_size (dyadic_cover d (p + 1) ((A + 1) div 2) (B div 2)) else s1)"
      using True by (auto simp: A1_def s1_def s2_def)
    show ?thesis
    proof (cases "A1 < B")
      case True
      have "B1 \<le> B" by (simp add: B1_def)
      then have "int B1 * 2 ^ p \<le> int B * 2 ^ p" by simp
      then have b: "int (B div 2) * 2 ^ (p + 1) \<le> 2 ^ 30" using Suc.prems(3) halves by linarith
      have "\<bar>s2\<bar> + 2 * int d \<le> 2 ^ 53" using s1 s2 Suc.prems(4) by simp
      then have IH: "dyadic_loop xi dom_size (int A1 * 2 ^ p) (int B1 * 2 ^ p - 1) (p + 1) (front_mask_of dom_size (p + 1)) (of_int s2) =
          Some (of_int (s2 + dyadic_sum xi dom_size (dyadic_cover d (p + 1) ((A + 1) div 2) (B div 2))))"
        unfolding halves using Suc.prems(1,2) by (intro Suc.IH [OF _ _ b]) simp_all
      have "\<not> int B * 2 ^ p - 1 < int A1 * 2 ^ p" using True le [of A1 B] by linarith
      then show ?thesis using True unfolding step cover IH by simp
    next
      case False
      then have "int B * 2 ^ p - 1 < int A1 * 2 ^ p" using le [of A1 B] by linarith
      then show ?thesis using False unfolding step cover by simp
    qed
  qed
qed

text \<open>The whole range, from the arguments the callers pass.\<close>

lemma dyadic_range_correct:
  assumes "dom_size \<le> 30" and "\<And>w. \<bar>xi w\<bar> \<le> 1" and "unat (b :: u32) < 2 ^ dom_size" and "unat (a :: u32) \<le> unat b"
  shows "dyadic_loop xi dom_size (sint a) (sint b) 0 0 0 =
    Some (of_int (dyadic_sum xi dom_size (dyadic_cover (dom_size + 1) 0 (unat a) (unat b + 1))))"
proof -
  have "(2 :: nat) ^ dom_size \<le> 2 ^ 30" using assms(1) by (intro power_increasing) simp_all
  then have b: "unat b < 2 ^ 30" using assms(3) by linarith
  define C where "C = dyadic_cover (dom_size + 1) 0 (unat a) (unat b + 1)"
  have "dyadic_loop xi dom_size (int (unat a) * 2 ^ 0) (int (unat b + 1) * 2 ^ 0 - 1) 0 (front_mask_of dom_size 0) (of_int 0) =
      Some (of_int (0 + dyadic_sum xi dom_size C))"
    unfolding C_def
  proof (rule dyadic_loop_correct)
    have "unat b + 1 \<le> 2 ^ 30" using b by simp
    then have "int (unat b + 1) \<le> int (2 ^ 30)" by (simp only: of_nat_le_iff)
    then show "int (unat b + 1) * 2 ^ 0 \<le> 2 ^ 30" by simp
  qed (use assms in simp_all)
  moreover have "sint a = int (unat a) * 2 ^ 0" "sint b = int (unat b + 1) * 2 ^ 0 - 1"
    using b assms(4) by (simp_all add: sint_u32)
  ultimately show ?thesis unfolding C_def by (simp only: front_mask_of.simps of_int_0 add_0)
qed

text \<open>
  The contract of a range summation over dyadic intervals: the result is the exact sum of the
  variables of a cover in which every point of the range lies in exactly one interval, every other
  point in none, and all intervals lie in the domain.
\<close>

definition dyadic_cover_of :: "nat \<Rightarrow> nat \<Rightarrow> nat \<Rightarrow> (nat \<times> nat) list \<Rightarrow> bool" where
  "dyadic_cover_of dom_size a b C \<longleftrightarrow>
     (\<forall>(p, k)\<in>set C. p \<le> dom_size \<and> k < 2 ^ (dom_size - p)) \<and>
     (\<forall>j. length (filter (covering j) C) = of_bool (a \<le> j \<and> j \<le> b))"

lemma dyadic_cover_of_cover:
  assumes "b < 2 ^ dom_size"
  shows "dyadic_cover_of dom_size a b (dyadic_cover (dom_size + 1) 0 a (b + 1))"
proof -
  let ?C = "dyadic_cover (dom_size + 1) 0 a (b + 1)"
  have "p \<le> dom_size \<and> k < 2 ^ (dom_size - p)" if pk: "(p, k) \<in> set ?C" for p k
  proof -
    have p: "p \<le> dom_size" and "(k + 1) * 2 ^ p \<le> 2 ^ dom_size"
      using dyadic_cover_bound [OF pk] assms by simp_all
    moreover have "2 ^ dom_size = 2 ^ (dom_size - p) * (2 :: nat) ^ p"
      using p by (simp flip: power_add)
    ultimately have "(k + 1) * 2 ^ p \<le> 2 ^ (dom_size - p) * 2 ^ p" by simp
    then show ?thesis using p by (simp only: mult_le_cancel2 zero_less_power) simp
  qed
  moreover have "length (filter (covering j) ?C) = of_bool (a \<le> j \<and> j \<le> b)" for j
    using dyadic_cover_count [of "b + 1" "dom_size + 1" j 0 a] assms by (simp add: less_Suc_eq_le)
  ultimately show ?thesis by (auto simp: dyadic_cover_of_def)
qed

text \<open>
  For a range \<open>[a, b]\<close> in the domain \<open>[0, 2^dom_size)\<close>, \<open>dom_size\<close> at most 30, the dyadic
  loop of \<open>Dyadic_Range_EH3\<close> returns (it neither overflows nor runs forever), and its value is the
  exact sum of the EH3 variables of the dyadic intervals of a disjoint cover of \<open>[a, b]\<close>.
\<close>

theorem Dyadic_Range_EH3_correct:
  assumes "dom_size \<le> 30" and "unat a \<le> unat b" and "unat b < 2 ^ dom_size"
  shows "\<exists>C. dyadic_cover_of dom_size (unat a) (unat b) C \<and>
    Dyadic_Range_EH3 a b i0 I1 dom_size = Some (of_int (\<Sum>(p, k)\<leftarrow>C. EH3 i0 I1 (dyadic_id dom_size p k)))"
proof -
  have "\<bar>EH3 i0 I1 w\<bar> \<le> 1" for w using eh3.xi_values [of i0 I1 w] by auto
  then show ?thesis
    using dyadic_range_correct [OF assms(1) _ assms(3,2)] dyadic_cover_of_cover [OF assms(3)]
    unfolding Dyadic_Range_EH3_def dyadic_sum_def by blast
qed

theorem Dyadic_Range_EH3_correct_witness:
  "\<exists>C. dyadic_cover_of 4 3 12 C \<and>
    Dyadic_Range_EH3 3 12 1 77 4 = Some (of_int (\<Sum>(p, k)\<leftarrow>C. EH3 1 77 (dyadic_id 4 p k)))"
  using Dyadic_Range_EH3_correct [of 4 3 12 1 77] by simp

end
