(* ===== verification/Xis.thy ===== *)
theory Xis
  imports Dyadic
begin

text \<open>
  The random-variable classes of \<open>QueryEngine/Sketch/XIS.h\<close>. Each class is a record of its
  fields with its constructors, its assignment operator, \<open>element\<close> and \<open>interval_sum\<close>; the
  abstract class \<open>Xi\<close> is a locale, with the law that \<open>interval_sum\<close> is the sum of the elements of
  the range. A default constructor that leaves its \<open>seeds\<close> uninitialised takes the contents of
  the storage as an argument. \<open>interval_sum\<close> returns an option: \<^const>\<open>None\<close> for a call that does not
  return, or whose behaviour C++ leaves undefined.
\<close>

section \<open>Seeds\<close>

text \<open>All constructors derive their seeds by the same multiply-with-carry steps on \<open>I1\<close> and \<open>I2\<close>.\<close>

definition xi_seed :: "u32 \<Rightarrow> u32 \<Rightarrow> u32" where
  "xi_seed I1 I2 = (push_bit 16 I1 XOR (I2 AND 0xFFFF)) AND 0xFFFFFFFF"

definition xi_next_I1 :: "u32 \<Rightarrow> u32" where
  "xi_next_I1 I1 = 36969 * (I1 AND 0xFFFF) + drop_bit 16 I1"

definition xi_next_I2 :: "u32 \<Rightarrow> u32" where
  "xi_next_I2 I2 = 18000 * (I2 AND 0xFFFF) + drop_bit 16 I2"

section \<open>Summation loops\<close>

text \<open>The loop \<open>for (unsigned int k = alpha; k <= beta; k++) res += ...\<close>, which need not end.\<close>

partial_function (option) interval_loop :: "(u32 \<Rightarrow> int) \<Rightarrow> u32 \<Rightarrow> u32 \<Rightarrow> double \<Rightarrow> double option" where
  "interval_loop xi k beta res =
     (if k \<le> beta then interval_loop xi (k + 1) beta (dadd res (of_int (xi k))) else Some res)"

text \<open>
  The loop of \<open>element\<close> of the dyadic classes. A shift by 32 or more places, which happens in the
  first iteration when \<open>dom_size\<close> is 32 or more, is undefined.
\<close>

function dyadic_element_loop :: "(u32 \<Rightarrow> int) \<Rightarrow> nat \<Rightarrow> nat \<Rightarrow> u32 \<Rightarrow> u32 \<Rightarrow> double \<Rightarrow> double option" where
  "dyadic_element_loop xi dom_size k j front_mask res =
     (if k < dom_size then
        if dom_size \<ge> 32 then None
        else
          let map = front_mask XOR drop_bit k j;
              res = dadd res (of_int (xi map));
              j = (if drop_bit k j AND 1 \<noteq> 0 then j XOR push_bit k 1 else j);
              front_mask = drop_bit 1 front_mask XOR push_bit dom_size 1
          in dyadic_element_loop xi dom_size (k + 1) j front_mask res
      else Some (dadd res (of_int (xi front_mask))))"
  by pat_completeness auto
termination
  by (relation "measure (\<lambda>(xi, dom_size, k, j, front_mask, res). dom_size - k)") auto

declare dyadic_element_loop.simps [simp del]

section \<open>The classes\<close>

record Xi_BCH3 =
  BCH3_seeds :: "u32 \<times> u32"

definition Xi_BCH3_default :: "u32 \<times> u32 \<Rightarrow> Xi_BCH3" where
  "Xi_BCH3_default mem = \<lparr>BCH3_seeds = mem\<rparr>"

definition Xi_BCH3_new :: "u32 \<Rightarrow> u32 \<Rightarrow> Xi_BCH3" where
  "Xi_BCH3_new I1 I2 = \<lparr>BCH3_seeds = (xi_seed I1 I2, xi_seed (xi_next_I1 I1) (xi_next_I2 I2))\<rparr>"

definition Xi_BCH3_assign :: "Xi_BCH3 \<Rightarrow> Xi_BCH3 \<Rightarrow> Xi_BCH3" where
  "Xi_BCH3_assign this me = this\<lparr>BCH3_seeds := BCH3_seeds me\<rparr>"

definition Xi_BCH3_element :: "Xi_BCH3 \<Rightarrow> u32 \<Rightarrow> double" where
  "Xi_BCH3_element this j = (let (i0, i1) = BCH3_seeds this in of_int (BCH3 i0 i1 j))"

definition Xi_BCH3_interval_sum :: "Xi_BCH3 \<Rightarrow> u32 \<Rightarrow> u32 \<Rightarrow> double option" where
  "Xi_BCH3_interval_sum this alpha beta = (let (i0, i1) = BCH3_seeds this in Some (BCH3_Range alpha beta i1 i0))"

record Xi_EH3 =
  EH3_seeds :: "u32 \<times> u32"

definition Xi_EH3_default :: Xi_EH3 where
  "Xi_EH3_default = \<lparr>EH3_seeds = (0, 0)\<rparr>"

definition Xi_EH3_new :: "u32 \<Rightarrow> u32 \<Rightarrow> Xi_EH3" where
  "Xi_EH3_new I1 I2 = \<lparr>EH3_seeds = (xi_seed I1 I2, xi_seed (xi_next_I1 I1) (xi_next_I2 I2))\<rparr>"

definition Xi_EH3_assign :: "Xi_EH3 \<Rightarrow> Xi_EH3 \<Rightarrow> Xi_EH3" where
  "Xi_EH3_assign this me = this\<lparr>EH3_seeds := EH3_seeds me\<rparr>"

definition Xi_EH3_element :: "Xi_EH3 \<Rightarrow> u32 \<Rightarrow> double" where
  "Xi_EH3_element this j = (let (i0, i1) = EH3_seeds this in of_int (EH3 i0 i1 j))"

definition Xi_EH3_interval_sum :: "Xi_EH3 \<Rightarrow> u32 \<Rightarrow> u32 \<Rightarrow> double option" where
  "Xi_EH3_interval_sum this alpha beta = (let (i0, i1) = EH3_seeds this in Some (EH3_Range alpha beta i1 i0))"

record Xi_CW2 =
  CW2_seeds :: "u32 \<times> u32"

definition Xi_CW2_default :: "u32 \<times> u32 \<Rightarrow> Xi_CW2" where
  "Xi_CW2_default mem = \<lparr>CW2_seeds = mem\<rparr>"

definition Xi_CW2_new :: "u32 \<Rightarrow> u32 \<Rightarrow> Xi_CW2" where
  "Xi_CW2_new I1 I2 = \<lparr>CW2_seeds = (xi_seed I1 I2, xi_seed (xi_next_I1 I1) (xi_next_I2 I2))\<rparr>"

definition Xi_CW2_assign :: "Xi_CW2 \<Rightarrow> Xi_CW2 \<Rightarrow> Xi_CW2" where
  "Xi_CW2_assign this me = this\<lparr>CW2_seeds := CW2_seeds me\<rparr>"

definition Xi_CW2_element :: "Xi_CW2 \<Rightarrow> u32 \<Rightarrow> double" where
  "Xi_CW2_element this j = (let (a, b) = CW2_seeds this in of_int (CW2 (ucast a) (ucast b) (ucast j)))"

definition Xi_CW2_interval_sum :: "Xi_CW2 \<Rightarrow> u32 \<Rightarrow> u32 \<Rightarrow> double option" where
  "Xi_CW2_interval_sum this alpha beta =
     (let (a, b) = CW2_seeds this in interval_loop (\<lambda>k. CW2 (ucast a) (ucast b) (ucast k)) alpha beta 0)"

text \<open>B-valued variables: \<open>CW2B\<close> with no bucket at all divides by zero, the \<^const>\<open>None\<close> of \<open>element\<close>.\<close>

record Xi_CW2B =
  CW2B_seeds :: "u32 \<times> u32"
  CW2B_buckets_no :: u32

definition Xi_CW2B_default :: Xi_CW2B where
  "Xi_CW2B_default = \<lparr>CW2B_seeds = (0, 0), CW2B_buckets_no = of_nat RANDOMGENSCHEME_MOD\<rparr>"

definition Xi_CW2B_new :: "u32 \<Rightarrow> u32 \<Rightarrow> u32 \<Rightarrow> Xi_CW2B" where
  "Xi_CW2B_new I1 I2 B =
     \<lparr>CW2B_seeds = (xi_seed I1 I2, xi_seed (xi_next_I1 I1) (xi_next_I2 I2)), CW2B_buckets_no = B\<rparr>"

definition Xi_CW2B_assign :: "Xi_CW2B \<Rightarrow> Xi_CW2B \<Rightarrow> Xi_CW2B" where
  "Xi_CW2B_assign this me = this\<lparr>CW2B_seeds := CW2B_seeds me, CW2B_buckets_no := CW2B_buckets_no me\<rparr>"

definition Xi_CW2B_element :: "Xi_CW2B \<Rightarrow> u32 \<Rightarrow> double option" where
  "Xi_CW2B_element this j =
     (let (a, b) = CW2B_seeds this
      in map_option (\<lambda>w. of_nat (unat w)) (CW2B (ucast a) (ucast b) (ucast j) (CW2B_buckets_no this)))"

definition Xi_CW2B_interval_sum :: "Xi_CW2B \<Rightarrow> u32 \<Rightarrow> u32 \<Rightarrow> double option" where
  "Xi_CW2B_interval_sum this alpha beta = Some (- 1)"

record Xi_CW4 =
  CW4_seeds :: "u32 \<times> u32 \<times> u32 \<times> u32"

text \<open>The four seeds of \<open>Xi_CW4\<close> and \<open>Xi_CW4B\<close>, and the three of the BCH5 classes.\<close>

definition xi_seeds4 :: "u32 \<Rightarrow> u32 \<Rightarrow> u32 \<times> u32 \<times> u32 \<times> u32" where
  "xi_seeds4 I1 I2 =
     (let s0 = xi_seed I1 I2;
          I1 = xi_next_I1 I1; I2 = xi_next_I2 I2; s1 = xi_seed I1 I2;
          I1 = xi_next_I1 I1; I2 = xi_next_I2 I2; s2 = xi_seed I1 I2;
          I1 = xi_next_I1 I1; I2 = xi_next_I2 I2; s3 = xi_seed I1 I2
      in (s0, s1, s2, s3))"

definition xi_seeds3 :: "u32 \<Rightarrow> u32 \<Rightarrow> u32 \<times> u32 \<times> u32" where
  "xi_seeds3 I1 I2 =
     (let s0 = xi_seed I1 I2;
          I1 = xi_next_I1 I1; I2 = xi_next_I2 I2; s1 = xi_seed I1 I2;
          I1 = xi_next_I1 I1; I2 = xi_next_I2 I2; s2 = xi_seed I1 I2
      in (s0, s1, s2))"

definition Xi_CW4_default :: "u32 \<times> u32 \<times> u32 \<times> u32 \<Rightarrow> Xi_CW4" where
  "Xi_CW4_default mem = \<lparr>CW4_seeds = mem\<rparr>"

definition Xi_CW4_new :: "u32 \<Rightarrow> u32 \<Rightarrow> Xi_CW4" where
  "Xi_CW4_new I1 I2 = \<lparr>CW4_seeds = xi_seeds4 I1 I2\<rparr>"

definition Xi_CW4_assign :: "Xi_CW4 \<Rightarrow> Xi_CW4 \<Rightarrow> Xi_CW4" where
  "Xi_CW4_assign this me = this\<lparr>CW4_seeds := CW4_seeds me\<rparr>"

definition Xi_CW4_element :: "Xi_CW4 \<Rightarrow> u32 \<Rightarrow> double" where
  "Xi_CW4_element this j =
     (let (a, b, c, d) = CW4_seeds this in of_int (CW4 (ucast a) (ucast b) (ucast c) (ucast d) (ucast j)))"

definition Xi_CW4_interval_sum :: "Xi_CW4 \<Rightarrow> u32 \<Rightarrow> u32 \<Rightarrow> double option" where
  "Xi_CW4_interval_sum this alpha beta =
     (let (a, b, c, d) = CW4_seeds this
      in interval_loop (\<lambda>k. CW4 (ucast a) (ucast b) (ucast c) (ucast d) (ucast k)) alpha beta 0)"

record Xi_CW4B =
  CW4B_seeds :: "u32 \<times> u32 \<times> u32 \<times> u32"
  CW4B_buckets_no :: u32

definition Xi_CW4B_default :: "u32 \<times> u32 \<times> u32 \<times> u32 \<Rightarrow> Xi_CW4B" where
  "Xi_CW4B_default mem = \<lparr>CW4B_seeds = mem, CW4B_buckets_no = of_nat RANDOMGENSCHEME_MOD\<rparr>"

definition Xi_CW4B_new :: "u32 \<Rightarrow> u32 \<Rightarrow> u32 \<Rightarrow> Xi_CW4B" where
  "Xi_CW4B_new I1 I2 B = \<lparr>CW4B_seeds = xi_seeds4 I1 I2, CW4B_buckets_no = B\<rparr>"

definition Xi_CW4B_assign :: "Xi_CW4B \<Rightarrow> Xi_CW4B \<Rightarrow> Xi_CW4B" where
  "Xi_CW4B_assign this me = this\<lparr>CW4B_seeds := CW4B_seeds me, CW4B_buckets_no := CW4B_buckets_no me\<rparr>"

definition Xi_CW4B_element :: "Xi_CW4B \<Rightarrow> u32 \<Rightarrow> double option" where
  "Xi_CW4B_element this j =
     (let (a, b, c, d) = CW4B_seeds this
      in map_option (\<lambda>w. of_nat (unat w))
           (CW4B (ucast a) (ucast b) (ucast c) (ucast d) (ucast j) (CW4B_buckets_no this)))"

definition Xi_CW4B_interval_sum :: "Xi_CW4B \<Rightarrow> u32 \<Rightarrow> u32 \<Rightarrow> double option" where
  "Xi_CW4B_interval_sum this alpha beta = Some (- 1)"

record Xi_BCH5 =
  BCH5_seeds :: "u32 \<times> u32 \<times> u32"

definition Xi_BCH5_default :: "u32 \<times> u32 \<times> u32 \<Rightarrow> Xi_BCH5" where
  "Xi_BCH5_default mem = \<lparr>BCH5_seeds = mem\<rparr>"

definition Xi_BCH5_new :: "u32 \<Rightarrow> u32 \<Rightarrow> Xi_BCH5" where
  "Xi_BCH5_new I1 I2 = \<lparr>BCH5_seeds = xi_seeds3 I1 I2\<rparr>"

definition Xi_BCH5_assign :: "Xi_BCH5 \<Rightarrow> Xi_BCH5 \<Rightarrow> Xi_BCH5" where
  "Xi_BCH5_assign this me = this\<lparr>BCH5_seeds := BCH5_seeds me\<rparr>"

definition Xi_BCH5_element :: "Xi_BCH5 \<Rightarrow> u32 \<Rightarrow> double" where
  "Xi_BCH5_element this j = (let (i0, i1, i2) = BCH5_seeds this in of_int (BCH5 i0 i1 i2 j))"

definition Xi_BCH5_interval_sum :: "Xi_BCH5 \<Rightarrow> u32 \<Rightarrow> u32 \<Rightarrow> double option" where
  "Xi_BCH5_interval_sum this alpha beta =
     (let (i0, i1, i2) = BCH5_seeds this in interval_loop (BCH5 i0 i1 i2) alpha beta 0)"

text \<open>The dyadic classes; \<open>interval_sum\<close> passes \<open>dom_size\<close> as an \<open>int\<close>.\<close>

record Xi_Dyadic_Map_EH3 =
  DEH3_seeds :: "u32 \<times> u32"
  DEH3_dom_size :: u32

definition Xi_Dyadic_Map_EH3_default :: "u32 \<times> u32 \<Rightarrow> Xi_Dyadic_Map_EH3" where
  "Xi_Dyadic_Map_EH3_default mem = \<lparr>DEH3_seeds = mem, DEH3_dom_size = 0\<rparr>"

definition Xi_Dyadic_Map_EH3_new :: "u32 \<Rightarrow> u32 \<Rightarrow> u32 \<Rightarrow> Xi_Dyadic_Map_EH3" where
  "Xi_Dyadic_Map_EH3_new Dom_size I1 I2 =
     \<lparr>DEH3_seeds = (xi_seed I1 I2, xi_seed (xi_next_I1 I1) (xi_next_I2 I2)), DEH3_dom_size = Dom_size\<rparr>"

definition Xi_Dyadic_Map_EH3_assign :: "Xi_Dyadic_Map_EH3 \<Rightarrow> Xi_Dyadic_Map_EH3 \<Rightarrow> Xi_Dyadic_Map_EH3" where
  "Xi_Dyadic_Map_EH3_assign this me = this\<lparr>DEH3_seeds := DEH3_seeds me, DEH3_dom_size := DEH3_dom_size me\<rparr>"

definition Xi_Dyadic_Map_EH3_element :: "Xi_Dyadic_Map_EH3 \<Rightarrow> u32 \<Rightarrow> double option" where
  "Xi_Dyadic_Map_EH3_element this j =
     (let (i0, i1) = DEH3_seeds this
      in dyadic_element_loop (EH3 i0 i1) (unat (DEH3_dom_size this)) 0 j 0 0)"

definition Xi_Dyadic_Map_EH3_interval_sum :: "Xi_Dyadic_Map_EH3 \<Rightarrow> u32 \<Rightarrow> u32 \<Rightarrow> double option" where
  "Xi_Dyadic_Map_EH3_interval_sum this alpha beta =
     (let (i0, i1) = DEH3_seeds this
      in Dyadic_Range_EH3 alpha beta i0 i1 (unat (DEH3_dom_size this)))"

record Xi_Dyadic_Map_BCH5 =
  DBCH5_seeds :: "u32 \<times> u32 \<times> u32"
  DBCH5_dom_size :: u32

definition Xi_Dyadic_Map_BCH5_default :: "u32 \<times> u32 \<times> u32 \<Rightarrow> Xi_Dyadic_Map_BCH5" where
  "Xi_Dyadic_Map_BCH5_default mem = \<lparr>DBCH5_seeds = mem, DBCH5_dom_size = 0\<rparr>"

definition Xi_Dyadic_Map_BCH5_new :: "u32 \<Rightarrow> u32 \<Rightarrow> u32 \<Rightarrow> Xi_Dyadic_Map_BCH5" where
  "Xi_Dyadic_Map_BCH5_new Dom_size I1 I2 = \<lparr>DBCH5_seeds = xi_seeds3 I1 I2, DBCH5_dom_size = Dom_size\<rparr>"

definition Xi_Dyadic_Map_BCH5_assign :: "Xi_Dyadic_Map_BCH5 \<Rightarrow> Xi_Dyadic_Map_BCH5 \<Rightarrow> Xi_Dyadic_Map_BCH5" where
  "Xi_Dyadic_Map_BCH5_assign this me =
     this\<lparr>DBCH5_seeds := DBCH5_seeds me, DBCH5_dom_size := DBCH5_dom_size me\<rparr>"

definition Xi_Dyadic_Map_BCH5_element :: "Xi_Dyadic_Map_BCH5 \<Rightarrow> u32 \<Rightarrow> double option" where
  "Xi_Dyadic_Map_BCH5_element this j =
     (let (i0, i1, i2) = DBCH5_seeds this
      in dyadic_element_loop (BCH5 i0 i1 i2) (unat (DBCH5_dom_size this)) 0 j 0 0)"

definition Xi_Dyadic_Map_BCH5_interval_sum :: "Xi_Dyadic_Map_BCH5 \<Rightarrow> u32 \<Rightarrow> u32 \<Rightarrow> double option" where
  "Xi_Dyadic_Map_BCH5_interval_sum this alpha beta =
     (let (i0, i1, i2) = DBCH5_seeds this
      in Dyadic_Range_BCH5 alpha beta i0 i1 i2 (unat (DBCH5_dom_size this)))"

section \<open>The summation loop over a range\<close>

lemma interval_loop_diverges:
  assumes "interval_loop xi k beta res = Some r"
  shows "beta \<noteq> - 1"
  using assms
proof (rule interval_loop.raw_induct [where P = "\<lambda>xi k beta res r. beta \<noteq> - 1", rotated])
  fix rec :: "(u32 \<Rightarrow> int) \<Rightarrow> u32 \<Rightarrow> u32 \<Rightarrow> double \<Rightarrow> double option" and xi k beta res r
  assume IH: "\<And>xi k beta res y. rec xi k beta res = Some y \<Longrightarrow> beta \<noteq> - 1"
    and step: "(if k \<le> beta then rec xi (k + 1) beta (dadd res (of_int (xi k))) else Some res) = Some r"
  show "beta \<noteq> - 1" using IH [of xi "k + 1" beta] step by (cases "k \<le> beta") auto
qed

lemma max_u32_eq: "(4294967295 :: u32) = - 1"
  by simp

lemma max_u32: "unat (- 1 :: u32) = 4294967295"
proof -
  have "(- 1 :: u32) = 4294967295" by simp
  then show ?thesis by (simp only:) simp
qed

lemma not_max_u32: "(beta :: u32) \<noteq> - 1 \<longleftrightarrow> unat beta < 4294967295"
proof -
  have "beta = - 1 \<longleftrightarrow> unat beta = 4294967295" by (simp add: word_unat_eq_iff max_u32)
  then show ?thesis using unat_less_u32 [of beta] by linarith
qed

lemma range_count_u32: "int (unat (beta :: u32) + 1 - unat (alpha :: u32)) \<le> 2 ^ 53"
proof -
  have "unat beta + 1 - unat alpha \<le> 4294967296" using unat_less_u32 [of beta] by linarith
  also have "\<dots> \<le> 2 ^ 53" by simp
  finally have "unat beta + 1 - unat alpha \<le> 2 ^ 53" .
  then have "int (unat beta + 1 - unat alpha) \<le> int (2 ^ 53)" by (simp only: of_nat_le_iff)
  then show ?thesis by simp
qed

lemma interval_loop_correct:
  assumes "beta \<noteq> - 1" and "\<And>w. \<bar>xi w\<bar> \<le> 1"
  shows "\<bar>s\<bar> + int (unat beta + 1 - unat k) \<le> 2 ^ 53 \<Longrightarrow>
    interval_loop xi k beta (of_int s) = Some (of_int (s + (\<Sum>j=unat k..unat beta. xi (of_nat j))))"
proof (induction "unat beta + 1 - unat k" arbitrary: k s)
  case 0
  then show ?case by (subst interval_loop.simps) (simp add: word_le_nat_alt)
next
  case (Suc d)
  have le: "unat k \<le> unat beta" using Suc.hyps(2) by simp
  have k1: "unat (k + 1) = unat k + 1"
    using le assms(1) by (intro unat_Suc_u32) (simp add: not_max_u32)
  have b: "\<bar>s + xi k\<bar> + int (unat beta + 1 - unat (k + 1)) \<le> 2 ^ 53"
    using assms(2) [of k] Suc.prems Suc.hyps(2) unfolding k1 by simp
  have "interval_loop xi k beta (of_int s) = interval_loop xi (k + 1) beta (of_int (s + xi k))"
    using le b by (subst interval_loop.simps) (simp add: word_le_nat_alt dadd_of_int del: of_int_add)
  also have "\<dots> = Some (of_int (s + xi k + (\<Sum>j=unat (k + 1)..unat beta. xi (of_nat j))))"
    using Suc.hyps(2) k1 b by (intro Suc.hyps(1)) simp_all
  also have "s + xi k + (\<Sum>j=unat (k + 1)..unat beta. xi (of_nat j)) = s + (\<Sum>j=unat k..unat beta. xi (of_nat j))"
    unfolding k1 using le by (simp add: sum.atLeast_Suc_atMost)
  finally show ?case .
qed

lemma interval_loop_value:
  assumes "\<And>w. \<bar>xi w\<bar> \<le> 1"
  shows "interval_loop xi alpha beta 0 =
    (if beta = - 1 then None else Some (of_int (\<Sum>j=unat alpha..unat beta. xi (of_nat j))))"
proof (cases "beta = - 1")
  case True
  then show ?thesis
    using interval_loop_diverges [of xi alpha beta 0] by (cases "interval_loop xi alpha beta 0") auto
next
  case False
  show ?thesis using interval_loop_correct [OF False assms, of 0 alpha] range_count_u32 [of beta alpha] False by simp
qed

section \<open>The interface of the plus/minus one classes\<close>

locale Xi =
  fixes element :: "'x \<Rightarrow> u32 \<Rightarrow> double"
    and interval_sum :: "'x \<Rightarrow> u32 \<Rightarrow> u32 \<Rightarrow> double option"
    and xi :: "'x \<Rightarrow> u32 \<Rightarrow> int"
    and summable :: "'x \<Rightarrow> u32 \<Rightarrow> bool"
  assumes element: "element x j = of_int (xi x j)"
    and pm1_values: "xi x j = 1 \<or> xi x j = - 1"
    and interval_sum: "beta \<noteq> - 1 \<Longrightarrow> unat alpha \<le> unat beta + 1 \<Longrightarrow> summable x beta \<Longrightarrow>
      interval_sum x alpha beta = Some (of_int (\<Sum>j=unat alpha..unat beta. xi x (of_nat j)))"
    and summable_mono: "summable x beta \<Longrightarrow> unat beta' \<le> unat beta \<Longrightarrow> summable x beta'"
begin

lemma abs_xi: "\<bar>xi x j\<bar> = 1"
  using pm1_values [of x j] by auto

lemma interval_sum_single:
  assumes "j \<noteq> - 1" and "summable x j"
  shows "interval_sum x j j = Some (element x j)"
  using interval_sum [OF assms(1) _ assms(2), of j] by (simp add: element)

lemma interval_sum_bound:
  assumes "beta \<noteq> - 1" and "unat alpha \<le> unat beta + 1" and "summable x beta"
  shows "\<exists>v. interval_sum x alpha beta = Some (of_int v) \<and> \<bar>v\<bar> \<le> int (unat beta + 1 - unat alpha)"
proof -
  have "\<bar>\<Sum>j=unat alpha..unat beta. xi x (of_nat j)\<bar> \<le> (\<Sum>j=unat alpha..unat beta. 1)"
    by (rule order_trans [OF sum_abs]) (simp add: abs_xi)
  then have "\<bar>\<Sum>j=unat alpha..unat beta. xi x (of_nat j)\<bar> \<le> int (unat beta + 1 - unat alpha)" by simp
  then show ?thesis using interval_sum [OF assms] by blast
qed

lemma interval_sum_split:
  assumes "beta \<noteq> - 1" and "unat alpha \<le> unat mid + 1" and "unat mid \<le> unat beta" and "summable x beta"
  shows "\<exists>l r. interval_sum x alpha mid = Some l \<and> interval_sum x (mid + 1) beta = Some r \<and>
    interval_sum x alpha beta = Some (dadd l r)"
proof -
  let ?f = "\<lambda>j. xi x (of_nat j)"
  have mid: "mid \<noteq> - 1" and mid1: "unat (mid + 1) = unat mid + 1"
    using assms(1,3) by (simp_all add: not_max_u32 unat_Suc_u32)
  have split: "(\<Sum>j=unat alpha..unat beta. ?f j) =
      (\<Sum>j=unat alpha..unat mid. ?f j) + (\<Sum>j=unat (mid + 1)..unat beta. ?f j)"
    unfolding mid1 using assms(2,3) by (metis sum.ub_add_nat le_add_diff_inverse)
  have "\<bar>\<Sum>j=unat alpha..unat beta. ?f j\<bar> \<le> (\<Sum>j=unat alpha..unat beta. 1)"
    by (rule order_trans [OF sum_abs]) (simp add: abs_xi)
  also have "\<dots> \<le> 2 ^ 53" using range_count_u32 [of beta alpha] by simp
  finally have "dadd (of_int (\<Sum>j=unat alpha..unat mid. ?f j)) (of_int (\<Sum>j=unat (mid + 1)..unat beta. ?f j)) =
      of_int (\<Sum>j=unat alpha..unat beta. ?f j)"
    unfolding split by (rule dadd_of_int)
  then show ?thesis
    using interval_sum [OF mid assms(2) summable_mono [OF assms(4,3)]]
      interval_sum [of beta "mid + 1" x] interval_sum [of beta alpha x] assms mid1 by simp
qed

end

lemma pm1_cases: "pm1 w = 1 \<or> pm1 w = - 1"
  by (simp add: pm1_def)

lemma pm1_scheme_cases [simp]:
  "BCH5 i0 i1 i2 w = 1 \<or> BCH5 i0 i1 i2 w = - 1" "CW2 a b x = 1 \<or> CW2 a b x = - 1"
  "CW4 a b c d x = 1 \<or> CW4 a b c d x = - 1"
  by (simp_all add: BCH5_def CW2_def CW4_def Let_def pm1_cases)

lemma abs_le_1I: "v = 1 \<or> v = (- 1 :: int) \<Longrightarrow> \<bar>v\<bar> \<le> 1"
  by auto

definition EH3_xi :: "Xi_EH3 \<Rightarrow> u32 \<Rightarrow> int" where
  "EH3_xi x j = EH3 (fst (EH3_seeds x)) (snd (EH3_seeds x)) j"

definition BCH3_xi :: "Xi_BCH3 \<Rightarrow> u32 \<Rightarrow> int" where
  "BCH3_xi x j = BCH3 (fst (BCH3_seeds x)) (snd (BCH3_seeds x)) j"

definition CW2_xi :: "Xi_CW2 \<Rightarrow> u32 \<Rightarrow> int" where
  "CW2_xi x j = (let (a, b) = CW2_seeds x in CW2 (ucast a) (ucast b) (ucast j))"

definition CW4_xi :: "Xi_CW4 \<Rightarrow> u32 \<Rightarrow> int" where
  "CW4_xi x j = (let (a, b, c, d) = CW4_seeds x in CW4 (ucast a) (ucast b) (ucast c) (ucast d) (ucast j))"

definition BCH5_xi :: "Xi_BCH5 \<Rightarrow> u32 \<Rightarrow> int" where
  "BCH5_xi x j = (let (i0, i1, i2) = BCH5_seeds x in BCH5 i0 i1 i2 j)"

interpretation Xi_EH3: Xi Xi_EH3_element Xi_EH3_interval_sum EH3_xi "\<lambda>x beta. True"
proof
  fix x :: Xi_EH3 and alpha beta j :: u32
  show "Xi_EH3_element x j = of_int (EH3_xi x j)" by (simp add: Xi_EH3_element_def EH3_xi_def case_prod_beta)
  show "EH3_xi x j = 1 \<or> EH3_xi x j = - 1" unfolding EH3_xi_def by (rule eh3.xi_values)
  assume "beta \<noteq> - 1" "unat alpha \<le> unat beta + 1"
  then show "Xi_EH3_interval_sum x alpha beta = Some (of_int (\<Sum>j=unat alpha..unat beta. EH3_xi x (of_nat j)))"
    unfolding Xi_EH3_interval_sum_def EH3_xi_def
    by (simp only: Let_def case_prod_beta EH3_Range_sum not_max_u32)
qed simp_all

interpretation Xi_BCH3: Xi Xi_BCH3_element Xi_BCH3_interval_sum BCH3_xi
  "\<lambda>x beta. take_bit 31 (snd (BCH3_seeds x)) \<noteq> 0 \<or> unat beta < 2147483647"
proof
  fix x :: Xi_BCH3 and alpha beta j :: u32
  show "Xi_BCH3_element x j = of_int (BCH3_xi x j)" by (simp add: Xi_BCH3_element_def BCH3_xi_def case_prod_beta)
  show "BCH3_xi x j = 1 \<or> BCH3_xi x j = - 1" unfolding BCH3_xi_def by (rule bch3.xi_values)
  assume "beta \<noteq> - 1" "unat alpha \<le> unat beta + 1"
    "take_bit 31 (snd (BCH3_seeds x)) \<noteq> 0 \<or> unat beta < 2147483647"
  then show "Xi_BCH3_interval_sum x alpha beta = Some (of_int (\<Sum>j=unat alpha..unat beta. BCH3_xi x (of_nat j)))"
    unfolding Xi_BCH3_interval_sum_def BCH3_xi_def
    by (simp only: Let_def case_prod_beta BCH3_Range_sum not_max_u32)
qed auto

lemma interval_loop_pm1:
  assumes "\<And>w. xi w = 1 \<or> xi w = - 1"
  shows "interval_loop xi alpha beta 0 =
    (if beta = - 1 then None else Some (of_int (\<Sum>j=unat alpha..unat beta. xi (of_nat j))))"
  using assms by (intro interval_loop_value abs_le_1I)

lemma Xi_loop_interval_sum:
  "Xi_CW2_interval_sum x2 alpha beta =
     (if beta = - 1 then None else Some (of_int (\<Sum>j=unat alpha..unat beta. CW2_xi x2 (of_nat j))))"
  "Xi_CW4_interval_sum x4 alpha beta =
     (if beta = - 1 then None else Some (of_int (\<Sum>j=unat alpha..unat beta. CW4_xi x4 (of_nat j))))"
  "Xi_BCH5_interval_sum x5 alpha beta =
     (if beta = - 1 then None else Some (of_int (\<Sum>j=unat alpha..unat beta. BCH5_xi x5 (of_nat j))))"
  unfolding Xi_CW2_interval_sum_def Xi_CW4_interval_sum_def Xi_BCH5_interval_sum_def Let_def case_prod_beta
    CW2_xi_def CW4_xi_def BCH5_xi_def
  by (rule interval_loop_pm1; simp)+

interpretation Xi_CW2: Xi Xi_CW2_element Xi_CW2_interval_sum CW2_xi "\<lambda>x beta. True"
  by unfold_locales (simp_all add: Xi_loop_interval_sum Xi_CW2_element_def CW2_xi_def case_prod_beta)

interpretation Xi_CW4: Xi Xi_CW4_element Xi_CW4_interval_sum CW4_xi "\<lambda>x beta. True"
  by unfold_locales (simp_all add: Xi_loop_interval_sum Xi_CW4_element_def CW4_xi_def case_prod_beta)

interpretation Xi_BCH5: Xi Xi_BCH5_element Xi_BCH5_interval_sum BCH5_xi "\<lambda>x beta. True"
  by unfold_locales (simp_all add: Xi_loop_interval_sum Xi_BCH5_element_def BCH5_xi_def case_prod_beta)

text \<open>
  C37. \<open>interval_sum\<close> of the 4-wise independent class adds up the elements of the range one by one:
  it returns their exact sum for every range, except that it never returns when the range ends in
  the largest \<open>unsigned int\<close>, where the loop condition \<open>k <= beta\<close> cannot fail.
\<close>

theorem Xi_CW4_interval_sum_value:
  "Xi_CW4_interval_sum x alpha beta =
     (if beta = 4294967295 then None
      else Some (\<Sum>j=unat alpha..unat beta. Xi_CW4_element x (of_nat j)))"
  using Xi_loop_interval_sum(2) [of x alpha beta] by (simp add: Xi_CW4.element)

text \<open>
  Range sums of the EH3 class compose: the sum over a range is the double sum of the sums over
  its two halves, whatever the split point.
\<close>

theorem Xi_EH3_interval_sum_split:
  assumes "beta \<noteq> 4294967295" and "unat alpha \<le> unat mid + 1" and "unat mid \<le> unat beta"
  shows "\<exists>l r. Xi_EH3_interval_sum x alpha mid = Some l \<and> Xi_EH3_interval_sum x (mid + 1) beta = Some r \<and>
    Xi_EH3_interval_sum x alpha beta = Some (dadd l r)"
  using Xi_EH3.interval_sum_split [of beta alpha mid x] assms by (simp only: max_u32_eq not_False_eq_True simp_thms)

theorem Xi_EH3_interval_sum_split_witness:
  "\<exists>l r. Xi_EH3_interval_sum (Xi_EH3_new 17 42) 3 7 = Some l \<and> Xi_EH3_interval_sum (Xi_EH3_new 17 42) 8 20 = Some r \<and>
    Xi_EH3_interval_sum (Xi_EH3_new 17 42) 3 20 = Some (dadd l r)"
  using Xi_EH3_interval_sum_split [of 20 3 7 "Xi_EH3_new 17 42"] by simp

section \<open>The dyadic classes\<close>

definition dyadic_ids :: "nat \<Rightarrow> nat \<Rightarrow> (nat \<times> nat) list" where
  "dyadic_ids dom_size j = map (\<lambda>p. (p, j div 2 ^ p)) [0..<dom_size + 1]"

lemma drop_bit_u32: "drop_bit k (j :: u32) = of_nat (unat j div 2 ^ k)"
proof -
  have "unat (drop_bit k j) = drop_bit k (unat j)" by (rule unat_drop_bit_eq)
  then have "unat (drop_bit k j) = unat j div 2 ^ k" by (simp only: drop_bit_eq_div)
  then show ?thesis by (metis of_nat_unat ucast_id)
qed

lemma dyadic_element_loop_correct:
  assumes "dom_size < 32" and "\<And>w. \<bar>xi w\<bar> \<le> 1" and "unat j0 < 2 ^ dom_size"
  shows "k \<le> dom_size \<Longrightarrow> drop_bit k j = drop_bit k j0 \<Longrightarrow> \<bar>s\<bar> + int (dom_size - k) + 1 \<le> 2 ^ 53 \<Longrightarrow>
    dyadic_element_loop xi dom_size k j (front_mask_of dom_size k) (of_int s) =
      Some (of_int (s + (\<Sum>p\<leftarrow>[k..<dom_size + 1]. xi (dyadic_id dom_size p (unat j0 div 2 ^ p)))))"
proof (induction "dom_size - k" arbitrary: k j s)
  case 0
  then have "dadd (of_int s) (of_int (xi (front_mask_of dom_size k))) = of_int (s + xi (front_mask_of dom_size k))"
    using assms(2) [of "front_mask_of dom_size k"] by (intro dadd_of_int) simp
  moreover have "unat j0 div 2 ^ k = 0" "k = dom_size" using 0 assms(3) by simp_all
  ultimately show ?case by (subst dyadic_element_loop.simps) (simp add: dyadic_id_def)
next
  case (Suc d)
  let ?w = "dyadic_id dom_size k (unat j0 div 2 ^ k)"
  define j' where "j' = (if drop_bit k j AND 1 \<noteq> 0 then j XOR push_bit k 1 else j)"
  have k: "k < dom_size" using Suc.hyps(2) by simp
  have "drop_bit (k + 1) j' = drop_bit 1 (drop_bit k j)"
    by (rule bit_word_eqI) (auto simp: j'_def bit_drop_bit_eq bit_xor_iff bit_single_u32 simp del: push_bit_of_1)
  then have j': "drop_bit (k + 1) j' = drop_bit (k + 1) j0" unfolding Suc.prems(2) by simp
  have w: "front_mask_of dom_size k XOR drop_bit k j = ?w"
    by (simp only: Suc.prems(2) drop_bit_u32 [of k j0] dyadic_id_def)
  have add: "dadd (of_int s) (of_int (xi ?w)) = of_int (s + xi ?w)"
    using assms(2) [of ?w] Suc.prems(3) by (intro dadd_of_int) simp
  have b: "\<bar>s + xi ?w\<bar> + int (dom_size - (k + 1)) + 1 \<le> 2 ^ 53"
    using assms(2) [of ?w] Suc.prems(3) Suc.hyps(2) by simp
  have "dyadic_element_loop xi dom_size k j (front_mask_of dom_size k) (of_int s) =
      dyadic_element_loop xi dom_size (k + 1) j' (front_mask_of dom_size (k + 1)) (of_int (s + xi ?w))"
    using k assms(1) add
    by (subst dyadic_element_loop.simps) (simp add: Let_def j'_def w del: push_bit_of_1 of_int_add)
  also have "\<dots> = Some (of_int (s + xi ?w + (\<Sum>p\<leftarrow>[k + 1..<dom_size + 1]. xi (dyadic_id dom_size p (unat j0 div 2 ^ p)))))"
    using Suc.hyps(2) k j' b by (intro Suc.hyps(1)) simp_all
  finally show ?case using k by (simp add: upt_conv_Cons add.assoc)
qed

lemma dyadic_ids_covering: "fst c \<le> dom_size \<Longrightarrow> c \<in> set (dyadic_ids dom_size j) \<longleftrightarrow> covering j c"
  by (cases c) (auto simp: dyadic_ids_def covering_def less_Suc_eq_le simp del: upt_Suc)

lemma dyadic_element_value:
  assumes "dom_size < 32" and "\<And>w. \<bar>xi w\<bar> \<le> 1" and "unat j < 2 ^ dom_size"
  shows "dyadic_element_loop xi dom_size 0 j 0 0 = Some (of_int (dyadic_sum xi dom_size (dyadic_ids dom_size (unat j))))"
  using dyadic_element_loop_correct [OF assms, of 0 j 0] assms(1)
  by (simp add: dyadic_sum_def dyadic_ids_def o_def)



end
