(* ===== verification/SketchStat.thy ===== *)
theory SketchStat
  imports Binary64 "HOL-Library.Multiset"
begin

text \<open>
  The statistics of \<open>QueryEngine/Sketch/SketchUtil.cpp\<close>: \<open>Average\<close>, \<open>Median\<close>, which sorts a copy
  of its argument by bubble sort, and \<open>Min\<close>. An array is the list of its elements with the count
  \<open>_n\<close> passed beside it; \<^const>\<open>None\<close> is a read outside the array, a negative allocation or, for
  \<open>Average\<close>, the division \<open>0 / 0\<close>. The repeat-until-no-swap loop of the bubble sort is a
  \<open>partial_function\<close>; that it ends is a theorem.
\<close>

section \<open>Definitions\<close>

definition array_read :: "double list \<Rightarrow> int \<Rightarrow> double option" where
  "array_read xs i = (if 0 \<le> i \<and> i < int (length xs) then Some (xs ! nat i) else None)"

fun Average_loop :: "double list \<Rightarrow> nat \<Rightarrow> nat \<Rightarrow> double \<Rightarrow> double option" where
  "Average_loop x 0 i sm = Some sm"
| "Average_loop x (Suc k) i sm = do { v \<leftarrow> array_read x (int i); Average_loop x k (i + 1) (dadd sm v) }"

definition Average :: "double list \<Rightarrow> int \<Rightarrow> double option" where
  "Average x n = do { sm \<leftarrow> Average_loop x (nat n) 0 0; if n = 0 then None else Some (ddiv sm (of_int n)) }"

function bubble_pass :: "nat \<Rightarrow> nat \<Rightarrow> double list \<Rightarrow> bool \<Rightarrow> double list \<times> bool" where
  "bubble_pass n i X rpt =
     (if i < n - 1 then
        if X ! i > X ! (i + 1) then
          bubble_pass n (i + 1) (X[i := X ! (i + 1), i + 1 := X ! i]) True
        else bubble_pass n (i + 1) X rpt
      else (X, rpt))"
  by pat_completeness auto
termination
  by (relation "measure (\<lambda>(n, i, X, rpt). n - i)") auto

declare bubble_pass.simps [simp del]

partial_function (option) bubble_sort :: "nat \<Rightarrow> double list \<Rightarrow> double list option" where
  "bubble_sort n X =
     (let (X, rpt) = bubble_pass n 0 X False in if rpt then bubble_sort n X else Some X)"

definition Median :: "double list \<Rightarrow> int \<Rightarrow> double option" where
  "Median x n =
     (if n = 1 then array_read x 0
      else if n = 2 then do { a \<leftarrow> array_read x 0; b \<leftarrow> array_read x 1; Some (ddiv (dadd a b) 2) }
      else if n < 0 \<or> int (length x) < n then None
      else do {
        X \<leftarrow> bubble_sort (nat n) (take (nat n) x);
        if n mod 2 = 0 then do {
          a \<leftarrow> array_read X (n div 2 - 1);
          b \<leftarrow> array_read X (n div 2);
          Some (ddiv (dadd a b) 2)
        }
        else array_read X (n div 2)
      })"

fun Min_loop :: "double list \<Rightarrow> nat \<Rightarrow> nat \<Rightarrow> double \<Rightarrow> double option" where
  "Min_loop x 0 i m = Some m"
| "Min_loop x (Suc k) i m =
     do { v \<leftarrow> array_read x (int i); Min_loop x k (i + 1) (if v < m then v else m) }"

definition Min_array :: "double list \<Rightarrow> int \<Rightarrow> double option" where
  "Min_array x n =
     (if n = 1 then array_read x 0
      else if n = 2 then do { a \<leftarrow> array_read x 0; b \<leftarrow> array_read x 1; Some (if a \<le> b then a else b) }
      else do { m \<leftarrow> array_read x 0; Min_loop x (nat (n - 1)) 1 m })"

lemma array_read_int: "i < length xs \<Longrightarrow> array_read xs (int i) = Some (xs ! i)"
  by (simp add: array_read_def)

section \<open>The bubble sort\<close>

text \<open>One pass on lists, and the inversions it removes.\<close>

fun bpass :: "'a :: linorder list \<Rightarrow> 'a list" where
  "bpass (x # y # zs) = (if x > y then y # bpass (x # zs) else x # bpass (y # zs))"
| "bpass xs = xs"

fun unordered :: "'a :: linorder list \<Rightarrow> bool" where
  "unordered (x # y # zs) \<longleftrightarrow> x > y \<or> unordered (y # zs)"
| "unordered xs \<longleftrightarrow> False"

primrec inversions :: "'a :: linorder list \<Rightarrow> nat" where
  "inversions [] = 0"
| "inversions (x # xs) = size (filter_mset (\<lambda>y. y < x) (mset xs)) + inversions xs"

lemma mset_bpass [simp]: "mset (bpass xs) = mset xs"
  by (induction xs rule: bpass.induct) auto

lemma length_bpass [simp]: "length (bpass xs) = length xs"
  using mset_bpass [of xs] mset_eq_length by blast

lemma unordered_iff: "unordered xs \<longleftrightarrow> \<not> sorted xs"
proof (induction xs rule: unordered.induct)
  case (1 x y zs)
  show ?case unfolding unordered.simps sorted2 1 by (simp only: not_le de_Morgan_conj)
qed simp_all

lemma inversions_bpass_le: "inversions (bpass xs) \<le> inversions xs"
  by (induction xs rule: bpass.induct) auto

lemma inversions_bpass_less: "unordered xs \<Longrightarrow> inversions (bpass xs) < inversions xs"
proof (induction xs rule: bpass.induct)
  case (1 x y zs)
  then show ?case using inversions_bpass_le [of "x # zs"] by (auto simp: less_Suc_eq_le)
qed simp_all

lemma bpass_drop:
  assumes "i + 1 < length X"
  shows "drop i X = X ! i # X ! (i + 1) # drop (i + 2) X"
  using assms by (metis Cons_nth_drop_Suc Suc_eq_plus1 Suc_lessD add_2_eq_Suc' add_Suc_right)

lemma bubble_pass_eq:
  "i \<le> length X \<Longrightarrow> bubble_pass (length X) i X rpt = (take i X @ bpass (drop i X), rpt \<or> unordered (drop i X))"
proof (induction "length X - i" arbitrary: i X rpt)
  case 0
  then have "\<not> i < length X - 1" by simp
  then show ?case using 0 by (subst bubble_pass.simps) simp
next
  case (Suc d)
  show ?case
  proof (cases "i + 1 < length X")
    case False
    then have "length (drop i X) = 1" using Suc.hyps(2) by simp
    then obtain x where "drop i X = [x]" by (metis One_nat_def length_0_conv length_Suc_conv)
    then have "take i X @ bpass (drop i X) = X" "\<not> unordered (drop i X)"
      using append_take_drop_id [of i X] by simp_all
    moreover have "\<not> i < length X - 1" using False by simp
    ultimately show ?thesis by (subst bubble_pass.simps) simp
  next
    case True
    note d = bpass_drop [OF True]
    have lt: "i < length X - 1" using True by simp
    show ?thesis
    proof (cases "X ! i > X ! (i + 1)")
      case swap: True
      let ?Y = "X[i := X ! (i + 1), i + 1 := X ! i]"
      have Y: "take (i + 1) ?Y = take i X @ [X ! (i + 1)]" "drop (i + 1) ?Y = X ! i # drop (i + 2) X" "length ?Y = length X"
        using True by (simp_all add: list_eq_iff_nth_eq nth_append nth_list_update nth_Cons split: nat.split)
      have "bubble_pass (length X) i X rpt = bubble_pass (length ?Y) (i + 1) ?Y True"
        using lt swap by (subst bubble_pass.simps) simp
      also have "\<dots> = (take (i + 1) ?Y @ bpass (drop (i + 1) ?Y), True \<or> unordered (drop (i + 1) ?Y))"
        using Suc.hyps(2) True by (intro Suc.hyps(1)) simp_all
      finally show ?thesis unfolding Y d using swap by simp
    next
      case False
      have "bubble_pass (length X) i X rpt = bubble_pass (length X) (i + 1) X rpt"
        using lt False by (subst bubble_pass.simps) simp
      also have "\<dots> = (take (i + 1) X @ bpass (drop (i + 1) X), rpt \<or> unordered (drop (i + 1) X))"
        using Suc.hyps(2) True by (intro Suc.hyps(1)) simp_all
      finally show ?thesis
        using False True d by (simp add: take_Suc_conv_app_nth) (simp add: Cons_nth_drop_Suc [symmetric])
    qed
  qed
qed

lemma bubble_sort_sorts: "length X = n \<Longrightarrow> bubble_sort n X = Some (sort X)"
proof (induction "inversions X" arbitrary: X rule: less_induct)
  case less
  have pass: "bubble_pass n 0 X False = (bpass X, unordered X)"
    using bubble_pass_eq [of 0 X False] less.prems by simp
  show ?case
  proof (cases "unordered X")
    case True
    then have "bubble_sort n (bpass X) = Some (sort (bpass X))"
      using less by (simp add: inversions_bpass_less)
    moreover have "sort (bpass X) = sort X" by (rule properties_for_sort) simp_all
    ultimately show ?thesis using True by (subst bubble_sort.simps) (simp add: pass)
  next
    case False
    then have "sorted X" by (simp add: unordered_iff)
    then have "bpass X = X"
    proof (induction X rule: bpass.induct)
      case (1 x y zs)
      then show ?case by (auto simp: not_less)
    qed simp_all
    then show ?thesis using False \<open>sorted X\<close> by (subst bubble_sort.simps) (simp add: pass sorted_sort_id)
  qed
qed

section \<open>Properties\<close>

lemma Median_eq:
  assumes "x \<noteq> []"
  shows "Median x (int (length x)) = Some
    (let X = sort x; n = length x
     in if even n then ddiv (dadd (X ! (n div 2 - 1)) (X ! (n div 2))) 2 else X ! (n div 2))"
proof -
  consider a where "x = [a]" | a b where "x = [a, b]" | a b c ys where "x = a # b # c # ys"
    using assms by (metis neq_Nil_conv)
  then show ?thesis
  proof cases
    case 1
    then show ?thesis by (simp add: Median_def array_read_def)
  next
    case 2
    then show ?thesis using dadd_commute [of a b] by (simp add: Median_def array_read_def insort_key.simps numeral_2_eq_2)
  next
    case 3
    define n where "n = length x"
    have n: "3 \<le> n" using 3 by (simp add: n_def)
    have par: "int n mod 2 = 0 \<longleftrightarrow> even n" by presburger
    have "Median x (int n) = (if even n then do {
          a \<leftarrow> array_read (sort x) (int n div 2 - 1); b \<leftarrow> array_read (sort x) (int n div 2); Some (ddiv (dadd a b) 2) }
        else array_read (sort x) (int n div 2))"
      using bubble_sort_sorts [OF n_def [symmetric]] n unfolding Median_def par by (simp add: n_def)
    moreover have "array_read (sort x) (int n div 2) = Some (sort x ! (n div 2))"
      using n by (simp add: array_read_def n_def nat_div_distrib)
    moreover have "array_read (sort x) (int n div 2 - 1) = Some (sort x ! (n div 2 - 1))"
    proof -
      have idx: "int n div 2 - 1 = int (n div 2 - 1)" using n by (simp add: of_nat_diff zdiv_int)
      have "n div 2 - 1 < length (sort x)" using n unfolding n_def by simp
      then show ?thesis unfolding idx by (rule array_read_int)
    qed
    ultimately show ?thesis by (simp add: n_def Let_def)
  qed
qed

text \<open>
  C23. \<open>Median\<close> returns for every non-empty array, and its value is the middle element of the
  sorted array, or the rounded mean of the two middle elements when their number is even: the
  bubble sort ends, and the shortcuts for one and two elements agree with the general case.
\<close>

theorem Median_correct:
  assumes "x \<noteq> []"
  shows "Median x (int (length x)) = Some
    (let X = sort x; n = length x
     in if even n then ddiv (dadd (X ! (n div 2 - 1)) (X ! (n div 2))) 2 else X ! (n div 2))"
  using assms by (rule Median_eq)

theorem Median_correct_witness: "Median [7, 1, 5] 3 = Some 5"
  using Median_correct [of "[7, 1, 5]"] by (simp add: numeral_3_eq_3)

lemma Min_loop_correct:
  "i + k = length x \<Longrightarrow> Min_loop x k i m = Some (fold min (drop i x) m)"
proof (induction k arbitrary: i m)
  case 0
  then show ?case by simp
next
  case (Suc k)
  have "drop i x = x ! i # drop (i + 1) x" using Suc.prems by (simp add: Cons_nth_drop_Suc)
  moreover have "(if x ! i < m then x ! i else m) = min (x ! i) m" by (simp add: min_def)
  ultimately show ?case using Suc by (simp add: array_read_int)
qed

text \<open>
  \<open>Min\<close> of a non-empty array is the least of its elements, in the shortcuts for one and two
  elements and in the general loop.
\<close>

theorem Min_array_correct:
  assumes "x \<noteq> []"
  shows "Min_array x (int (length x)) = Some (Min (set x))"
proof -
  obtain a ys where x: "x = a # ys" using assms by (cases x) simp_all
  have "Min_loop x (length ys) 1 a = Some (fold min ys a)"
    using Min_loop_correct [of 1 "length ys" x a] by (simp add: x)
  also have "fold min ys a = Min (set x)" unfolding x by (rule Min.set_eq_fold [symmetric])
  finally have loop: "Min_loop x (length ys) 1 a = Some (Min (set x))" .
  have x0: "array_read x 0 = Some a" by (simp add: array_read_def x)
  consider "ys = []" | b where "ys = [b]" | "2 \<le> length ys" by (cases ys; cases "tl ys") auto
  then show ?thesis
  proof cases
    case 3
    then have "nat (int (length x) - 1) = length ys" "int (length x) \<noteq> 1" "int (length x) \<noteq> 2" by (auto simp: x)
    then show ?thesis using loop x0 by (simp add: Min_array_def)
  qed (auto simp: Min_array_def array_read_def x min_def)
qed

theorem Min_array_correct_witness: "Min_array [7, 1, 5] 3 = Some 1"
  using Min_array_correct [of "[7, 1, 5]"] by simp

text \<open>
  \<open>Average\<close> of integer-valued elements accumulates exactly and rounds once, in the division.
\<close>

lemma Average_loop_exact:
  assumes "\<And>j. j < length zs \<Longrightarrow> \<bar>\<Sum>z\<leftarrow>take (j + 1) zs. z\<bar> \<le> 2 ^ 53"
  shows "i + k = length zs \<Longrightarrow>
    Average_loop (map of_int zs) k i (of_int (\<Sum>z\<leftarrow>take i zs. z)) = Some (of_int (\<Sum>z\<leftarrow>zs. z))"
proof (induction k arbitrary: i)
  case 0
  then show ?case by simp
next
  case (Suc k)
  then have i: "i < length zs" by simp
  then have sum: "(\<Sum>z\<leftarrow>take (i + 1) zs. z) = (\<Sum>z\<leftarrow>take i zs. z) + zs ! i" by (simp add: take_Suc_conv_app_nth)
  have "dadd (of_int (\<Sum>z\<leftarrow>take i zs. z)) (of_int (zs ! i)) = of_int (\<Sum>z\<leftarrow>take (i + 1) zs. z)"
    unfolding sum using assms [OF i] unfolding sum by (rule dadd_of_int)
  then show ?case using Suc i by (simp add: array_read_int)
qed

lemma Average_exact:
  assumes "zs \<noteq> []" and "\<And>j. j < length zs \<Longrightarrow> \<bar>\<Sum>z\<leftarrow>take (j + 1) zs. z\<bar> \<le> 2 ^ 53"
  shows "Average (map of_int zs) (int (length zs)) =
    Some (ddiv (of_int (\<Sum>z\<leftarrow>zs. z)) (of_nat (length zs)))"
  using Average_loop_exact [OF assms(2), of 0 "length zs"] assms(1) by (simp add: Average_def)

lemma Median_nonneg:
  assumes "x \<noteq> []" and "\<And>v. v \<in> set x \<Longrightarrow> 0 \<le> v"
  shows "\<exists>m. Median x (int (length x)) = Some m \<and> 0 \<le> m"
proof -
  have "0 \<le> sort x ! i" if "i < length x" for i
    using assms(2) that by (metis length_sort nth_mem set_sort)
  moreover have "length x div 2 < length x" "length x div 2 - 1 < length x" using assms(1) by (cases x; simp)+
  ultimately have "0 \<le> sort x ! (length x div 2)" "0 \<le> sort x ! (length x div 2 - 1)" by blast+
  then show ?thesis
    unfolding Median_eq [OF assms(1)] Let_def by (simp add: ddiv_def round64_nonneg dadd_nonneg)
qed

lemma Median_double:
  assumes "x \<noteq> []" and "\<And>v. v \<in> set x \<Longrightarrow> round64 v = v" and "Median x (int (length x)) = Some m"
  shows "round64 m = m"
proof -
  have "length x div 2 < length x" using assms(1) by (cases x; simp)
  then have "round64 (sort x ! (length x div 2)) = sort x ! (length x div 2)"
    using assms(2) by (metis length_sort nth_mem set_sort)
  then show ?thesis
    using assms(3) unfolding Median_eq [OF assms(1)] Let_def by (auto simp: ddiv_def split: if_splits)
qed

end
