(* ===== verification/Sketch.thy ===== *)
theory Sketch
  imports Xis SketchStat
begin

text \<open>
  The Fast-AGMS sketch of \<open>QueryEngine/Sketch/Sketches.h\<close>. The class holds pointers: arrays of
  doubles, arrays of pointers to such arrays and arrays of pointers to seed arrays live in an
  explicit heap, so that the sharing set up by \<open>Copy_Sketch_Template\<close>, \<open>Clone_Sketch\<close> and
  \<open>Reset_Sketch\<close> is visible. The seed arrays themselves are never written after their creation and
  are values. An element no one has written is \<^const>\<open>None\<close>; an operation that reads it, follows a
  null or deleted pointer or leaves an array returns \<^const>\<open>None\<close>.
\<close>

section \<open>Heap\<close>

type_synonym addr = nat

record heap =
  h_double :: "addr \<rightharpoonup> double option list"
  h_ptr :: "addr \<rightharpoonup> addr option list"
  h_bucket :: "addr \<rightharpoonup> Xi_CW2B list option list"
  h_pm1 :: "addr \<rightharpoonup> Xi_EH3 list option list"
  h_next :: addr

definition new_double :: "nat \<Rightarrow> heap \<Rightarrow> addr \<times> heap" where
  "new_double n h =
     (h_next h, h\<lparr>h_double := (h_double h)(h_next h \<mapsto> replicate n None), h_next := Suc (h_next h)\<rparr>)"

definition new_ptr :: "nat \<Rightarrow> heap \<Rightarrow> addr \<times> heap" where
  "new_ptr n h = (h_next h, h\<lparr>h_ptr := (h_ptr h)(h_next h \<mapsto> replicate n None), h_next := Suc (h_next h)\<rparr>)"

definition new_bucket :: "nat \<Rightarrow> heap \<Rightarrow> addr \<times> heap" where
  "new_bucket n h =
     (h_next h, h\<lparr>h_bucket := (h_bucket h)(h_next h \<mapsto> replicate n None), h_next := Suc (h_next h)\<rparr>)"

definition new_pm1 :: "nat \<Rightarrow> heap \<Rightarrow> addr \<times> heap" where
  "new_pm1 n h = (h_next h, h\<lparr>h_pm1 := (h_pm1 h)(h_next h \<mapsto> replicate n None), h_next := Suc (h_next h)\<rparr>)"

text \<open>Reads and writes through a possibly null pointer, for any of the four stores.\<close>

definition load :: "(addr \<rightharpoonup> 'v option list) \<Rightarrow> addr option \<Rightarrow> nat \<Rightarrow> 'v option" where
  "load m p i = do { a \<leftarrow> p; xs \<leftarrow> m a; if i < length xs then xs ! i else None }"

definition store :: "(addr \<rightharpoonup> 'v option list) \<Rightarrow> addr option \<Rightarrow> nat \<Rightarrow> 'v \<Rightarrow> (addr \<rightharpoonup> 'v option list) option" where
  "store m p i v =
     do { a \<leftarrow> p; xs \<leftarrow> m a; if i < length xs then Some (m(a \<mapsto> xs[i := Some v])) else None }"

definition store_double :: "heap \<Rightarrow> addr option \<Rightarrow> nat \<Rightarrow> double \<Rightarrow> heap option" where
  "store_double h p i v = do { m \<leftarrow> store (h_double h) p i v; Some (h\<lparr>h_double := m\<rparr>) }"

definition store_ptr :: "heap \<Rightarrow> addr option \<Rightarrow> nat \<Rightarrow> addr \<Rightarrow> heap option" where
  "store_ptr h p i v = do { m \<leftarrow> store (h_ptr h) p i v; Some (h\<lparr>h_ptr := m\<rparr>) }"

definition store_bucket :: "heap \<Rightarrow> addr option \<Rightarrow> nat \<Rightarrow> Xi_CW2B list \<Rightarrow> heap option" where
  "store_bucket h p i v = do { m \<leftarrow> store (h_bucket h) p i v; Some (h\<lparr>h_bucket := m\<rparr>) }"

definition store_pm1 :: "heap \<Rightarrow> addr option \<Rightarrow> nat \<Rightarrow> Xi_EH3 list \<Rightarrow> heap option" where
  "store_pm1 h p i v = do { m \<leftarrow> store (h_pm1 h) p i v; Some (h\<lparr>h_pm1 := m\<rparr>) }"

definition delete_double :: "heap \<Rightarrow> addr option \<Rightarrow> heap option" where
  "delete_double h p =
     (case p of None \<Rightarrow> Some h
      | Some a \<Rightarrow> if a \<in> dom (h_double h) then Some (h\<lparr>h_double := (h_double h)(a := None)\<rparr>) else None)"

text \<open>The loop \<open>for (unsigned i = k; i < k + n; i++)\<close> with a body that may fail.\<close>

fun for_loop :: "nat \<Rightarrow> nat \<Rightarrow> (nat \<Rightarrow> 's \<Rightarrow> 's option) \<Rightarrow> 's \<Rightarrow> 's option" where
  "for_loop i 0 body s = Some s"
| "for_loop i (Suc n) body s = do { s \<leftarrow> body i s; for_loop (i + 1) n body s }"

section \<open>The sketch: state and construction\<close>

record FAGMS_Sketch =
  buckets_no :: u32
  rows_no :: u32
  keys_no :: u32
  xi_bucket :: "addr option"
  xi_pm1 :: "addr option"
  sketch_elem :: "addr option"
  separate_sketch_elem :: "addr option"

definition sketch_size :: "FAGMS_Sketch \<Rightarrow> nat" where
  "sketch_size s = unat (buckets_no s * rows_no s)"

definition FAGMS_Sketch_default :: FAGMS_Sketch where
  "FAGMS_Sketch_default =
     \<lparr>buckets_no = 0, rows_no = 0, keys_no = 0, xi_bucket = None, xi_pm1 = None,
      sketch_elem = None, separate_sketch_elem = None\<rparr>"

text \<open>\<open>sketch_elem[i] = 0.0\<close> for the whole array.\<close>

definition zero_fill :: "nat \<Rightarrow> addr option \<Rightarrow> heap \<Rightarrow> heap option" where
  "zero_fill n p h = for_loop 0 n (\<lambda>i h. store_double h p i 0) h"

definition FAGMS_Sketch_new :: "u32 \<Rightarrow> u32 \<Rightarrow> u32 \<Rightarrow> heap \<Rightarrow> (FAGMS_Sketch \<times> heap) option" where
  "FAGMS_Sketch_new b r k h =
     (let (xb, h) = new_bucket (unat k) h;
          (xp, h) = new_pm1 (unat k) h;
          (e, h) = new_double (unat (b * r)) h
      in do {
        h \<leftarrow> zero_fill (unat (b * r)) (Some e) h;
        let (se, h) = new_ptr (unat k) h;
        Some (\<lparr>buckets_no = b, rows_no = r, keys_no = k, xi_bucket = Some xb, xi_pm1 = Some xp,
               sketch_elem = Some e, separate_sketch_elem = Some se\<rparr>, h)
      })"

definition FAGMS_Sketch_template ::
  "u32 \<Rightarrow> u32 \<Rightarrow> Xi_CW2B list \<Rightarrow> Xi_EH3 list \<Rightarrow> heap \<Rightarrow> (FAGMS_Sketch \<times> heap) option" where
  "FAGMS_Sketch_template b r xbs xps h =
     (let (xb, h) = new_bucket 1 h
      in do {
        h \<leftarrow> store_bucket h (Some xb) 0 xbs;
        let (xp, h) = new_pm1 1 h;
        h \<leftarrow> store_pm1 h (Some xp) 0 xps;
        let (e, h) = new_double (unat (b * r)) h;
        h \<leftarrow> zero_fill (unat (b * r)) (Some e) h;
        let (se, h) = new_ptr 1 h;
        Some (\<lparr>buckets_no = b, rows_no = r, keys_no = 1, xi_bucket = Some xb, xi_pm1 = Some xp,
               sketch_elem = Some e, separate_sketch_elem = Some se\<rparr>, h)
      })"

definition FAGMS_Sketch_seeded ::
  "u32 \<Rightarrow> u32 \<Rightarrow> u32 \<Rightarrow> addr option \<Rightarrow> addr option \<Rightarrow> heap \<Rightarrow> (FAGMS_Sketch \<times> heap) option" where
  "FAGMS_Sketch_seeded b r k xb xp h =
     (let (e, h) = new_double (unat (b * r)) h
      in do {
        h \<leftarrow> zero_fill (unat (b * r)) (Some e) h;
        let (se, h) = new_ptr (unat k) h;
        Some (\<lparr>buckets_no = b, rows_no = r, keys_no = k, xi_bucket = xb, xi_pm1 = xp,
               sketch_elem = Some e, separate_sketch_elem = Some se\<rparr>, h)
      })"

definition Copy_Sketch_Template :: "FAGMS_Sketch \<Rightarrow> FAGMS_Sketch \<Rightarrow> nat \<Rightarrow> bool \<Rightarrow> heap \<Rightarrow> heap option" where
  "Copy_Sketch_Template this sketch_template column_index seeds_only h =
     do {
       xb \<leftarrow> load (h_bucket h) (xi_bucket sketch_template) 0;
       h \<leftarrow> store_bucket h (xi_bucket this) column_index xb;
       xp \<leftarrow> load (h_pm1 h) (xi_pm1 sketch_template) 0;
       h \<leftarrow> store_pm1 h (xi_pm1 this) column_index xp;
       if \<not> seeds_only then do {
         e \<leftarrow> sketch_elem sketch_template;
         store_ptr h (separate_sketch_elem this) column_index e
       } else do {
         let (e, h) = new_double (sketch_size this) h;
         h \<leftarrow> store_ptr h (separate_sketch_elem this) column_index e;
         zero_fill (sketch_size this) (Some e) h
       }
     }"

definition Copy_Sketch_Seeds ::
  "FAGMS_Sketch \<Rightarrow> Xi_CW2B list \<times> Xi_EH3 list \<Rightarrow> nat \<Rightarrow> heap \<Rightarrow> heap option" where
  "Copy_Sketch_Seeds this sketch_seeds column_index h =
     do {
       h \<leftarrow> store_bucket h (xi_bucket this) column_index (fst sketch_seeds);
       h \<leftarrow> store_pm1 h (xi_pm1 this) column_index (snd sketch_seeds);
       let (e, h) = new_double (sketch_size this) h;
       h \<leftarrow> store_ptr h (separate_sketch_elem this) column_index e;
       zero_fill (sketch_size this) (Some e) h
     }"

text \<open>
  \<open>Clone_Sketch\<close> shares the seeds of the original and copies, column by column, the elements
  \<open>template_sketch_elements[column_indices[i]]\<close> into fresh arrays; \<open>sketch_elem\<close> stays
  uninitialised.
\<close>

definition Clone_Sketch ::
  "FAGMS_Sketch \<Rightarrow> addr option \<Rightarrow> nat list \<Rightarrow> heap \<Rightarrow> (FAGMS_Sketch \<times> heap) option" where
  "Clone_Sketch original_sketch template_sketch_elements column_indices h =
     (let n = sketch_size original_sketch;
          k = unat (keys_no original_sketch);
          (e, h) = new_double n h;
          (se, h) = new_ptr k h
      in do {
        h \<leftarrow> for_loop 0 k (\<lambda>i h. do {
          let (ei, h) = new_double n h;
          h \<leftarrow> store_ptr h (Some se) i ei;
          col_idx \<leftarrow> list_read column_indices i;
          for_loop 0 n (\<lambda>j h. do {
            src \<leftarrow> load (h_ptr h) template_sketch_elements col_idx;
            v \<leftarrow> load (h_double h) (Some src) j;
            store_double h (Some ei) j v
          }) h
        }) h;
        Some (original_sketch\<lparr>sketch_elem := Some e, separate_sketch_elem := Some se\<rparr>, h)
      })"

definition Reset_Sketch :: "FAGMS_Sketch \<Rightarrow> heap \<Rightarrow> (FAGMS_Sketch \<times> heap) option" where
  "Reset_Sketch original_sketch h =
     (let n = sketch_size original_sketch; (e, h) = new_double n h
      in do {
        h \<leftarrow> zero_fill n (Some e) h;
        let (se, h) = new_ptr (unat (keys_no original_sketch)) h;
        Some (original_sketch\<lparr>sketch_elem := Some e, separate_sketch_elem := Some se\<rparr>, h)
      })"

definition FAGMS_Sketch_destroy :: "FAGMS_Sketch \<Rightarrow> heap \<Rightarrow> heap option" where
  "FAGMS_Sketch_destroy this h =
     do {
       h \<leftarrow> for_loop 0 (unat (keys_no this)) (\<lambda>i h. do {
         p \<leftarrow> load (h_ptr h) (separate_sketch_elem this) i;
         delete_double h (Some p)
       }) h;
       delete_double h (sketch_elem this)
     }"

section \<open>Operations on the elements\<close>

definition elem_max :: double where
  "elem_max = 4294967295"

definition Clear_Sketch :: "FAGMS_Sketch \<Rightarrow> heap \<Rightarrow> heap option" where
  "Clear_Sketch this h = zero_fill (sketch_size this) (sketch_elem this) h"

definition Set_Sketch_With_Max :: "FAGMS_Sketch \<Rightarrow> heap \<Rightarrow> heap option" where
  "Set_Sketch_With_Max this h =
     for_loop 0 (sketch_size this) (\<lambda>i h. store_double h (sketch_elem this) i elem_max) h"

definition Merge_Zero :: "FAGMS_Sketch \<Rightarrow> heap \<Rightarrow> heap option" where
  "Merge_Zero this h =
     for_loop 0 (sketch_size this) (\<lambda>i h. do {
       v \<leftarrow> load (h_double h) (sketch_elem this) i;
       if v = elem_max then store_double h (sketch_elem this) i 0 else Some h
     }) h"

text \<open>\<open>separate_sketch_elem[col_idx][i]\<close>; a negative \<open>col_idx\<close> leaves the array.\<close>

definition separate_read :: "FAGMS_Sketch \<Rightarrow> int \<Rightarrow> nat \<Rightarrow> heap \<Rightarrow> double option" where
  "separate_read this col_idx i h =
     (if col_idx < 0 then None
      else do {
        p \<leftarrow> load (h_ptr h) (separate_sketch_elem this) (nat col_idx);
        load (h_double h) (Some p) i
      })"

definition Choose_Sketch_Min_Val :: "FAGMS_Sketch \<Rightarrow> int \<Rightarrow> heap \<Rightarrow> heap option" where
  "Choose_Sketch_Min_Val this col_idx h =
     for_loop 0 (sketch_size this) (\<lambda>i h. do {
       v \<leftarrow> separate_read this col_idx i h;
       if v \<noteq> 0 then do {
         e \<leftarrow> load (h_double h) (sketch_elem this) i;
         if \<bar>e\<bar> > \<bar>v\<bar> then store_double h (sketch_elem this) i v else Some h
       } else Some h
     }) h"

definition Set_Sketch_Sparse :: "FAGMS_Sketch \<Rightarrow> int \<Rightarrow> heap \<Rightarrow> heap option" where
  "Set_Sketch_Sparse this col_idx h =
     for_loop 0 (sketch_size this) (\<lambda>i h. do {
       v \<leftarrow> separate_read this col_idx i h;
       if v \<noteq> 0 then store_double h (sketch_elem this) i v else Some h
     }) h"

definition Max_Non_Zero_Buckets :: "FAGMS_Sketch \<Rightarrow> int \<Rightarrow> heap \<Rightarrow> u32 option" where
  "Max_Non_Zero_Buckets this col_idx h =
     for_loop 0 (unat (rows_no this)) (\<lambda>i max_c. do {
       cnt \<leftarrow> for_loop 0 (unat (buckets_no this)) (\<lambda>j cnt. do {
         v \<leftarrow> separate_read this col_idx (unat (of_nat i * buckets_no this + of_nat j)) h;
         Some (if v \<noteq> 0 then cnt + 1 else cnt)
       }) 0;
       Some (if cnt > max_c then cnt else max_c)
     }) 0"

definition Add_Sketch_Values :: "FAGMS_Sketch \<Rightarrow> int \<Rightarrow> heap \<Rightarrow> heap option" where
  "Add_Sketch_Values this col_idx h =
     for_loop 0 (sketch_size this) (\<lambda>i h. do {
       v \<leftarrow> separate_read this col_idx i h;
       store_double h (sketch_elem this) i v
     }) h"

text \<open>
  One bucket update. \<open>(int) xi_bucket[j][i].element(key)\<close> is a bucket number below \<open>2^31\<close>, and the
  index \<open>i * buckets_no + bucket\<close> is computed on 32 bits.
\<close>

definition update_at :: "FAGMS_Sketch \<Rightarrow> nat \<Rightarrow> nat \<Rightarrow> u32 \<Rightarrow> double \<Rightarrow> heap \<Rightarrow> heap option" where
  "update_at this j i key func h =
     do {
       xbs \<leftarrow> load (h_bucket h) (xi_bucket this) j;
       xb \<leftarrow> list_read xbs i;
       b \<leftarrow> Xi_CW2B_element xb key;
       xps \<leftarrow> load (h_pm1 h) (xi_pm1 this) j;
       xp \<leftarrow> list_read xps i;
       let idx = unat (of_nat i * buckets_no this + word_of_int \<lfloor>b\<rfloor>);
       e \<leftarrow> load (h_double h) (sketch_elem this) idx;
       store_double h (sketch_elem this) idx (dadd e (dmul (Xi_EH3_element xp key) func))
     }"

definition Update_Sketch :: "FAGMS_Sketch \<Rightarrow> u32 \<Rightarrow> double \<Rightarrow> heap \<Rightarrow> heap option" where
  "Update_Sketch this key func h =
     for_loop 0 (unat (rows_no this)) (\<lambda>i h. update_at this 0 i key func h) h"

definition Update_Sketch_keys :: "FAGMS_Sketch \<Rightarrow> u32 list \<Rightarrow> double \<Rightarrow> heap \<Rightarrow> heap option" where
  "Update_Sketch_keys this key func h =
     for_loop 0 (unat (rows_no this)) (\<lambda>i h.
       for_loop 0 (unat (keys_no this)) (\<lambda>j h. do {
         kj \<leftarrow> list_read key j;
         update_at this j i kj func h
       }) h) h"

definition Merge_Sketch :: "FAGMS_Sketch \<Rightarrow> FAGMS_Sketch \<Rightarrow> heap \<Rightarrow> heap option" where
  "Merge_Sketch this me h =
     for_loop 0 (unat (rows_no this * buckets_no this)) (\<lambda>i h. do {
       e \<leftarrow> load (h_double h) (sketch_elem this) i;
       v \<leftarrow> load (h_double h) (sketch_elem me) i;
       store_double h (sketch_elem this) i (dadd e v)
     }) h"

section \<open>Estimators\<close>

text \<open>\<open>pow(10, -4)\<close>, the correctly rounded \<open>10^-4\<close>, and the replacement of zero elements by it.\<close>

definition pow_10_m4 :: double where
  "pow_10_m4 = round64 (1 / 10000)"

definition nonzero :: "double \<Rightarrow> double" where
  "nonzero t = (if t = 0 then pow_10_m4 else t)"

definition elem_at :: "FAGMS_Sketch \<Rightarrow> FAGMS_Sketch \<Rightarrow> nat \<Rightarrow> nat \<Rightarrow> heap \<Rightarrow> double option" where
  "elem_at this s i j h = load (h_double h) (sketch_elem s) (unat (of_nat i * buckets_no this + of_nat j))"

definition row_estimates :: "FAGMS_Sketch \<Rightarrow> (nat \<Rightarrow> double option) \<Rightarrow> double list option" where
  "row_estimates this row = for_loop 0 (unat (rows_no this)) (\<lambda>i est. do { e \<leftarrow> row i; Some (est @ [e]) }) []"

definition Size_Of_Join :: "FAGMS_Sketch \<Rightarrow> FAGMS_Sketch \<Rightarrow> heap \<Rightarrow> double option" where
  "Size_Of_Join this s1 h =
     do {
       basic_est \<leftarrow> row_estimates this (\<lambda>i. do {
         e \<leftarrow> for_loop 0 (unat (buckets_no this)) (\<lambda>j e. do {
           t1 \<leftarrow> elem_at this this i j h;
           t2 \<leftarrow> elem_at this s1 i j h;
           Some (dadd e (dmul (nonzero t1) (nonzero t2)))
         }) 0;
         Some \<bar>e\<bar>
       });
       Median basic_est (sint (rows_no this))
     }"

definition Size_Of_Join_group :: "FAGMS_Sketch \<Rightarrow> FAGMS_Sketch list \<Rightarrow> heap \<Rightarrow> double option" where
  "Size_Of_Join_group this s1 h =
     do {
       basic_est \<leftarrow> row_estimates this (\<lambda>i. do {
         e \<leftarrow> for_loop 0 (unat (buckets_no this)) (\<lambda>j e. do {
           b0 \<leftarrow> elem_at this this i j h;
           bp \<leftarrow> for_loop 0 (length s1) (\<lambda>k bp. do {
             t \<leftarrow> elem_at this (s1 ! k) i j h;
             Some (dmul bp (nonzero t))
           }) (nonzero b0);
           Some (dadd e bp)
         }) 0;
         Some \<bar>e\<bar>
       });
       Median basic_est (sint (rows_no this))
     }"

definition Self_Join_Size :: "FAGMS_Sketch \<Rightarrow> heap \<Rightarrow> double option" where
  "Self_Join_Size this h =
     do {
       basic_est \<leftarrow> row_estimates this (\<lambda>i.
         for_loop 0 (unat (buckets_no this)) (\<lambda>j e. do {
           v \<leftarrow> elem_at this this i j h;
           Some (dadd e (dmul v v))
         }) 0);
       Median basic_est (sint (rows_no this))
     }"

end
