(* ===== verification/SketchProps.thy ===== *)
theory SketchProps
  imports Sketch
begin

text \<open>
  Properties of the Fast-AGMS sketch of \<open>Sketch\<close>: a sketch is the linear map of the
  frequency vector of its stream given by the bucket and sign variables, updates and merges are
  exact for integer weights as long as the total weight stays below \<open>2^53\<close>, operations touch no
  array but the one they write, and the estimators are non-negative and symmetric.
\<close>

section \<open>Loops over one array of the heap\<close>

definition set_double :: "heap \<Rightarrow> addr \<Rightarrow> double option list \<Rightarrow> heap" where
  "set_double h a xs = h\<lparr>h_double := (h_double h)(a \<mapsto> xs)\<rparr>"

lemma set_double_sel [heap_simps]:
  "h_double (set_double h a xs) = (h_double h)(a \<mapsto> xs)" "h_ptr (set_double h a xs) = h_ptr h"
  "h_bucket (set_double h a xs) = h_bucket h" "h_pm1 (set_double h a xs) = h_pm1 h"
  "h_next (set_double h a xs) = h_next h"
  by (simp_all add: set_double_def)

lemma set_double_same [heap_simps]: "set_double (set_double h a xs) a ys = set_double h a ys"
  by (simp add: set_double_def)

lemma set_double_id: "h_double h a = Some xs \<Longrightarrow> set_double h a xs = h"
  by (simp add: set_double_def fun_upd_idem)

lemma store_double_eq [heap_simps]:
  "i < length xs \<Longrightarrow> store_double (set_double h a xs) (Some a) i v = Some (set_double h a (xs[i := Some v]))"
  by (simp add: store_double_def store_def set_double_def)

lemma load_eq [heap_simps]: "m a = Some xs \<Longrightarrow> i < length xs \<Longrightarrow> load m (Some a) i = xs ! i"
  by (simp add: load_def)

lemma load_Some: "load m (Some a) i = do { xs \<leftarrow> m a; if i < length xs then xs ! i else None }"
  by (simp add: load_def)

lemma list_update_idem: "xs ! i = x \<Longrightarrow> xs = xs[i := x]"
  by auto

lemma for_loop_invariant:
  assumes "\<And>i s. k \<le> i \<Longrightarrow> i < k + n \<Longrightarrow> P i s \<Longrightarrow> body i (F s) = Some (F (g i s)) \<and> P (Suc i) (g i s)"
    and "P k s"
  shows "for_loop k n body (F s) = Some (F (fold g [k..<k + n] s)) \<and> P (k + n) (fold g [k..<k + n] s)"
  using assms
proof (induction n arbitrary: k s)
  case 0
  then show ?case by simp
next
  case (Suc n)
  have 1: "body k (F s) = Some (F (g k s))" "P (Suc k) (g k s)" using Suc.prems(1) [of k s] Suc.prems(2) by simp_all
  have "for_loop (Suc k) n body (F (g k s)) = Some (F (fold g [Suc k..<Suc k + n] (g k s))) \<and>
      P (Suc k + n) (fold g [Suc k..<Suc k + n] (g k s))"
    by (rule Suc.IH) (use Suc.prems 1 in simp_all)
  then show ?case using 1 by (simp add: upt_conv_Cons del: upt_Suc)
qed

lemmas for_loop_fold = conjunct1 [OF for_loop_invariant]

text \<open>A loop that gives each element of an array a new value, which may depend on the old one.\<close>

lemma fold_list_update:
  "n \<le> length xs \<Longrightarrow> fold (\<lambda>i ys. ys[i := Some (g i)]) [0..<n] xs = map (\<lambda>i. Some (g i)) [0..<n] @ drop n xs"
proof (induction n)
  case 0
  then show ?case by simp
next
  case (Suc n)
  then have "fold (\<lambda>i ys. ys[i := Some (g i)]) [0..<Suc n] xs = (map (\<lambda>i. Some (g i)) [0..<n] @ drop n xs)[n := Some (g n)]"
    by simp
  also have "\<dots> = map (\<lambda>i. Some (g i)) [0..<Suc n] @ drop (Suc n) xs"
    using Suc.prems Cons_nth_drop_Suc [of n xs] by (simp add: list_update_append) (metis list_update_code(2))
  finally show ?case .
qed

lemma for_loop_array:
  assumes "length xs = n"
    and "\<And>i ys. i < n \<Longrightarrow> length ys = n \<Longrightarrow> ys ! i = xs ! i \<Longrightarrow>
      body i (set_double h a ys) = Some (set_double h a (ys[i := Some (g i)]))"
  shows "for_loop 0 n body (set_double h a xs) = Some (set_double h a (map (\<lambda>i. Some (g i)) [0..<n]))"
proof -
  have "for_loop 0 n body (set_double h a xs) = Some (set_double h a (fold (\<lambda>i ys. ys[i := Some (g i)]) [0..<0 + n] xs))"
    by (rule for_loop_fold [where P = "\<lambda>i ys. length ys = n \<and> (\<forall>j<n. i \<le> j \<longrightarrow> ys ! j = xs ! j)"])
      (use assms in auto)
  then show ?thesis using fold_list_update [of n xs g] assms(1) by simp
qed

lemma zero_fill_eq:
  assumes "h_double h a = Some xs" and "length xs = n"
  shows "zero_fill n (Some a) h = Some (set_double h a (replicate n (Some 0)))"
proof -
  have "zero_fill n (Some a) (set_double h a xs) = Some (set_double h a (map (\<lambda>i. Some 0) [0..<n]))"
    unfolding zero_fill_def by (rule for_loop_array) (simp_all add: assms heap_simps)
  then show ?thesis by (simp add: set_double_id [OF assms(1)] map_replicate_const)
qed

section \<open>The matrix of counters\<close>

definition mat :: "nat \<Rightarrow> nat \<Rightarrow> (nat \<Rightarrow> nat \<Rightarrow> int) \<Rightarrow> double option list" where
  "mat R B M = map (\<lambda>m. Some (of_int (M (m div B) (m mod B)))) [0..<R * B]"

lemma length_mat [simp]: "length (mat R B M) = R * B"
  by (simp add: mat_def)

lemma mat_index: "i < R \<Longrightarrow> c < B \<Longrightarrow> i * B + c < R * (B :: nat)"
  by (metis add_mult_distrib2 less_le_trans mult.commute mult_le_mono2 mult_Suc Suc_leI add.commute nat_add_left_cancel_less)

lemma nth_mat [simp]: "i < R \<Longrightarrow> c < B \<Longrightarrow> mat R B M ! (i * B + c) = Some (of_int (M i c))"
  using mat_index [of i R c B] by (simp add: mat_def)

lemma mat_update:
  assumes "i < R" and "c < B"
  shows "(mat R B M)[i * B + c := Some (of_int v)] = mat R B (M(i := (M i)(c := v)))"
proof (rule nth_equalityI)
  fix m
  assume "m < length ((mat R B M)[i * B + c := Some (of_int v)])"
  then have m: "m < R * B" by simp
  have "m = i * B + c \<longleftrightarrow> m div B = i \<and> m mod B = c"
    using assms(2) by (metis div_mult_mod_eq div_mult_self3 div_less add.commute mod_mult_self3 mod_less gr_implies_not0 add_0)
  then show "(mat R B M)[i * B + c := Some (of_int v)] ! m = mat R B (M(i := (M i)(c := v))) ! m"
    using m mat_index [OF assms] by (auto simp: mat_def nth_list_update)
qed simp

section \<open>Streams of updates\<close>

text \<open>The bucket of a key in row \<open>i\<close>, and the counters of a stream of weighted keys.\<close>

definition bucket_of :: "Xi_CW2B \<Rightarrow> u32 \<Rightarrow> nat" where
  "bucket_of xb key = unat (hash31 (ucast (fst (CW2B_seeds xb))) (ucast (snd (CW2B_seeds xb))) (ucast key))
     mod unat (CW2B_buckets_no xb)"

definition counters :: "Xi_CW2B list \<Rightarrow> Xi_EH3 list \<Rightarrow> (u32 \<times> int) list \<Rightarrow> nat \<Rightarrow> nat \<Rightarrow> int" where
  "counters xbs xps stream i c =
     (\<Sum>(key, w)\<leftarrow>stream. if bucket_of (xbs ! i) key = c then EH3_xi (xps ! i) key * w else 0)"

definition weight :: "(u32 \<times> int) list \<Rightarrow> int" where
  "weight stream = (\<Sum>(key, w)\<leftarrow>stream. \<bar>w\<bar>)"

text \<open>
  A sketch ready for updates: its seed arrays have a row each, all bucket variables have the
  sketch's number of buckets, and the array of elements has its declared size.
\<close>

definition updatable :: "FAGMS_Sketch \<Rightarrow> heap \<Rightarrow> addr \<Rightarrow> Xi_CW2B list \<Rightarrow> Xi_EH3 list \<Rightarrow> bool" where
  "updatable s h a xbs xps \<longleftrightarrow>
     sketch_elem s = Some a \<and>
     load (h_bucket h) (xi_bucket s) 0 = Some xbs \<and> load (h_pm1 h) (xi_pm1 s) 0 = Some xps \<and>
     length xbs = unat (rows_no s) \<and> length xps = unat (rows_no s) \<and>
     (\<forall>xb\<in>set xbs. CW2B_buckets_no xb = buckets_no s) \<and>
     0 < unat (buckets_no s) \<and> unat (buckets_no s) < 2147483647 \<and>
     unat (rows_no s) * unat (buckets_no s) < 2 ^ 32"

lemma bucket_of_less: "0 < unat (CW2B_buckets_no xb) \<Longrightarrow> bucket_of xb key < unat (CW2B_buckets_no xb)"
  by (simp add: bucket_of_def)

lemma Xi_CW2B_element_bucket:
  assumes "0 < unat (CW2B_buckets_no xb)" and "unat (CW2B_buckets_no xb) < 2147483647"
  shows "Xi_CW2B_element xb key = Some (of_nat (bucket_of xb key))"
proof -
  have "CW2B_buckets_no xb \<noteq> 0" "CW2B_buckets_no xb \<noteq> of_nat RANDOMGENSCHEME_MOD"
    using assms by (auto simp: RANDOMGENSCHEME_MOD_def)
  then show ?thesis
    by (simp add: Xi_CW2B_element_def CW2B_def case_prod_beta Let_def bucket_of_def flip: unat_mod)
qed

lemma index_u32:
  assumes "i < R" and "c < unat B" and "R * unat B < 2 ^ 32"
  shows "unat (of_nat i * B + of_nat c :: u32) = i * unat B + c"
proof -
  have "i * unat B + c < 2 ^ 32" using mat_index [OF assms(1,2)] assms(3) by simp
  moreover have "of_nat i * B + of_nat c = (of_nat (i * unat B + c) :: u32)" by simp
  ultimately show ?thesis by (simp only: unat_of_nat_u32)
qed

lemma update_at_eq:
  assumes u: "updatable s h a xbs xps" and i: "i < unat (rows_no s)"
    and w: "\<bar>w\<bar> \<le> 2 ^ 53" "\<bar>M i (bucket_of (xbs ! i) key) + EH3_xi (xps ! i) key * w\<bar> \<le> 2 ^ 53"
  shows "update_at s 0 i key (of_int w) (set_double h a (mat (unat (rows_no s)) (unat (buckets_no s)) M)) =
    Some (set_double h a (mat (unat (rows_no s)) (unat (buckets_no s))
      (M(i := (M i)(bucket_of (xbs ! i) key := M i (bucket_of (xbs ! i) key) + EH3_xi (xps ! i) key * w)))))"
proof -
  let ?c = "bucket_of (xbs ! i) key" and ?R = "unat (rows_no s)" and ?B = "unat (buckets_no s)"
  have l: "i < length xbs" "i < length xps" using u i by (auto simp: updatable_def)
  then have nb: "CW2B_buckets_no (xbs ! i) = buckets_no s" using u by (auto simp: updatable_def)
  have c: "?c < ?B" and el: "Xi_CW2B_element (xbs ! i) key = Some (of_nat ?c)"
    using bucket_of_less [of "xbs ! i" key] Xi_CW2B_element_bucket [of "xbs ! i" key] u
    by (auto simp: updatable_def nb)
  have idx: "unat (of_nat i * buckets_no s + of_nat ?c) = i * ?B + ?c"
    using u by (intro index_u32 [OF i c]) (auto simp: updatable_def)
  have xi: "\<bar>EH3_xi (xps ! i) key * w\<bar> \<le> 2 ^ 53" using w(1) by (simp add: abs_mult Xi_EH3.abs_xi)
  have val: "dadd (of_int (M i ?c)) (dmul (Xi_EH3_element (xps ! i) key) (of_int w)) =
      of_int (M i ?c + EH3_xi (xps ! i) key * w)"
    by (simp only: Xi_EH3.element dmul_of_int [OF xi] dadd_of_int [OF w(2)])
  show ?thesis
    using u i c l mat_index [OF i c]
    unfolding update_at_def by (simp add: updatable_def list_read_def heap_simps el idx val mat_update del: of_int_add)
qed

lemma Update_Sketch_eq:
  assumes u: "updatable s h a xbs xps" and w: "\<bar>w\<bar> \<le> 2 ^ 53"
    and b: "\<And>i. i < unat (rows_no s) \<Longrightarrow> \<bar>M i (bucket_of (xbs ! i) key) + EH3_xi (xps ! i) key * w\<bar> \<le> 2 ^ 53"
  shows "Update_Sketch s key (of_int w) (set_double h a (mat (unat (rows_no s)) (unat (buckets_no s)) M)) =
    Some (set_double h a (mat (unat (rows_no s)) (unat (buckets_no s))
      (\<lambda>i c. M i c + (if i < unat (rows_no s) \<and> bucket_of (xbs ! i) key = c then EH3_xi (xps ! i) key * w else 0))))"
proof -
  let ?H = "\<lambda>N. set_double h a (mat (unat (rows_no s)) (unat (buckets_no s)) N)"
  define g where "g i N = N(i := (N i)(bucket_of (xbs ! i) key := N i (bucket_of (xbs ! i) key) + EH3_xi (xps ! i) key * w))"
    for i and N :: "nat \<Rightarrow> nat \<Rightarrow> int"
  define N where "N k i c = M i c + (if i < k \<and> bucket_of (xbs ! i) key = c then EH3_xi (xps ! i) key * w else 0)"
    for k i c
  have step: "g k (N k) = N (Suc k)" for k by (rule ext)+ (auto simp: g_def N_def less_Suc_eq)
  have N0: "N 0 = M" by (rule ext)+ (simp add: N_def)
  have fold: "fold g [0..<k] M = N k" for k by (induction k) (simp_all add: step N0)
  have "for_loop 0 (unat (rows_no s)) (\<lambda>i h. update_at s 0 i key (of_int w) h) (?H M) =
      Some (?H (fold g [0..<0 + unat (rows_no s)] M))"
  proof (rule for_loop_fold [where P = "\<lambda>k N'. N' = N k"])
    fix k N'
    assume "k < 0 + unat (rows_no s)" and "N' = N k"
    then show "update_at s 0 k key (of_int w) (?H N') = Some (?H (g k N')) \<and> g k N' = N (Suc k)"
      using update_at_eq [OF u _ w, of k N' key] b [of k] step [of k] by (simp add: g_def N_def)
  qed (simp add: N0)
  then show ?thesis unfolding Update_Sketch_def by (simp add: fold) (simp add: N_def [abs_def])
qed

fun Update_stream :: "FAGMS_Sketch \<Rightarrow> (u32 \<times> int) list \<Rightarrow> heap \<Rightarrow> heap option" where
  "Update_stream s [] h = Some h"
| "Update_stream s ((key, w) # stream) h =
     do { h \<leftarrow> Update_Sketch s key (of_int w) h; Update_stream s stream h }"

lemma counters_Cons:
  "counters xbs xps ((key, w) # stream) i c =
     (if bucket_of (xbs ! i) key = c then EH3_xi (xps ! i) key * w else 0) + counters xbs xps stream i c"
  by (simp add: counters_def)

lemma weight_Cons: "weight ((key, w) # stream) = \<bar>w\<bar> + weight stream" "0 \<le> weight stream"
  by (auto simp: weight_def intro!: sum_list_nonneg)

lemma mat_cong: "(\<And>i c. i < R \<Longrightarrow> c < B \<Longrightarrow> M i c = N i c) \<Longrightarrow> mat R B M = mat R B N"
  by (cases "B = 0") (auto simp: mat_def less_mult_imp_div_less)

lemma Update_stream_eq:
  assumes u: "updatable s h a xbs xps"
    and "\<And>i c. \<bar>M i c\<bar> + weight stream \<le> 2 ^ 53"
  shows "Update_stream s stream (set_double h a (mat (unat (rows_no s)) (unat (buckets_no s)) M)) =
    Some (set_double h a (mat (unat (rows_no s)) (unat (buckets_no s)) (\<lambda>i c. M i c + counters xbs xps stream i c)))"
  using assms(2)
proof (induction stream arbitrary: M)
  case Nil
  then show ?case by (simp add: counters_def)
next
  case (Cons kw stream)
  obtain key w where kw: "kw = (key, w)" by (cases kw)
  let ?M = "\<lambda>i c. M i c + (if i < unat (rows_no s) \<and> bucket_of (xbs ! i) key = c then EH3_xi (xps ! i) key * w else 0)"
  have bound: "\<bar>M i c\<bar> + \<bar>w\<bar> + weight stream \<le> 2 ^ 53" for i c using Cons.prems [of i c] by (simp add: kw weight_Cons)
  have xi: "\<bar>EH3_xi x key * w\<bar> = \<bar>w\<bar>" for x by (simp add: abs_mult Xi_EH3.abs_xi)
  have w: "\<bar>w\<bar> \<le> 2 ^ 53" using bound [of 0 0] weight_Cons(2) [of stream] by linarith
  have b: "\<bar>M i c + EH3_xi x key * w\<bar> \<le> 2 ^ 53" for i c x
    using bound [of i c] weight_Cons(2) [of stream] xi [of x] by linarith
  have M: "\<bar>?M i c\<bar> + weight stream \<le> 2 ^ 53" for i c
    using bound [of i c] xi [of "xps ! i"] by (auto split: if_splits)
  show ?case
    using Cons.IH [OF M] by (simp add: kw Update_Sketch_eq [OF u w b]) (auto intro!: arg_cong [where f = "set_double h a"] mat_cong simp: counters_Cons)
qed

lemma new_sel [heap_simps]:
  "fst (new_double n h) = h_next h" "fst (new_ptr n h) = h_next h"
  "fst (new_bucket n h) = h_next h" "fst (new_pm1 n h) = h_next h"
  by (simp_all add: new_double_def new_ptr_def new_bucket_def new_pm1_def)

text \<open>The template constructor succeeds and leaves a zeroed, updatable sketch.\<close>

lemma FAGMS_Sketch_template_eq:
  obtains s h a where "FAGMS_Sketch_template b r xbs xps h0 = Some (s, h)" and "sketch_elem s = Some a"
    and "buckets_no s = b" and "rows_no s = r" and "keys_no s = 1"
    and "h_double h = (h_double h0)(a \<mapsto> replicate (unat (b * r)) (Some 0))"
    and "load (h_bucket h) (xi_bucket s) 0 = Some xbs" and "load (h_pm1 h) (xi_pm1 s) 0 = Some xps"
    and "h_next h0 \<le> a" and "a < h_next h"
proof -
  let ?e = "Suc (Suc (h_next h0))"
  define h1 where "h1 = h0\<lparr>h_bucket := (h_bucket h0)(h_next h0 \<mapsto> [Some xbs]),
      h_pm1 := (h_pm1 h0)(Suc (h_next h0) \<mapsto> [Some xps]),
      h_double := (h_double h0)(?e \<mapsto> replicate (unat (b * r)) None), h_next := Suc ?e\<rparr>"
  have z: "zero_fill (unat (b * r)) (Some ?e) h1 = Some (set_double h1 ?e (replicate (unat (b * r)) (Some 0)))"
    by (rule zero_fill_eq [of _ _ "replicate (unat (b * r)) None"]) (simp_all add: h1_def)
  show ?thesis
  proof (rule that)
    show "FAGMS_Sketch_template b r xbs xps h0 = Some (\<lparr>buckets_no = b, rows_no = r, keys_no = 1,
        xi_bucket = Some (h_next h0), xi_pm1 = Some (Suc (h_next h0)), sketch_elem = Some ?e,
        separate_sketch_elem = Some (Suc ?e)\<rparr>,
        snd (new_ptr 1 (set_double h1 ?e (replicate (unat (b * r)) (Some 0)))))"
      using z by (simp add: FAGMS_Sketch_template_def new_bucket_def new_pm1_def new_double_def new_ptr_def Let_def
          store_bucket_def store_pm1_def store_def h1_def set_double_def)
  qed (simp_all add: new_ptr_def h1_def set_double_def load_def, simp_all)
qed

lemma mat_zero: "mat R B (\<lambda>i c. 0) = replicate (R * B) (Some 0)"
  by (simp add: mat_def map_replicate_const)

lemma unat_mult_u32: "unat r * unat b < 2 ^ 32 \<Longrightarrow> unat (b * r :: u32) = unat r * unat b"
  by (simp add: unat_word_ariths mult.commute)

text \<open>
  C16. The Fast-AGMS invariant. A sketch built from seed arrays and fed any stream of integer
  weighted keys of total weight at most \<open>2^53\<close> holds exactly, in bucket \<open>c\<close> of row \<open>i\<close>, the sum of
  \<open>xi_i(key) * w\<close> over the updates whose key falls into that bucket; construction and updates
  succeed, no element is rounded, and no other array changes.
\<close>

theorem Update_Sketch_stream:
  assumes "length xbs = unat r" and "length xps = unat r" and "\<forall>xb\<in>set xbs. CW2B_buckets_no xb = b"
    and "0 < unat b" and "unat b < 2147483647" and "unat r * unat b < 2 ^ 32" and "weight stream \<le> 2 ^ 53"
  shows "\<exists>s h a h'. FAGMS_Sketch_template b r xbs xps h0 = Some (s, h) \<and> sketch_elem s = Some a \<and>
    Update_stream s stream h = Some h' \<and>
    h_double h' = (h_double h)(a \<mapsto> mat (unat r) (unat b) (counters xbs xps stream))"
proof -
  obtain s h a where new: "FAGMS_Sketch_template b r xbs xps h0 = Some (s, h)" "sketch_elem s = Some a"
    "buckets_no s = b" "rows_no s = r" "keys_no s = 1"
    "h_double h = (h_double h0)(a \<mapsto> replicate (unat (b * r)) (Some 0))"
    "load (h_bucket h) (xi_bucket s) 0 = Some xbs" "load (h_pm1 h) (xi_pm1 s) 0 = Some xps"
    by (rule FAGMS_Sketch_template_eq)
  have u: "updatable s h a xbs xps" using assms new by (simp add: updatable_def)
  have "h_double h a = Some (mat (unat r) (unat b) (\<lambda>i c. 0))"
    using new unat_mult_u32 [OF assms(6)] by (simp add: mat_zero)
  then have "set_double h a (mat (unat r) (unat b) (\<lambda>i c. 0)) = h" by (rule set_double_id)
  then have "Update_stream s stream h = Some (set_double h a (mat (unat r) (unat b) (counters xbs xps stream)))"
    using Update_stream_eq [OF u, of "\<lambda>i c. 0" stream] assms(7) new by simp
  then show ?thesis using new(1,2) by (auto simp: heap_simps)
qed

definition test_heap :: heap where
  "test_heap = \<lparr>h_double = Map.empty, h_ptr = Map.empty, h_bucket = Map.empty, h_pm1 = Map.empty, h_next = 0\<rparr>"

theorem Update_Sketch_stream_witness:
  "\<exists>s h a h'. FAGMS_Sketch_template 4 2 [Xi_CW2B_new 1 2 4, Xi_CW2B_new 3 4 4] [Xi_EH3_new 5 6, Xi_EH3_new 7 8] test_heap = Some (s, h) \<and>
    sketch_elem s = Some a \<and> Update_stream s [(17, 3), (42, -1)] h = Some h' \<and>
    h_double h' = (h_double h)(a \<mapsto> mat 2 4 (counters [Xi_CW2B_new 1 2 4, Xi_CW2B_new 3 4 4]
      [Xi_EH3_new 5 6, Xi_EH3_new 7 8] [(17, 3), (42, -1)]))"
  using Update_Sketch_stream [of "[Xi_CW2B_new 1 2 4, Xi_CW2B_new 3 4 4]" 2 "[Xi_EH3_new 5 6, Xi_EH3_new 7 8]" 4
      "[(17, 3), (42, -1)]" test_heap]
  by (simp add: weight_def Xi_CW2B_new_def)

section \<open>Merging\<close>

lemma counters_append: "counters xbs xps (A @ B) i c = counters xbs xps A i c + counters xbs xps B i c"
  by (simp add: counters_def)

lemma weight_append: "weight (A @ B) = weight A + weight B"
  by (simp add: weight_def)

lemma abs_counters: "\<bar>counters xbs xps stream i c\<bar> \<le> weight stream"
proof (induction stream)
  case Nil
  then show ?case by (simp add: counters_def weight_def)
next
  case (Cons kw stream)
  obtain key w where "kw = (key, w)" by (cases kw)
  then show ?case using Cons Xi_EH3.abs_xi [of "xps ! i" key]
    by (auto simp: counters_Cons weight_Cons abs_mult intro: order_trans [OF abs_triangle_ineq])
qed

lemma Merge_Sketch_eq:
  assumes "sketch_elem s = Some a" and "sketch_elem t = Some b"
    and "h_double h a = Some (map Some vs)" and "h_double h b = Some (map Some ws)"
    and "length vs = unat (rows_no s * buckets_no s)" and "length ws = length vs"
  shows "Merge_Sketch s t h = Some (set_double h a (map (\<lambda>i. Some (dadd (vs ! i) (ws ! i))) [0..<length vs]))"
proof -
  have "for_loop 0 (length vs) (\<lambda>i h. do { e \<leftarrow> load (h_double h) (Some a) i; v \<leftarrow> load (h_double h) (Some b) i;
      store_double h (Some a) i (dadd e v) }) (set_double h a (map Some vs)) =
      Some (set_double h a (map (\<lambda>i. Some (dadd (vs ! i) (ws ! i))) [0..<length vs]))"
  proof (rule for_loop_array)
    fix i ys
    assume "i < length vs" "length ys = length vs" "ys ! i = map Some vs ! i"
    then show "do { e \<leftarrow> load (h_double (set_double h a ys)) (Some a) i; v \<leftarrow> load (h_double (set_double h a ys)) (Some b) i;
        store_double (set_double h a ys) (Some a) i (dadd e v) } = Some (set_double h a (ys[i := Some (dadd (vs ! i) (ws ! i))]))"
      using assms(3,4,6) by (cases "a = b") (auto simp: heap_simps load_def)
  qed simp
  then show ?thesis
    using assms set_double_id [OF assms(3)] unfolding Merge_Sketch_def by simp
qed

text \<open>
  C17. Merging is addition of streams: if two sketches with the same seeds hold the counters of the
  streams \<open>A\<close> and \<open>B\<close>, then \<open>Merge_Sketch\<close> leaves in the first one the counters of \<open>A\<close> followed by
  \<open>B\<close>, and changes no other array; the second sketch keeps its own.
\<close>

theorem Merge_Sketch_streams:
  assumes "sketch_elem s = Some a" and "sketch_elem t = Some b" and "a \<noteq> b"
    and "unat (rows_no s) * unat (buckets_no s) < 2 ^ 32"
    and "h_double h a = Some (mat (unat (rows_no s)) (unat (buckets_no s)) (counters xbs xps A))"
    and "h_double h b = Some (mat (unat (rows_no s)) (unat (buckets_no s)) (counters xbs xps B))"
    and "weight A + weight B \<le> 2 ^ 53"
  shows "\<exists>h'. Merge_Sketch s t h = Some h' \<and>
    h_double h' = (h_double h)(a \<mapsto> mat (unat (rows_no s)) (unat (buckets_no s)) (counters xbs xps (A @ B)))"
proof -
  let ?R = "unat (rows_no s)" and ?B = "unat (buckets_no s)"
  let ?f = "\<lambda>S m. of_int (counters xbs xps S (m div ?B) (m mod ?B)) :: double"
  have vs: "mat ?R ?B (counters xbs xps S) = map Some (map (?f S) [0..<?R * ?B])" for S by (simp add: mat_def)
  have sz: "unat (rows_no s * buckets_no s) = ?R * ?B" using unat_mult_u32 [OF assms(4)] by (simp add: mult.commute)
  have add: "dadd (?f A m) (?f B m) = ?f (A @ B) m" for m
    using abs_counters [of xbs xps A "m div ?B" "m mod ?B"] abs_counters [of xbs xps B "m div ?B" "m mod ?B"] assms(7)
    unfolding counters_append by (intro dadd_of_int) linarith
  have "Merge_Sketch s t h = Some (set_double h a (map (\<lambda>i. Some (dadd (map (?f A) [0..<?R * ?B] ! i) (map (?f B) [0..<?R * ?B] ! i)))
      [0..<length (map (?f A) [0..<?R * ?B])]))"
    using assms(1,2,5,6) sz unfolding vs by (intro Merge_Sketch_eq) simp_all
  also have "map (\<lambda>i. Some (dadd (map (?f A) [0..<?R * ?B] ! i) (map (?f B) [0..<?R * ?B] ! i)))
      [0..<length (map (?f A) [0..<?R * ?B])] = mat ?R ?B (counters xbs xps (A @ B))"
    unfolding vs by (simp add: add)
  finally show ?thesis by (simp add: heap_simps)
qed

definition test_sketch :: "addr \<Rightarrow> FAGMS_Sketch" where
  "test_sketch a = \<lparr>buckets_no = 2, rows_no = 1, keys_no = 1, xi_bucket = None, xi_pm1 = None,
     sketch_elem = Some a, separate_sketch_elem = None\<rparr>"

theorem Merge_Sketch_streams_witness:
  "\<exists>h'. Merge_Sketch (test_sketch 0) (test_sketch 1)
      (test_heap\<lparr>h_double := [0 \<mapsto> mat 1 2 (counters [Xi_CW2B_new 1 2 2] [Xi_EH3_new 3 4] [(7, 5)]),
        1 \<mapsto> mat 1 2 (counters [Xi_CW2B_new 1 2 2] [Xi_EH3_new 3 4] [(9, - 2), (7, 1)])]\<rparr>) = Some h' \<and>
    h_double h' 0 = Some (mat 1 2 (counters [Xi_CW2B_new 1 2 2] [Xi_EH3_new 3 4] [(7, 5), (9, - 2), (7, 1)]))"
proof -
  let ?c = "counters [Xi_CW2B_new 1 2 2] [Xi_EH3_new 3 4]"
  let ?h = "test_heap\<lparr>h_double := [0 \<mapsto> mat 1 2 (?c [(7, 5)]), 1 \<mapsto> mat 1 2 (?c [(9, - 2), (7, 1)])]\<rparr>"
  have "\<exists>h'. Merge_Sketch (test_sketch 0) (test_sketch 1) ?h = Some h' \<and>
      h_double h' = (h_double ?h)(0 \<mapsto> mat (unat (rows_no (test_sketch 0))) (unat (buckets_no (test_sketch 0)))
        (?c ([(7, 5)] @ [(9, - 2), (7, 1)])))"
    by (rule Merge_Sketch_streams [where b = 1]) (simp_all add: test_sketch_def weight_def)
  then show ?thesis by (auto simp: test_sketch_def)
qed

section \<open>Estimators\<close>

text \<open>A loop whose body reads and accumulates is a fold over what it reads.\<close>

lemma for_loop_accumulate:
  assumes "\<And>i s. k \<le> i \<Longrightarrow> i < k + n \<Longrightarrow> body i s = Some (g i s)"
  shows "for_loop k n body s = Some (fold g [k..<k + n] s)"
  by (rule for_loop_fold [where P = "\<lambda>i s. True" and F = "\<lambda>s. s"]) (use assms in auto)

lemma row_estimates_eq:
  assumes "\<And>i. i < unat (rows_no s) \<Longrightarrow> row i = Some (f i)"
  shows "row_estimates s row = Some (map f [0..<unat (rows_no s)])"
proof -
  have "fold (\<lambda>i est. est @ [f i]) [0..<n] [] = map f [0..<n]" for n by (induction n) simp_all
  then show ?thesis
    using for_loop_accumulate [of 0 "unat (rows_no s)" "\<lambda>i est. do { e \<leftarrow> row i; Some (est @ [e]) }" "\<lambda>i est. est @ [f i]" "[]"] assms
    by (simp add: row_estimates_def)
qed

text \<open>The elements of a sketch as a matrix of doubles.\<close>

definition holds :: "heap \<Rightarrow> FAGMS_Sketch \<Rightarrow> (nat \<Rightarrow> nat \<Rightarrow> double) \<Rightarrow> bool" where
  "holds h s E \<longleftrightarrow> (\<exists>a. sketch_elem s = Some a \<and>
     h_double h a = Some (map (\<lambda>m. Some (E (m div unat (buckets_no s)) (m mod unat (buckets_no s))))
       [0..<unat (rows_no s) * unat (buckets_no s)]))"

definition same_shape :: "FAGMS_Sketch \<Rightarrow> FAGMS_Sketch \<Rightarrow> bool" where
  "same_shape s t \<longleftrightarrow> buckets_no s = buckets_no t \<and> rows_no s = rows_no t"

lemma elem_at_eq:
  assumes "holds h t E" and "same_shape s t" and "unat (rows_no s) * unat (buckets_no s) < 2 ^ 32"
    and "i < unat (rows_no s)" and "j < unat (buckets_no s)"
  shows "elem_at s t i j h = Some (E i j)"
proof -
  have "unat (of_nat i * buckets_no s + of_nat j) = i * unat (buckets_no s) + j"
    using assms(3-5) by (intro index_u32) simp_all
  then show ?thesis
    using assms(1,2,4,5) mat_index [OF assms(4,5)] by (auto simp: elem_at_def holds_def same_shape_def load_def)
qed

definition join_row :: "nat \<Rightarrow> (nat \<Rightarrow> double) \<Rightarrow> (nat \<Rightarrow> double) \<Rightarrow> double" where
  "join_row B E F = \<bar>fold (\<lambda>j e. dadd e (dmul (nonzero (E j)) (nonzero (F j)))) [0..<B] 0\<bar>"

lemma join_row_commute: "join_row B E F = join_row B F E"
  unfolding join_row_def by (simp only: dmul_commute)

lemma join_row_nonneg: "0 \<le> join_row B E F"
  by (simp add: join_row_def)

lemma Size_Of_Join_eq:
  assumes "holds h s E" and "holds h t F" and "same_shape s t" and "unat (rows_no s) * unat (buckets_no s) < 2 ^ 32"
  shows "Size_Of_Join s t h = Median (map (\<lambda>i. join_row (unat (buckets_no s)) (E i) (F i)) [0..<unat (rows_no s)]) (sint (rows_no s))"
proof -
  have self: "same_shape s s" by (simp add: same_shape_def)
  have "row_estimates s (\<lambda>i. do { e \<leftarrow> for_loop 0 (unat (buckets_no s)) (\<lambda>j e. do {
        t1 \<leftarrow> elem_at s s i j h; t2 \<leftarrow> elem_at s t i j h; Some (dadd e (dmul (nonzero t1) (nonzero t2))) }) 0; Some \<bar>e\<bar> }) =
      Some (map (\<lambda>i. join_row (unat (buckets_no s)) (E i) (F i)) [0..<unat (rows_no s)])"
  proof (rule row_estimates_eq)
    fix i
    assume i: "i < unat (rows_no s)"
    show "do { e \<leftarrow> for_loop 0 (unat (buckets_no s)) (\<lambda>j e. do {
        t1 \<leftarrow> elem_at s s i j h; t2 \<leftarrow> elem_at s t i j h; Some (dadd e (dmul (nonzero t1) (nonzero t2))) }) 0; Some \<bar>e\<bar> } =
      Some (join_row (unat (buckets_no s)) (E i) (F i))"
      by (subst for_loop_accumulate [where g = "\<lambda>j e. dadd e (dmul (nonzero (E i j)) (nonzero (F i j)))"])
        (simp_all add: elem_at_eq [OF assms(1) self assms(4) i] elem_at_eq [OF assms(2-4) i] join_row_def)
  qed
  then show ?thesis unfolding Size_Of_Join_def by simp
qed

lemma Size_Of_Join_group_single:
  assumes "holds h s E" and "holds h t F" and "same_shape s t" and "unat (rows_no s) * unat (buckets_no s) < 2 ^ 32"
  shows "Size_Of_Join_group s [t] h = Size_Of_Join s t h"
proof -
  have "(do { b0 \<leftarrow> elem_at s s i j h;
           bp \<leftarrow> for_loop 0 (length [t]) (\<lambda>k bp. do { t \<leftarrow> elem_at s ([t] ! k) i j h; Some (dmul bp (nonzero t)) }) (nonzero b0);
           Some (dadd e bp) }) =
      (do { t1 \<leftarrow> elem_at s s i j h; t2 \<leftarrow> elem_at s t i j h; Some (dadd e (dmul (nonzero t1) (nonzero t2))) })" for i j e
    by (cases "elem_at s s i j h"; cases "elem_at s t i j h") simp_all
  then show ?thesis unfolding Size_Of_Join_group_def Size_Of_Join_def by (simp only:)
qed


lemma holds_exI: "sketch_elem s = Some a \<Longrightarrow>
  h_double h a = Some (mat (unat (rows_no s)) (unat (buckets_no s)) M) \<Longrightarrow> holds h s (\<lambda>i j. of_int (M i j))"
  by (simp add: holds_def mat_def)


section \<open>Choosing the smallest counters over several columns\<close>

text \<open>
  The sequence the join size estimation runs on a sketch with several columns: fill with the
  maximum, take the smaller non-zero counters column by column, and reset what is still the maximum.
\<close>

fun choose_columns :: "FAGMS_Sketch \<Rightarrow> nat list \<Rightarrow> heap \<Rightarrow> heap option" where
  "choose_columns s [] h = Some h"
| "choose_columns s (c # cs) h = do { h \<leftarrow> Choose_Sketch_Min_Val s (int c) h; choose_columns s cs h }"

definition min_columns :: "FAGMS_Sketch \<Rightarrow> nat list \<Rightarrow> heap \<Rightarrow> heap option" where
  "min_columns s cs h = do { h \<leftarrow> Set_Sketch_With_Max s h; h \<leftarrow> choose_columns s cs h; Merge_Zero s h }"

definition choose_min :: "double \<Rightarrow> double \<Rightarrow> double" where
  "choose_min e v = (if v \<noteq> 0 \<and> \<bar>e\<bar> > \<bar>v\<bar> then v else e)"

text \<open>Column \<open>c\<close> of the separate elements holds \<open>V c\<close>, in an array other than the one at \<open>a\<close>.\<close>

definition column :: "FAGMS_Sketch \<Rightarrow> heap \<Rightarrow> addr \<Rightarrow> nat \<Rightarrow> (nat \<Rightarrow> double) \<Rightarrow> bool" where
  "column s h a c V \<longleftrightarrow> (\<exists>p. load (h_ptr h) (separate_sketch_elem s) c = Some p \<and> p \<noteq> a \<and>
     h_double h p = Some (map (\<lambda>i. Some (V i)) [0..<sketch_size s]))"

lemma separate_read_column:
  "column s h a c V \<Longrightarrow> i < sketch_size s \<Longrightarrow> separate_read s (int c) i (set_double h a xs) = Some (V i)"
  by (auto simp: column_def separate_read_def heap_simps load_Some)

lemma Choose_Sketch_Min_Val_eq:
  assumes "sketch_elem s = Some a" and "column s h a c V"
  shows "Choose_Sketch_Min_Val s (int c) (set_double h a (map (\<lambda>i. Some (E i)) [0..<sketch_size s])) =
    Some (set_double h a (map (\<lambda>i. Some (choose_min (E i) (V i))) [0..<sketch_size s]))"
  unfolding Choose_Sketch_Min_Val_def
proof (rule for_loop_array)
  fix i ys
  assume "i < sketch_size s" "length ys = sketch_size s" "ys ! i = map (\<lambda>i. Some (E i)) [0..<sketch_size s] ! i"
  then show "do { v \<leftarrow> separate_read s (int c) i (set_double h a ys);
       if v \<noteq> 0 then do {
         e \<leftarrow> load (h_double (set_double h a ys)) (sketch_elem s) i;
         if \<bar>v\<bar> < \<bar>e\<bar> then store_double (set_double h a ys) (sketch_elem s) i v else Some (set_double h a ys)
       } else Some (set_double h a ys) } = Some (set_double h a (ys[i := Some (choose_min (E i) (V i))]))"
    using assms by (auto simp: separate_read_column choose_min_def heap_simps
        intro!: arg_cong [where f = "set_double h a"] list_update_idem)
qed simp

lemma choose_columns_eq:
  assumes "sketch_elem s = Some a" and "\<And>c. c \<in> set cs \<Longrightarrow> column s h a c (V c)"
  shows "choose_columns s cs (set_double h a (map (\<lambda>i. Some (E i)) [0..<sketch_size s])) =
    Some (set_double h a (map (\<lambda>i. Some (fold (\<lambda>c e. choose_min e (V c i)) cs (E i))) [0..<sketch_size s]))"
  using assms(2)
proof (induction cs arbitrary: E)
  case (Cons c cs)
  then show ?case using Choose_Sketch_Min_Val_eq [OF assms(1), of h c "V c" E] by simp
qed simp

lemma fold_choose_min:
  "fold (\<lambda>c e. choose_min e (V c)) cs e = r \<Longrightarrow>
   (r = e \<or> r \<in> V ` set cs \<and> r \<noteq> 0) \<and> \<bar>r\<bar> \<le> \<bar>e\<bar> \<and> (\<forall>c\<in>set cs. V c \<noteq> 0 \<longrightarrow> \<bar>r\<bar> \<le> \<bar>V c\<bar>)"
proof (induction cs arbitrary: e)
  case (Cons c cs)
  have "\<bar>choose_min e (V c)\<bar> \<le> \<bar>e\<bar>" "V c \<noteq> 0 \<Longrightarrow> \<bar>choose_min e (V c)\<bar> \<le> \<bar>V c\<bar>"
    "choose_min e (V c) = e \<or> choose_min e (V c) = V c \<and> V c \<noteq> 0"
    by (auto simp: choose_min_def)
  then show ?case using Cons.IH [of "choose_min e (V c)"] Cons.prems by fastforce
qed simp

lemma Merge_Zero_eq:
  assumes "sketch_elem s = Some a"
  shows "Merge_Zero s (set_double h a (map (\<lambda>i. Some (E i)) [0..<sketch_size s])) =
    Some (set_double h a (map (\<lambda>i. Some (if E i = elem_max then 0 else E i)) [0..<sketch_size s]))"
  unfolding Merge_Zero_def
proof (rule for_loop_array)
  fix i ys
  assume "i < sketch_size s" "length ys = sketch_size s" "ys ! i = map (\<lambda>i. Some (E i)) [0..<sketch_size s] ! i"
  then show "do { v \<leftarrow> load (h_double (set_double h a ys)) (sketch_elem s) i;
       if v = elem_max then store_double (set_double h a ys) (sketch_elem s) i 0 else Some (set_double h a ys) } =
     Some (set_double h a (ys[i := Some (if E i = elem_max then 0 else E i)]))"
    using assms by (auto simp: heap_simps intro!: arg_cong [where f = "set_double h a"] list_update_idem)
qed simp

lemma Set_Sketch_With_Max_eq:
  assumes "sketch_elem s = Some a" and "h_double h a = Some xs" and "length xs = sketch_size s"
  shows "Set_Sketch_With_Max s h = Some (set_double h a (map (\<lambda>i. Some elem_max) [0..<sketch_size s]))"
proof -
  have "Set_Sketch_With_Max s (set_double h a xs) = Some (set_double h a (map (\<lambda>i. Some elem_max) [0..<sketch_size s]))"
    unfolding Set_Sketch_With_Max_def by (rule for_loop_array) (simp_all add: assms heap_simps)
  then show ?thesis by (simp add: set_double_id [OF assms(2)])
qed

text \<open>
  C18. Filling with the maximum, choosing over the columns \<open>cs\<close> and merging the remaining maxima
  leaves in every element the non-zero counter of smallest magnitude among the columns, and 0 when
  all of them are 0, provided that the counters are below \<open>UINT_MAX\<close> in magnitude.
\<close>

theorem min_columns_correct:
  assumes "sketch_elem s = Some a" and "h_double h a = Some xs" and "length xs = sketch_size s"
    and "\<forall>c\<in>set cs. column s h a c (V c)" and "\<forall>c\<in>set cs. \<forall>i. \<bar>V c i\<bar> < elem_max"
  shows "\<exists>r. min_columns s cs h = Some (set_double h a (map (\<lambda>i. Some (r i)) [0..<sketch_size s])) \<and>
    (\<forall>i. ((\<forall>c\<in>set cs. V c i = 0) \<longrightarrow> r i = 0) \<and>
      ((\<exists>c\<in>set cs. V c i \<noteq> 0) \<longrightarrow> r i \<noteq> 0 \<and> (\<exists>c\<in>set cs. r i = V c i) \<and>
        (\<forall>c\<in>set cs. V c i \<noteq> 0 \<longrightarrow> \<bar>r i\<bar> \<le> \<bar>V c i\<bar>)))"
proof (intro exI conjI allI impI ballI)
  let ?E = "\<lambda>i. fold (\<lambda>c e. choose_min e (V c i)) cs elem_max"
  let ?r = "\<lambda>i. if ?E i = elem_max then 0 else ?E i"
  have "choose_columns s cs (set_double h a (map (\<lambda>i. Some elem_max) [0..<sketch_size s])) =
      Some (set_double h a (map (\<lambda>i. Some (?E i)) [0..<sketch_size s]))"
    using choose_columns_eq [OF assms(1), of cs h V "\<lambda>i. elem_max"] assms(4) by simp
  then show "min_columns s cs h = Some (set_double h a (map (\<lambda>i. Some (?r i)) [0..<sketch_size s]))"
    by (simp add: min_columns_def Set_Sketch_With_Max_eq [OF assms(1-3)] Merge_Zero_eq [OF assms(1)])
  fix i
  note E = fold_choose_min [OF refl, of "\<lambda>c. V c i" cs elem_max]
  have pos: "0 < elem_max" by (simp add: elem_max_def)
  show "?r i = 0" if "\<forall>c\<in>set cs. V c i = 0" using E that by auto
  assume nz: "\<exists>c\<in>set cs. V c i \<noteq> 0"
  then have "\<bar>?E i\<bar> < elem_max" using E assms(5) by (meson order_le_less_trans)
  then have ne: "?E i \<noteq> elem_max" using pos by auto
  then have "?E i \<in> (\<lambda>c. V c i) ` set cs" "?E i \<noteq> 0" using E by blast+
  then show "?r i \<noteq> 0" "\<exists>c\<in>set cs. ?r i = V c i" using ne by auto
  fix c
  assume "c \<in> set cs" "V c i \<noteq> 0"
  then show "\<bar>?r i\<bar> \<le> \<bar>V c i\<bar>" using E ne by simp
qed

theorem min_columns_correct_witness:
  "\<exists>h r. min_columns (test_sketch 0 \<lparr>separate_sketch_elem := Some 9\<rparr>) [0, 1]
      (test_heap\<lparr>h_double := [0 \<mapsto> [None, None], 1 \<mapsto> [Some 0, Some 7], 2 \<mapsto> [Some 0, Some (- 4)]],
        h_ptr := [9 \<mapsto> [Some 1, Some 2]]\<rparr>) = Some h \<and> h_double h 0 = Some [Some 0, Some r] \<and> \<bar>r\<bar> \<le> 4"
proof -
  let ?s = "test_sketch 0 \<lparr>separate_sketch_elem := Some 9\<rparr>"
  let ?h = "test_heap\<lparr>h_double := [0 \<mapsto> [None, None], 1 \<mapsto> [Some 0, Some 7], 2 \<mapsto> [Some 0, Some (- 4)]],
        h_ptr := [9 \<mapsto> [Some 1, Some 2]]\<rparr>"
  define V :: "nat \<Rightarrow> nat \<Rightarrow> double" where "V c i = (if i = 1 then (if c = 0 then 7 else - 4) else 0)" for c i
  have sz: "sketch_size ?s = 2" by (simp add: sketch_size_def test_sketch_def)
  have "\<forall>c\<in>set [0, 1]. column ?s ?h 0 c (V c)"
    unfolding column_def sz by (simp add: test_sketch_def load_def upt_rec V_def)
  moreover have "\<forall>c\<in>set [0, 1]. \<forall>i. \<bar>V c i\<bar> < elem_max" by (simp add: elem_max_def V_def)
  moreover have "sketch_elem ?s = Some 0" "h_double ?h 0 = Some [None, None]" "length [None, None :: double option] = sketch_size ?s"
    unfolding sz by (simp_all add: test_sketch_def)
  ultimately obtain r where r: "min_columns ?s [0, 1] ?h = Some (set_double ?h 0 (map (\<lambda>i. Some (r i)) [0..<sketch_size ?s]))"
    and all: "\<forall>i. ((\<forall>c\<in>set [0, 1]. V c i = 0) \<longrightarrow> r i = 0) \<and>
      ((\<exists>c\<in>set [0, 1]. V c i \<noteq> 0) \<longrightarrow> r i \<noteq> 0 \<and> (\<exists>c\<in>set [0, 1]. r i = V c i) \<and>
        (\<forall>c\<in>set [0, 1]. V c i \<noteq> 0 \<longrightarrow> \<bar>r i\<bar> \<le> \<bar>V c i\<bar>))"
    using min_columns_correct [of ?s 0 ?h "[None, None]" "[0, 1]" V] by blast
  have "r 0 = 0" using all [rule_format, of 0] by (simp add: V_def)
  moreover have "\<bar>r 1\<bar> \<le> 4" using all [rule_format, of 1] by (simp add: V_def)
  moreover have "h_double (set_double ?h 0 (map (\<lambda>i. Some (r i)) [0..<sketch_size ?s])) 0 = Some [Some (r 0), Some (r 1)]"
    unfolding sz by (simp add: heap_simps upt_rec)
  ultimately show ?thesis using r by metis
qed

section \<open>Counting non-zero buckets\<close>

lemma for_loop_count:
  "for_loop 0 n (\<lambda>j cnt. Some (if P j then cnt + 1 else cnt)) (0 :: u32) = Some (of_nat (card {j. j < n \<and> P j}))"
proof -
  have "fold (\<lambda>j cnt. if P j then cnt + 1 else cnt) [0..<m] (0 :: u32) = of_nat (card {j. j < m \<and> P j})" for m
  proof (induction m)
    case (Suc m)
    have "{j. j < Suc m \<and> P j} = (if P m then insert m {j. j < m \<and> P j} else {j. j < m \<and> P j})"
      by (auto simp: less_Suc_eq)
    then show ?case using Suc by (simp add: add.commute)
  qed simp
  then show ?thesis by (subst for_loop_accumulate [where g = "\<lambda>j cnt. if P j then cnt + 1 else cnt"]) simp_all
qed

lemma fold_max_u32:
  "(\<And>i. i < n \<Longrightarrow> f i < 2 ^ 32) \<Longrightarrow>
   fold (\<lambda>i m. if of_nat (f i) > m then of_nat (f i) else m) [0..<n] (0 :: u32) = of_nat (fold (\<lambda>i m. max m (f i)) [0..<n] 0) \<and>
   fold (\<lambda>i m. max m (f i)) [0..<n] 0 < 2 ^ 32"
proof (induction n)
  case (Suc n)
  let ?m = "fold (\<lambda>i m. max m (f i)) [0..<n] 0"
  have m: "?m < 2 ^ 32" and fn: "f n < 2 ^ 32" using Suc by simp_all
  have "(of_nat ?m :: u32) < of_nat (f n) \<longleftrightarrow> ?m < f n"
    using m fn by (simp add: word_less_nat_alt unat_of_nat_u32)
  then show ?case using Suc m fn by (auto simp: max_def)
qed simp

text \<open>
  \<open>Max_Non_Zero_Buckets\<close> returns the largest number of non-zero counters in a row of the
  column, without wrapping around.
\<close>

theorem Max_Non_Zero_Buckets_correct:
  assumes "column s h a c V" and "unat (rows_no s) * unat (buckets_no s) < 2 ^ 32"
  shows "\<exists>m. Max_Non_Zero_Buckets s (int c) h = Some m \<and>
    unat m = fold (\<lambda>i m. max m (card {j. j < unat (buckets_no s) \<and> V (i * unat (buckets_no s) + j) \<noteq> 0})) [0..<unat (rows_no s)] 0"
proof -
  let ?R = "unat (rows_no s)" and ?B = "unat (buckets_no s)"
  define f where "f i = card {j. j < ?B \<and> V (i * ?B + j) \<noteq> 0}" for i
  have sz: "sketch_size s = ?R * ?B" unfolding sketch_size_def by (rule unat_mult_u32 [OF assms(2)])
  have rd: "separate_read s (int c) (unat (of_nat i * buckets_no s + of_nat j)) h = Some (V (i * ?B + j))"
    if "i < ?R" "j < ?B" for i j
    using assms(1) index_u32 [OF that assms(2)] mat_index [OF that]
    by (auto simp: column_def separate_read_def load_Some sz)
  have "card {j. j < ?B \<and> V (i * ?B + j) \<noteq> 0} \<le> card {..<?B}" for i by (rule card_mono) auto
  then have f: "f i < 2 ^ 32" for i
    using unat_less_u32 [of "buckets_no s"] unfolding f_def by (simp add: le_less_trans [of _ ?B])
  have row: "for_loop 0 ?B (\<lambda>j cnt. do { v \<leftarrow> separate_read s (int c) (unat (of_nat i * buckets_no s + of_nat j)) h;
      Some (if v \<noteq> 0 then cnt + 1 else cnt) }) (0 :: u32) = Some (of_nat (f i))" if "i < ?R" for i
  proof -
    have "for_loop 0 ?B (\<lambda>j cnt. do { v \<leftarrow> separate_read s (int c) (unat (of_nat i * buckets_no s + of_nat j)) h;
        Some (if v \<noteq> 0 then cnt + 1 else cnt) }) (0 :: u32) =
      for_loop 0 ?B (\<lambda>j cnt. Some (if V (i * ?B + j) \<noteq> 0 then cnt + 1 else cnt)) 0"
      by (subst (1 2) for_loop_accumulate [where g = "\<lambda>j cnt. if V (i * ?B + j) \<noteq> 0 then cnt + 1 else cnt"])
        (simp_all add: rd that)
    then show ?thesis unfolding for_loop_count f_def .
  qed
  have "Max_Non_Zero_Buckets s (int c) h = Some (fold (\<lambda>i m. if of_nat (f i) > m then of_nat (f i) else m) [0..<0 + ?R] 0)"
    unfolding Max_Non_Zero_Buckets_def by (rule for_loop_accumulate) (simp add: row)
  then show ?thesis using fold_max_u32 [of ?R f] f by (auto simp: unat_of_nat_u32 f_def)
qed

theorem Max_Non_Zero_Buckets_correct_witness:
  "\<exists>m. Max_Non_Zero_Buckets (test_sketch 0 \<lparr>separate_sketch_elem := Some 9\<rparr>) 0
      (test_heap\<lparr>h_double := [1 \<mapsto> [Some 0, Some 7]], h_ptr := [9 \<mapsto> [Some 1]]\<rparr>) = Some m \<and> unat m = 1"
proof -
  let ?s = "test_sketch 0 \<lparr>separate_sketch_elem := Some 9\<rparr>"
  let ?h = "test_heap\<lparr>h_double := [1 \<mapsto> [Some 0, Some 7]], h_ptr := [9 \<mapsto> [Some 1]]\<rparr>"
  have sz: "sketch_size ?s = 2" by (simp add: sketch_size_def test_sketch_def)
  have "column ?s ?h 0 0 (\<lambda>i. if i = 1 then 7 else 0)"
    unfolding column_def sz by (simp add: test_sketch_def load_def upt_rec)
  moreover have "{j :: nat. j < 2 \<and> (if j = Suc 0 then 7 else 0) \<noteq> (0 :: double)} = {1}" by auto
  ultimately show ?thesis
    using Max_Non_Zero_Buckets_correct [of ?s ?h 0 0 "\<lambda>i. if i = 1 then 7 else 0"] by (simp add: test_sketch_def)
qed

section \<open>Cloning a template\<close>

lemma for_loop_relational:
  assumes "\<And>i s. k \<le> i \<Longrightarrow> i < k + n \<Longrightarrow> P i s \<Longrightarrow> \<exists>s'. body i s = Some s' \<and> P (Suc i) s'" and "P k s"
  shows "\<exists>s'. for_loop k n body s = Some s' \<and> P (k + n) s'"
  using assms
proof (induction n arbitrary: k s)
  case (Suc n)
  obtain s1 where s1: "body k s = Some s1" "P (Suc k) s1" using Suc.prems(1) [of k s] Suc.prems(2) by auto
  have "\<exists>s'. for_loop (Suc k) n body s1 = Some s' \<and> P (Suc k + n) s'"
    by (rule Suc.IH) (use Suc.prems s1 in simp_all)
  then show ?case using s1 by simp
qed simp

text \<open>The columns a clone copies: column \<open>i\<close> of the clone is template array \<open>column_indices[i]\<close>.\<close>

definition template_columns ::
  "heap \<Rightarrow> addr option \<Rightarrow> nat list \<Rightarrow> nat \<Rightarrow> nat \<Rightarrow> (nat \<Rightarrow> double list) \<Rightarrow> bool" where
  "template_columns h tse column_indices k n V \<longleftrightarrow>
     (\<forall>i<k. \<exists>col src. list_read column_indices i = Some col \<and> load (h_ptr h) tse col = Some src \<and>
        src < h_next h \<and> h_double h src = Some (map Some (V i)) \<and> length (V i) = n) \<and>
     (\<forall>t. tse = Some t \<longrightarrow> t < h_next h)"

text \<open>The state after \<open>i\<close> columns: columns below \<open>i\<close> are fresh copies, old arrays are untouched.\<close>

definition clone_inv :: "heap \<Rightarrow> nat \<Rightarrow> (nat \<Rightarrow> double list) \<Rightarrow> nat \<Rightarrow> heap \<Rightarrow> bool" where
  "clone_inv h0 k V i h \<longleftrightarrow>
     h_next h = h_next h0 + 2 + i \<and>
     h_ptr h = (h_ptr h0)(h_next h0 + 1 \<mapsto> map (\<lambda>j. Some (h_next h0 + 2 + j)) [0..<i] @ replicate (k - i) None) \<and>
     (\<forall>j<i. h_double h (h_next h0 + 2 + j) = Some (map Some (V j))) \<and>
     (\<forall>a<h_next h0. h_double h a = h_double h0 a) \<and>
     h_bucket h = h_bucket h0 \<and> h_pm1 h = h_pm1 h0"

lemma clone_column:
  assumes inv: "clone_inv h0 k V i h" and i: "i < k" and tc: "template_columns h0 tse column_indices k n V"
  shows "\<exists>h'. (do {
          let (ei, h) = new_double n h;
          h \<leftarrow> store_ptr h (Some (h_next h0 + 1)) i ei;
          col_idx \<leftarrow> list_read column_indices i;
          for_loop 0 n (\<lambda>j h. do {
            src \<leftarrow> load (h_ptr h) tse col_idx;
            v \<leftarrow> load (h_double h) (Some src) j;
            store_double h (Some ei) j v
          }) h }) = Some h' \<and> clone_inv h0 k V (Suc i) h'"
proof -
  let ?N = "h_next h0" and ?ei = "h_next h0 + 2 + i"
  obtain col src where col: "list_read column_indices i = Some col" "load (h_ptr h0) tse col = Some src" "src < ?N"
    "h_double h0 src = Some (map Some (V i))" "length (V i) = n"
    using tc i unfolding template_columns_def by blast
  let ?ps = "\<lambda>i. map (\<lambda>j. Some (?N + 2 + j)) [0..<i] @ replicate (k - i) None"
  define h1 where "h1 = h\<lparr>h_ptr := (h_ptr h0)(?N + 1 \<mapsto> ?ps (Suc i)), h_next := Suc ?ei\<rparr>"
  have ps: "(?ps i)[i := Some ?ei] = ?ps (Suc i)"
    using i by (cases "k - i") (auto simp: list_update_append Suc_diff_Suc replicate_app_Cons_same split: nat.split)
  have new: "new_double n h = (?ei, h\<lparr>h_double := (h_double h)(?ei \<mapsto> replicate n None), h_next := Suc ?ei\<rparr>)"
    using inv by (simp add: new_double_def clone_inv_def)
  have st: "store_ptr (h\<lparr>h_double := (h_double h)(?ei \<mapsto> replicate n None), h_next := Suc ?ei\<rparr>) (Some (?N + 1)) i ?ei =
      Some (set_double h1 ?ei (replicate n None))"
    using inv i ps by (simp add: store_ptr_def store_def clone_inv_def h1_def set_double_def)
  have src: "load (h_ptr h1) tse col = Some src" "h_double h1 src = Some (map Some (V i))"
    using col inv tc by (auto simp: h1_def load_def template_columns_def clone_inv_def split: bind_splits)
  have loop: "for_loop 0 n (\<lambda>j h. do { src \<leftarrow> load (h_ptr h) tse col; v \<leftarrow> load (h_double h) (Some src) j; store_double h (Some ?ei) j v })
      (set_double h1 ?ei (replicate n None)) = Some (set_double h1 ?ei (map (\<lambda>j. Some (V i ! j)) [0..<n]))"
    by (rule for_loop_array) (use col src in \<open>simp_all add: heap_simps load_Some\<close>)
  have "map (\<lambda>j. Some (V i ! j)) [0..<n] = map Some (V i)" using col(5) by (simp add: list_eq_iff_nth_eq)
  then have "clone_inv h0 k V (Suc i) (set_double h1 ?ei (map (\<lambda>j. Some (V i ! j)) [0..<n]))"
    using inv by (auto simp: clone_inv_def h1_def heap_simps less_Suc_eq)
  then show ?thesis using loop st by (simp add: new col(1))
qed

text \<open>
  C20. A clone is independent of its template: \<open>Clone_Sketch\<close> succeeds, shares the seeds, and gives
  every column a fresh array with the elements of the template column \<open>column_indices[i]\<close>, while
  every array that existed before keeps its contents; \<open>sketch_elem\<close> of the clone is not initialised.
\<close>

theorem Clone_Sketch_copies:
  assumes "template_columns h tse column_indices (unat (keys_no s)) (sketch_size s) V"
  shows "\<exists>s' h'. Clone_Sketch s tse column_indices h = Some (s', h') \<and>
    xi_bucket s' = xi_bucket s \<and> xi_pm1 s' = xi_pm1 s \<and> same_shape s s' \<and> keys_no s' = keys_no s \<and>
    sketch_elem s' = Some (h_next h) \<and>
    (\<forall>i<unat (keys_no s). load (h_ptr h') (separate_sketch_elem s') i = Some (h_next h + 2 + i) \<and>
      h_double h' (h_next h + 2 + i) = Some (map Some (V i))) \<and>
    (\<forall>a<h_next h. h_double h' a = h_double h a \<and> h_ptr h' a = h_ptr h a)"
proof -
  let ?k = "unat (keys_no s)" and ?n = "sketch_size s"
  let ?h1 = "snd (new_ptr ?k (snd (new_double ?n h)))"
  let ?body = "\<lambda>i h'. do {
          let (ei, h') = new_double ?n h';
          h' \<leftarrow> store_ptr h' (Some (h_next h + 1)) i ei;
          col_idx \<leftarrow> list_read column_indices i;
          for_loop 0 ?n (\<lambda>j h'. do {
            src \<leftarrow> load (h_ptr h') tse col_idx;
            v \<leftarrow> load (h_double h') (Some src) j;
            store_double h' (Some ei) j v
          }) h' }"
  have init: "clone_inv h ?k V 0 ?h1" by (simp add: clone_inv_def new_ptr_def new_double_def)
  obtain h' where h': "for_loop 0 ?k ?body ?h1 = Some h'" "clone_inv h ?k V ?k h'"
    using for_loop_relational [of 0 ?k "clone_inv h ?k V" ?body ?h1] init clone_column [OF _ _ assms] by auto
  have "Clone_Sketch s tse column_indices h = Some (s\<lparr>sketch_elem := Some (h_next h), separate_sketch_elem := Some (h_next h + 1)\<rparr>, h')"
    using h'(1) unfolding Clone_Sketch_def Let_def
    by (simp add: new_ptr_def new_double_def)
  then show ?thesis using h'(2) by (auto simp: clone_inv_def same_shape_def load_Some)
qed

theorem Clone_Sketch_copies_witness:
  "\<exists>s' h'. Clone_Sketch (test_sketch 0) (Some 5) [1]
      (test_heap\<lparr>h_double := [2 \<mapsto> [Some 1, Some 7]], h_ptr := [5 \<mapsto> [None, Some 2]], h_next := 6\<rparr>) = Some (s', h') \<and>
    h_double h' 8 = Some [Some 1, Some 7] \<and> h_double h' 2 = Some [Some 1, Some 7]"
proof -
  let ?h = "test_heap\<lparr>h_double := [2 \<mapsto> [Some 1, Some 7]], h_ptr := [5 \<mapsto> [None, Some 2]], h_next := 6\<rparr>"
  have sz: "sketch_size (test_sketch 0) = 2" "unat (keys_no (test_sketch 0)) = 1"
    by (simp_all add: sketch_size_def test_sketch_def)
  have "template_columns ?h (Some 5) [1] (unat (keys_no (test_sketch 0))) (sketch_size (test_sketch 0)) (\<lambda>i. [1, 7])"
    unfolding template_columns_def sz by (simp add: list_read_def load_def)
  from Clone_Sketch_copies [OF this] obtain s' h' where "Clone_Sketch (test_sketch 0) (Some 5) [1] ?h = Some (s', h')"
    "h_double h' 8 = Some (map Some [1, 7])" "h_double h' 2 = h_double ?h 2"
    unfolding sz by (auto simp: sz)
  then show ?thesis by simp
qed

section \<open>Sharing and destruction\<close>

text \<open>
  C27. \<open>Copy_Sketch_Template\<close> with \<open>seeds_only\<close> unset shares the template's array instead of
  copying it: after the sketch built from a one-column template is destroyed, the elements of the
  template are gone, and destroying the template is an invalid second deletion.
\<close>

theorem Copy_Sketch_Template_dangling:
  assumes "FAGMS_Sketch_template b r xbs xps test_heap = Some (tpl, h1)" and "FAGMS_Sketch_new b r 1 h1 = Some (s, h2)"
    and "Copy_Sketch_Template s tpl 0 False h2 = Some h3" and "FAGMS_Sketch_destroy s h3 = Some h4"
  shows "\<forall>i. load (h_double h4) (sketch_elem tpl) i = None"
proof -
  obtain a where a: "sketch_elem tpl = Some a"
    using FAGMS_Sketch_template_eq [of b r xbs xps test_heap] assms(1) by (metis option.inject prod.inject)
  obtain e se where s: "sketch_elem s = Some e" "separate_sketch_elem s = Some se" "keys_no s = 1"
    using assms(2) by (auto simp: FAGMS_Sketch_new_def Let_def case_prod_beta split: bind_splits)
  have p: "load (h_ptr h3) (Some se) 0 = Some a"
    using assms(3) a s by (auto simp: Copy_Sketch_Template_def store_ptr_def store_def load_def split: bind_splits if_splits)
  have "h_double h4 a = None"
    using assms(4) s p by (auto simp: FAGMS_Sketch_destroy_def delete_double_def split: if_splits bind_splits)
  then show ?thesis by (simp add: a load_Some)
qed

lemmas sketch_run_defs = FAGMS_Sketch_template_def FAGMS_Sketch_new_def Copy_Sketch_Template_def FAGMS_Sketch_destroy_def
  zero_fill_def new_double_def new_ptr_def new_bucket_def new_pm1_def store_double_def store_ptr_def store_bucket_def
  store_pm1_def store_def load_def delete_double_def sketch_size_def test_heap_def

theorem Copy_Sketch_Template_dangling_witness:
  "\<exists>tpl h1 s h2 h3 h4. FAGMS_Sketch_template 1 1 [] [] test_heap = Some (tpl, h1) \<and> FAGMS_Sketch_new 1 1 1 h1 = Some (s, h2) \<and>
    Copy_Sketch_Template s tpl 0 False h2 = Some h3 \<and> FAGMS_Sketch_destroy s h3 = Some h4 \<and>
    load (h_double h3) (sketch_elem tpl) 0 = Some 0 \<and> load (h_double h4) (sketch_elem tpl) 0 = None"
proof -
  obtain tpl h1 where 1: "FAGMS_Sketch_template 1 1 [] [] test_heap = Some (tpl, h1)"
    and t: "tpl = fst (the (FAGMS_Sketch_template 1 1 [] [] test_heap))" "h1 = snd (the (FAGMS_Sketch_template 1 1 [] [] test_heap))"
    by (simp add: sketch_run_defs)
  obtain s h2 where 2: "FAGMS_Sketch_new 1 1 1 h1 = Some (s, h2)"
    and s: "s = fst (the (FAGMS_Sketch_new 1 1 1 h1))" "h2 = snd (the (FAGMS_Sketch_new 1 1 1 h1))"
    unfolding t by (simp add: sketch_run_defs)
  obtain h3 where 3: "Copy_Sketch_Template s tpl 0 False h2 = Some h3" and h3: "h3 = the (Copy_Sketch_Template s tpl 0 False h2)"
    unfolding s t by (simp add: sketch_run_defs)
  obtain h4 where 4: "FAGMS_Sketch_destroy s h3 = Some h4"
    unfolding h3 s t by (simp add: sketch_run_defs)
  have "load (h_double h3) (sketch_elem tpl) 0 = Some 0" unfolding h3 s t by (simp add: sketch_run_defs)
  then show ?thesis using Copy_Sketch_Template_dangling [OF 1 2 3 4] 1 2 3 4 by blast
qed

end
