(* ===== verification/Estimate.thy ===== *)
theory Estimate
  imports SketchProps
begin

text \<open>
  \<open>estimate_join_size\<close> of \<open>QueryEngine/RelAlgExecutor.cpp\<close>: the cardinality estimate of the join of
  a set of tables, memoised in \<open>bottom_up_table\<close> under a key that lists the sorted node numbers.
  The map of join columns and the map of sketches are parameters of the call; the table and the
  heap of the sketches are its state. A lookup \<open>join_cols_info[n]\<close> of an absent node yields the
  empty list it inserts, and a sketch that is missing is a null pointer.
\<close>

section \<open>The key of a set of nodes\<close>

text \<open>\<open>std::ostream_iterator<size_t>(os, " ")\<close>: each number in decimal, followed by a space.\<close>

function decimal :: "nat \<Rightarrow> string" where
  "decimal n = (if n < 10 then [char_of (48 + n)] else decimal (n div 10) @ [char_of (48 + n mod 10)])"
  by pat_completeness auto
termination by (relation "measure id") auto

declare decimal.simps [simp del]

definition join_tables :: "nat list \<Rightarrow> string" where
  "join_tables nodes = concat (map (\<lambda>n. decimal n @ '' '') (sort nodes))"

section \<open>Join connections and state\<close>

record join_info =
  ji_table :: nat
  ji_column :: nat
  ji_other_node :: nat
  ji_other_table :: nat
  ji_other_column :: nat

record est_state =
  bottom_up_table :: "string \<rightharpoonup> double"
  est_heap :: heap

definition join_nodes_of :: "(nat \<rightharpoonup> join_info list) \<Rightarrow> nat \<Rightarrow> join_info list" where
  "join_nodes_of join_cols_info n = (case join_cols_info n of None \<Rightarrow> [] | Some js \<Rightarrow> js)"

text \<open>The index of the first join with \<open>other_node\<close>, where the loops \<open>break\<close>.\<close>

fun first_join :: "nat \<Rightarrow> join_info list \<Rightarrow> nat \<Rightarrow> nat option" where
  "first_join i [] other_node = None"
| "first_join i (j # js) other_node =
     (if ji_other_node j = other_node then Some i else first_join (i + 1) js other_node)"

definition add_first_join :: "FAGMS_Sketch \<Rightarrow> join_info list \<Rightarrow> nat \<Rightarrow> heap \<Rightarrow> heap option" where
  "add_first_join sketch join_nodes other_node h =
     (case first_join 0 join_nodes other_node of
        None \<Rightarrow> Some h
      | Some join_idx \<Rightarrow> Add_Sketch_Values sketch (int join_idx) h)"

definition choose_first_join :: "FAGMS_Sketch \<Rightarrow> join_info list \<Rightarrow> nat \<Rightarrow> heap \<Rightarrow> heap option" where
  "choose_first_join sketch join_nodes other_node h =
     (case first_join 0 join_nodes other_node of
        None \<Rightarrow> Some h
      | Some join_idx \<Rightarrow> Choose_Sketch_Min_Val sketch (int join_idx) h)"

fun foldM :: "('a \<Rightarrow> 's \<Rightarrow> 's option) \<Rightarrow> 'a list \<Rightarrow> 's \<Rightarrow> 's option" where
  "foldM f [] s = Some s"
| "foldM f (x # xs) s = do { s \<leftarrow> f x s; foldM f xs s }"

section \<open>The estimate\<close>

text \<open>The branch \<open>tree_size == 2\<close>.\<close>

definition estimate_pair ::
  "FAGMS_Sketch \<Rightarrow> (nat \<rightharpoonup> FAGMS_Sketch) \<Rightarrow> (nat \<rightharpoonup> join_info list) \<Rightarrow> nat \<Rightarrow> nat \<Rightarrow> heap \<Rightarrow> (double \<times> heap) option" where
  "estimate_pair base_sketch fagms_sketches join_cols_info n0 n1 h =
     do {
       h \<leftarrow> add_first_join base_sketch (join_nodes_of join_cols_info n0) n1 h;
       other_sketch \<leftarrow> fagms_sketches n1;
       h \<leftarrow> add_first_join other_sketch (join_nodes_of join_cols_info n1) n0 h;
       v \<leftarrow> Size_Of_Join base_sketch other_sketch h;
       Some (v, h)
     }"

text \<open>The branch \<open>tree_size > 2\<close>: the body of the loop over the nodes, and the branch.\<close>

definition merge_node_columns ::
  "(nat \<rightharpoonup> FAGMS_Sketch) \<Rightarrow> (nat \<rightharpoonup> join_info list) \<Rightarrow> nat list \<Rightarrow> nat \<Rightarrow> heap \<Rightarrow> heap option" where
  "merge_node_columns fagms_sketches join_cols_info traversal_nodes n h =
     do {
       other_sketch \<leftarrow> fagms_sketches n;
       h \<leftarrow> Set_Sketch_With_Max other_sketch h;
       h \<leftarrow> foldM (choose_first_join other_sketch (join_nodes_of join_cols_info n)) traversal_nodes h;
       Merge_Zero other_sketch h
     }"

definition estimate_group ::
  "FAGMS_Sketch \<Rightarrow> (nat \<rightharpoonup> FAGMS_Sketch) \<Rightarrow> (nat \<rightharpoonup> join_info list) \<Rightarrow> nat list \<Rightarrow> heap \<Rightarrow> (double \<times> heap) option" where
  "estimate_group base_sketch fagms_sketches join_cols_info traversal_nodes h =
     do {
       h \<leftarrow> foldM (merge_node_columns fagms_sketches join_cols_info traversal_nodes) traversal_nodes h;
       v \<leftarrow> Size_Of_Join_group base_sketch (map (\<lambda>n. the (fagms_sketches n)) (tl traversal_nodes)) h;
       Some (v, h)
     }"

definition estimate_join_size ::
  "FAGMS_Sketch \<Rightarrow> (nat \<rightharpoonup> FAGMS_Sketch) \<Rightarrow> (nat \<rightharpoonup> join_info list) \<Rightarrow> nat list \<Rightarrow> est_state \<Rightarrow> (double \<times> est_state) option" where
  "estimate_join_size base_sketch fagms_sketches join_cols_info traversal_nodes st =
     (let key = join_tables traversal_nodes
      in case bottom_up_table st key of
           Some v \<Rightarrow> Some (dadd 0 v, st)
         | None \<Rightarrow>
             if length traversal_nodes = 2 then do {
               (v, h) \<leftarrow> estimate_pair base_sketch fagms_sketches join_cols_info
                 (traversal_nodes ! 0) (traversal_nodes ! 1) (est_heap st);
               Some (v, \<lparr>bottom_up_table = (bottom_up_table st)(key \<mapsto> v), est_heap = h\<rparr>)
             }
             else if length traversal_nodes > 2 then do {
               (v, h) \<leftarrow> estimate_group base_sketch fagms_sketches join_cols_info traversal_nodes (est_heap st);
               Some (v, \<lparr>bottom_up_table = (bottom_up_table st)(key \<mapsto> v), est_heap = h\<rparr>)
             }
             else Some (0, st))"

section \<open>Keys are faithful\<close>

lemma decimal_digits: "c \<in> set (decimal n) \<Longrightarrow> c \<noteq> CHR '' ''"
proof (induction n rule: decimal.induct)
  case (1 n)
  have d: "char_of (48 + k) \<noteq> CHR '' ''" if "k < 10" for k :: nat
  proof
    assume "char_of (48 + k) = CHR '' ''"
    then have "of_char (char_of (48 + k) :: char) = (of_char (CHR '' '') :: nat)" by simp
    then show False using that by simp
  qed
  show ?case
  proof (cases "n < 10")
    case True
    then show ?thesis using 1 d [of n] by (simp add: decimal.simps [of n])
  next
    case False
    then show ?thesis using 1 d [of "n mod 10"] by (auto simp: decimal.simps [of n])
  qed
qed

lemma char_of_digit_inj: "k < 10 \<Longrightarrow> l < 10 \<Longrightarrow> (char_of (48 + k) :: char) = char_of (48 + l) \<Longrightarrow> k = (l :: nat)"
proof -
  assume kl: "k < 10" "l < 10" and "(char_of (48 + k) :: char) = char_of (48 + l)"
  then have "of_char (char_of (48 + k) :: char) = (of_char (char_of (48 + l) :: char) :: nat)" by simp
  then show ?thesis using kl by simp
qed

lemma decimal_not_Nil: "decimal n \<noteq> []"
  by (simp add: decimal.simps [of n])

lemma decimal_snoc: "decimal n = xs @ [char_of (48 + k)] \<Longrightarrow> k < 10 \<Longrightarrow> k = n mod 10 \<and> (if n < 10 then xs = [] else xs = decimal (n div 10))"
  using char_of_digit_inj [of k "n mod 10"] by (auto simp: decimal.simps [of n] split: if_splits)

lemma decimal_inj: "decimal m = decimal n \<Longrightarrow> m = n"
proof (induction m arbitrary: n rule: decimal.induct)
  case (1 m)
  have m: "decimal m = (if m < 10 then [] else decimal (m div 10)) @ [char_of (48 + m mod 10)]"
    by (simp add: decimal.simps [of m])
  have "decimal n = (if m < 10 then [] else decimal (m div 10)) @ [char_of (48 + m mod 10)]"
    by (rule trans [OF 1(2) [symmetric] m])
  note snoc = decimal_snoc [OF this]
  have "m mod 10 = n mod 10"
    and "if n < 10 then (if m < 10 then [] else decimal (m div 10)) = []
      else (if m < 10 then [] else decimal (m div 10)) = decimal (n div 10)" using snoc by simp_all
  moreover have "m div 10 = n div 10"
  proof (cases "m < 10"; cases "n < 10")
    assume "\<not> m < 10" "\<not> n < 10"
    then show ?thesis using 1(1) [of "n div 10"] snoc by simp
  qed (use snoc decimal_not_Nil [of "m div 10"] decimal_not_Nil [of "n div 10"] in auto)
  ultimately show ?case by (metis div_mult_mod_eq)
qed

lemma space_separated_inj:
  "concat (map (\<lambda>n. decimal n @ '' '') ns) = concat (map (\<lambda>n. decimal n @ '' '') ms) \<Longrightarrow> ns = ms"
proof (induction ns arbitrary: ms)
  case Nil
  then show ?case by (cases ms) (simp_all add: decimal_not_Nil)
next
  case (Cons n ns)
  then obtain m ms' where ms: "ms = m # ms'" by (cases ms) (simp_all add: decimal_not_Nil)
  have split: "xs = ys \<and> us = vs"
    if "xs @ CHR '' '' # us = ys @ CHR '' '' # vs" "CHR '' '' \<notin> set xs" "CHR '' '' \<notin> set ys" for xs ys us vs :: string
    using that by (induction xs arbitrary: ys) (case_tac ys; auto)+
  have "decimal n = decimal m \<and> concat (map (\<lambda>n. decimal n @ '' '') ns) = concat (map (\<lambda>n. decimal n @ '' '') ms')"
    using Cons.prems decimal_digits [of _ n] decimal_digits [of _ m] unfolding ms by (intro split) auto
  then show ?case using Cons.IH [of ms'] decimal_inj [of n m] ms by simp
qed

text \<open>
  C11. The memo key of a set of tables is faithful: two traversals get the same key exactly when they
  join the same tables, whatever the order.
\<close>

theorem join_tables_faithful: "join_tables ns = join_tables ms \<longleftrightarrow> mset ns = mset ms"
proof
  assume "join_tables ns = join_tables ms"
  then have "sort ns = sort ms" unfolding join_tables_def by (rule space_separated_inj)
  then show "mset ns = mset ms" by (metis mset_sort)
next
  assume "mset ns = mset ms"
  then have "sort ns = sort ms" by (metis mset_sort properties_for_sort sorted_sort)
  then show "join_tables ns = join_tables ms" by (simp add: join_tables_def)
qed

section \<open>Memoised estimators\<close>

text \<open>
  What the enumeration relies on: an estimate is a non-negative double, it is remembered, and
  nothing remembered is ever changed.
\<close>

definition est_step :: "(nat list \<Rightarrow> 's \<Rightarrow> (double \<times> 's) option) \<Rightarrow> nat list \<Rightarrow> 's \<Rightarrow> 's option" where
  "est_step est ns st = map_option snd (est ns st)"

lemma est_step_Some: "est_step est ns st = Some st' \<longleftrightarrow> (\<exists>v. est ns st = Some (v, st'))"
  by (auto simp: est_step_def)

locale memo_estimator =
  fixes est :: "nat list \<Rightarrow> 's \<Rightarrow> (double \<times> 's) option"
    and val :: "'s \<Rightarrow> nat list \<Rightarrow> double option"
    and good :: "'s \<Rightarrow> bool"
  assumes est_double: "good st \<Longrightarrow> est nodes st = Some (v, st') \<Longrightarrow> 0 \<le> v \<and> round64 v = v \<and> good st'"
    and est_val: "good st \<Longrightarrow> 2 \<le> length nodes \<Longrightarrow> est nodes st = Some (v, st') \<Longrightarrow> val st' nodes = Some v"
    and est_grow: "est nodes st = Some (v, st') \<Longrightarrow> val st ns = Some w \<Longrightarrow> val st' ns = Some w"
    and est_hit: "good st \<Longrightarrow> val st nodes = Some v \<Longrightarrow> est nodes st = Some (v, st)"
    and val_perm: "mset ns = mset ms \<Longrightarrow> val st ns = val st ms"
begin

lemma est_steps:
  "good st \<Longrightarrow> foldM (est_step est) others st = Some st' \<Longrightarrow> good st' \<and> (\<forall>ns w. val st ns = Some w \<longrightarrow> val st' ns = Some w)"
proof (induction others arbitrary: st)
  case (Cons ns others)
  then obtain v st1 where 1: "est ns st = Some (v, st1)" "foldM (est_step est) others st1 = Some st'"
    by (auto simp: est_step_Some split: bind_splits)
  then show ?case using Cons.IH [of st1] est_double [OF Cons.prems(1) 1(1)] est_grow [OF 1(1)] by blast
qed simp

lemma memo:
  assumes "good st" and "est nodes st = Some (v, st1)" and "2 \<le> length nodes"
    and "foldM (est_step est) others st1 = Some st2" and "mset perm = mset nodes"
  shows "est perm st2 = Some (v, st2)"
proof -
  have "good st1" using est_double [OF assms(1,2)] by simp
  moreover have "val st1 nodes = Some v" by (rule est_val [OF assms(1,3,2)])
  ultimately have "good st2" "val st2 nodes = Some v" using est_steps [OF _ assms(4)] by blast+
  then show ?thesis using val_perm [OF assms(5)] by (intro est_hit) simp_all
qed

end

section \<open>The sketch estimator\<close>

definition est_good :: "est_state \<Rightarrow> bool" where
  "est_good st \<longleftrightarrow> (\<forall>k v. bottom_up_table st k = Some v \<longrightarrow> 0 \<le> v \<and> round64 v = v)"

definition est_val :: "est_state \<Rightarrow> nat list \<Rightarrow> double option" where
  "est_val st nodes = bottom_up_table st (join_tables nodes)"

lemma for_loop_preserves:
  assumes "for_loop k n body s = Some s'" and "P s" and "\<And>i s s'. body i s = Some s' \<Longrightarrow> P s \<Longrightarrow> P s'"
  shows "P s'"
  using assms(1,2)
proof (induction n arbitrary: k s)
  case (Suc n)
  then obtain s1 where "body k s = Some s1" "for_loop (k + 1) n body s1 = Some s'" by (auto split: bind_splits)
  then show ?case using Suc.IH Suc.prems(2) assms(3) by blast
qed simp

lemma round64_abs: "round64 v = v \<Longrightarrow> round64 \<bar>v\<bar> = \<bar>v\<bar>"
  by (simp add: abs_if round64_minus)

lemma row_estimates_double:
  assumes "row_estimates s row = Some est" and "\<And>i e. row i = Some e \<Longrightarrow> 0 \<le> e \<and> round64 e = e"
  shows "\<forall>e\<in>set est. 0 \<le> e \<and> round64 e = e"
  using assms(1) unfolding row_estimates_def
  by (rule for_loop_preserves) (use assms(2) in \<open>auto split: bind_splits\<close>)

lemma row_estimates_length:
  assumes "row_estimates s row = Some est"
  shows "length est = unat (rows_no s)"
proof -
  have "for_loop k n (\<lambda>i est. do { e \<leftarrow> row i; Some (est @ [e]) }) acc = Some est \<Longrightarrow> length est = length acc + n" for k n acc
    by (induction n arbitrary: k acc) (auto split: bind_splits)
  then show ?thesis using assms unfolding row_estimates_def by fastforce
qed

lemma sint_nonneg_u32:
  assumes "0 \<le> sint (x :: u32)"
  shows "sint x = int (unat x)"
proof -
  have s: "sint x = signed_take_bit 31 (uint x)" by (simp add: sint_uint)
  then have nb: "\<not> bit (uint x) 31" using assms by (simp add: signed_take_bit_nonnegative_iff)
  then have "sint x = take_bit 31 (uint x)" unfolding s by (rule signed_take_bit_eq_if_positive)
  also have "\<dots> = take_bit (Suc 31) (uint x)" using nb by (simp only: take_bit_Suc_from_most) simp
  also have "\<dots> = uint x" using int_unat_u32 [of x] by (simp add: take_bit_int_eq_self_iff)
  finally show ?thesis by simp
qed

lemma Median_count_pos: "Median x n = Some v \<Longrightarrow> 0 < n"
proof (rule ccontr)
  assume m: "Median x n = Some v" and "\<not> 0 < n"
  then have "n = 0" by (auto simp: Median_def split: if_splits)
  moreover have "bubble_sort 0 [] = Some []" using bubble_sort_sorts [of "[]" 0] by simp
  ultimately show False using m by (simp add: Median_def array_read_def)
qed

lemma median_of_rows_double:
  assumes "row_estimates s row = Some est" and "\<And>i e. row i = Some e \<Longrightarrow> 0 \<le> e \<and> round64 e = e"
    and "Median est (sint (rows_no s)) = Some v"
  shows "0 \<le> v \<and> round64 v = v"
proof -
  have pos: "0 < sint (rows_no s)" by (rule Median_count_pos [OF assms(3)])
  then have len: "sint (rows_no s) = int (length est)"
    using sint_nonneg_u32 [of "rows_no s"] row_estimates_length [OF assms(1)] by simp
  then have "est \<noteq> []" using pos by auto
  then show ?thesis
    using assms(3) Median_nonneg [of est] Median_double [of est v] row_estimates_double [OF assms(1,2)]
    unfolding len by auto
qed

lemma row_abs_double:
  assumes "do { e \<leftarrow> for_loop k n body 0; Some \<bar>e\<bar> } = Some x" and "\<And>j e e'. body j e = Some e' \<Longrightarrow> round64 e' = e'"
  shows "0 \<le> x \<and> round64 x = x"
proof -
  obtain e where e: "for_loop k n body 0 = Some e" "x = \<bar>e\<bar>" using assms(1) by (auto split: bind_splits)
  have "round64 e = e" by (rule for_loop_preserves [OF e(1)]) (use assms(2) in auto)
  then show ?thesis by (simp add: e(2) round64_abs)
qed

lemma median_bind_double:
  assumes "do { est \<leftarrow> row_estimates s row; Median est (sint (rows_no s)) } = Some v"
    and "\<And>i e. row i = Some e \<Longrightarrow> 0 \<le> e \<and> round64 e = e"
  shows "0 \<le> v \<and> round64 v = v"
  using assms(1) median_of_rows_double [OF _ assms(2)] by (auto split: bind_splits)

lemma Size_Of_Join_double: "Size_Of_Join s t h = Some v \<Longrightarrow> 0 \<le> v \<and> round64 v = v"
  unfolding Size_Of_Join_def
  by (erule median_bind_double, erule row_abs_double) (auto split: bind_splits)

lemma Size_Of_Join_group_double: "Size_Of_Join_group s ts h = Some v \<Longrightarrow> 0 \<le> v \<and> round64 v = v"
  unfolding Size_Of_Join_group_def
  by (erule median_bind_double, erule row_abs_double) (auto split: bind_splits)

lemma estimate_join_size_cases:
  assumes "estimate_join_size b s js nodes st = Some (v, st')"
  obtains (hit) w where "bottom_up_table st (join_tables nodes) = Some w" and "v = dadd 0 w" and "st' = st"
  | (miss) h where "bottom_up_table st (join_tables nodes) = None" and "2 \<le> length nodes" and "0 \<le> v" and "round64 v = v"
      and "st' = \<lparr>bottom_up_table = (bottom_up_table st)(join_tables nodes \<mapsto> v), est_heap = h\<rparr>"
  | (short) "bottom_up_table st (join_tables nodes) = None" and "length nodes < 2" and "v = 0" and "st' = st"
proof (cases "bottom_up_table st (join_tables nodes)")
  case (Some w)
  then show ?thesis using assms by (intro hit [of w]) (simp_all add: estimate_join_size_def)
next
  case None
  consider "length nodes = 2" | "length nodes > 2" | "length nodes < 2" by linarith
  then show ?thesis
  proof cases
    case 1
    then obtain h where "estimate_pair b s js (nodes ! 0) (nodes ! 1) (est_heap st) = Some (v, h)"
      and st': "st' = \<lparr>bottom_up_table = (bottom_up_table st)(join_tables nodes \<mapsto> v), est_heap = h\<rparr>"
      using assms None by (auto simp: estimate_join_size_def split: bind_splits)
    then have "0 \<le> v \<and> round64 v = v"
      by (auto simp: estimate_pair_def split: bind_splits dest: Size_Of_Join_double)
    then show ?thesis using 1 None st' by (intro miss [of h]) simp_all
  next
    case 2
    then obtain h where "estimate_group b s js nodes (est_heap st) = Some (v, h)"
      and st': "st' = \<lparr>bottom_up_table = (bottom_up_table st)(join_tables nodes \<mapsto> v), est_heap = h\<rparr>"
      using assms None by (auto simp: estimate_join_size_def split: bind_splits)
    then have "0 \<le> v \<and> round64 v = v"
      by (auto simp: estimate_group_def split: bind_splits dest: Size_Of_Join_group_double)
    then show ?thesis using 2 None st' by (intro miss [of h]) simp_all
  next
    case 3
    then show ?thesis using assms None by (intro short) (simp_all add: estimate_join_size_def)
  qed
qed

interpretation estimate: memo_estimator "estimate_join_size b s js" est_val est_good
proof
  fix st st' :: est_state and nodes ns ms :: "nat list" and v w :: double
  show "0 \<le> v \<and> round64 v = v \<and> est_good st'" if "est_good st" "estimate_join_size b s js nodes st = Some (v, st')"
    using that(2)
  proof (cases rule: estimate_join_size_cases)
    case (hit w)
    then show ?thesis using that(1) by (auto simp: est_good_def dadd_0_left)
  qed (use that(1) in \<open>auto simp: est_good_def\<close>)
  show "est_val st' nodes = Some v"
    if "est_good st" "2 \<le> length nodes" "estimate_join_size b s js nodes st = Some (v, st')"
    using that(3)
  proof (cases rule: estimate_join_size_cases)
    case (hit w)
    then show ?thesis using that(1) by (auto simp: est_good_def est_val_def dadd_0_left)
  qed (use that(2) in \<open>auto simp: est_val_def\<close>)
  show "est_val st' ns = Some w" if "estimate_join_size b s js nodes st = Some (v, st')" "est_val st ns = Some w"
    using that(1) by (cases rule: estimate_join_size_cases) (use that(2) in \<open>auto simp: est_val_def\<close>)
  show "estimate_join_size b s js nodes st = Some (v, st)" if "est_good st" "est_val st nodes = Some v"
    using that by (auto simp: estimate_join_size_def est_val_def est_good_def dadd_0_left)
  show "est_val st ns = est_val st ms" if "mset ns = mset ms"
  proof -
    have "sort ns = sort ms" using that by (metis mset_sort properties_for_sort sorted_sort)
    then show ?thesis by (simp add: est_val_def join_tables_def)
  qed
qed

text \<open>
  C10. Estimates are stable: once the join of a set of tables has been estimated, every later request
  for the same tables, in any order and after any other estimates, returns the same value and
  leaves the memo table and the sketches as they are.
\<close>

theorem estimate_join_size_memo:
  assumes "est_good st" and "estimate_join_size b s js nodes st = Some (v, st1)" and "2 \<le> length nodes"
    and "foldM (est_step (estimate_join_size b s js)) others st1 = Some st2" and "mset perm = mset nodes"
  shows "estimate_join_size b s js perm st2 = Some (v, st2)"
  using assms by (rule estimate.memo)

definition est_example :: est_state where
  "est_example = \<lparr>bottom_up_table = Map.empty,
     est_heap = test_heap\<lparr>h_double := [0 \<mapsto> [None], 1 \<mapsto> [None], 2 \<mapsto> [Some 3], 3 \<mapsto> [Some 5]],
       h_ptr := [4 \<mapsto> [Some 2], 5 \<mapsto> [Some 3]]\<rparr>\<rparr>"

definition sketch_example :: "addr \<Rightarrow> addr \<Rightarrow> FAGMS_Sketch" where
  "sketch_example a p = \<lparr>buckets_no = 1, rows_no = 1, keys_no = 1, xi_bucket = None, xi_pm1 = None,
     sketch_elem = Some a, separate_sketch_elem = Some p\<rparr>"

definition join_example :: "nat \<Rightarrow> join_info" where
  "join_example n = \<lparr>ji_table = 0, ji_column = 0, ji_other_node = n, ji_other_table = 0, ji_other_column = 0\<rparr>"

theorem estimate_join_size_memo_witness:
  "\<exists>v st1. estimate_join_size (sketch_example 0 4) [10 \<mapsto> sketch_example 0 4, 20 \<mapsto> sketch_example 1 5]
      [10 \<mapsto> [join_example 20], 20 \<mapsto> [join_example 10]] [10, 20] est_example = Some (v, st1) \<and>
    estimate_join_size (sketch_example 0 4) [10 \<mapsto> sketch_example 0 4, 20 \<mapsto> sketch_example 1 5]
      [10 \<mapsto> [join_example 20], 20 \<mapsto> [join_example 10]] [20, 10] st1 = Some (v, st1)"
proof -
  let ?sk = "[10 \<mapsto> sketch_example 0 4, 20 \<mapsto> sketch_example 1 5]"
  let ?js = "[10 \<mapsto> [join_example 20], 20 \<mapsto> [join_example 10]]"
  obtain v st1 where 1: "estimate_join_size (sketch_example 0 4) ?sk ?js [10, 20] est_example = Some (v, st1)"
    by (simp add: estimate_join_size_def estimate_pair_def add_first_join_def join_nodes_of_def join_example_def
        Add_Sketch_Values_def sketch_size_def sketch_example_def separate_read_def load_def store_double_def store_def
        est_example_def test_heap_def Size_Of_Join_def row_estimates_def elem_at_def Median_def array_read_def)
  have "estimate_join_size (sketch_example 0 4) ?sk ?js [20, 10] st1 = Some (v, st1)"
    by (rule estimate_join_size_memo [OF _ 1, where others = "[]"]) (simp_all add: est_good_def est_example_def)
  then show ?thesis using 1 by blast
qed

end
