(* ===== verification/EstimateSafe.thy ===== *)
theory EstimateSafe
  imports Estimate
begin

text \<open>
  Memory safety of the estimates: on a family of sketches of one shape, each with an array of
  elements and one initialised array per join column apart from all of these, \<open>estimate_join_size\<close>
  reads no null pointer, no uninitialised element and nothing out of bounds, and keeps the family
  in that state.
\<close>

section \<open>Families of sketches\<close>

definition elem_arrays :: "(nat \<rightharpoonup> FAGMS_Sketch) \<Rightarrow> addr set" where
  "elem_arrays s = {a. \<exists>sk\<in>ran s. sketch_elem sk = Some a}"

definition sketch_ok :: "u32 \<Rightarrow> u32 \<Rightarrow> addr set \<Rightarrow> nat \<Rightarrow> FAGMS_Sketch \<Rightarrow> heap \<Rightarrow> bool" where
  "sketch_ok R B A k sk h \<longleftrightarrow> rows_no sk = R \<and> buckets_no sk = B \<and>
     (\<exists>a xs. sketch_elem sk = Some a \<and> h_double h a = Some xs \<and> length xs = sketch_size sk) \<and>
     (\<forall>c<k. \<exists>p V. load (h_ptr h) (separate_sketch_elem sk) c = Some p \<and> p \<notin> A \<and>
        h_double h p = Some (map (\<lambda>i. Some (V i)) [0..<sketch_size sk]))"

definition family_ok :: "u32 \<Rightarrow> u32 \<Rightarrow> (nat \<rightharpoonup> FAGMS_Sketch) \<Rightarrow> (nat \<rightharpoonup> join_info list) \<Rightarrow> heap \<Rightarrow> bool" where
  "family_ok R B s js h \<longleftrightarrow>
     (\<forall>n sk. s n = Some sk \<longrightarrow> sketch_ok R B (elem_arrays s) (length (join_nodes_of js n)) sk h)"

text \<open>Only the element arrays may change, and they keep their length.\<close>

definition elems_changed :: "addr set \<Rightarrow> heap \<Rightarrow> heap \<Rightarrow> bool" where
  "elems_changed A h h' \<longleftrightarrow> h_ptr h' = h_ptr h \<and> (\<forall>p. p \<notin> A \<longrightarrow> h_double h' p = h_double h p) \<and>
     (\<forall>p. map_option length (h_double h' p) = map_option length (h_double h p))"

lemma elems_changed_refl: "elems_changed A h h"
  by (simp add: elems_changed_def)

lemma elems_changed_trans: "elems_changed A h h1 \<Longrightarrow> elems_changed A h1 h2 \<Longrightarrow> elems_changed A h h2"
  by (simp add: elems_changed_def)

lemma elems_changed_store:
  assumes "store_double h (Some a) i v = Some h'" and "a \<in> A"
  shows "elems_changed A h h'"
  using assms by (auto simp: store_double_def store_def elems_changed_def split: bind_splits if_splits)

lemma elems_changed_set:
  assumes "h_double h a = Some xs" and "length ys = length xs" and "a \<in> A"
  shows "elems_changed A h (set_double h a ys)"
  using assms by (auto simp: elems_changed_def heap_simps)

lemma family_ok_changed:
  assumes "family_ok R B s js h" and "elems_changed (elem_arrays s) h h'"
  shows "family_ok R B s js h'"
  unfolding family_ok_def sketch_ok_def
proof (intro allI impI conjI)
  fix n sk
  assume "s n = Some sk"
  then have ok: "sketch_ok R B (elem_arrays s) (length (join_nodes_of js n)) sk h" using assms(1) by (simp add: family_ok_def)
  then show "rows_no sk = R" "buckets_no sk = B" by (simp_all add: sketch_ok_def)
  obtain a xs where "sketch_elem sk = Some a" "h_double h a = Some xs" "length xs = sketch_size sk"
    using ok unfolding sketch_ok_def by blast
  then show "\<exists>a xs. sketch_elem sk = Some a \<and> h_double h' a = Some xs \<and> length xs = sketch_size sk"
    using assms(2) by (auto simp: elems_changed_def dest!: spec [of _ a])
  show "\<exists>p V. load (h_ptr h') (separate_sketch_elem sk) c = Some p \<and> p \<notin> elem_arrays s \<and>
      h_double h' p = Some (map (\<lambda>i. Some (V i)) [0..<sketch_size sk])" if "c < length (join_nodes_of js n)" for c
    using that ok assms(2) unfolding sketch_ok_def elems_changed_def by metis
qed

lemma elem_arraysI: "s n = Some sk \<Longrightarrow> sketch_elem sk = Some a \<Longrightarrow> a \<in> elem_arrays s"
  by (auto simp: elem_arrays_def ran_def)

section \<open>Every successful estimate changes element arrays only\<close>

lemma for_loop_changed:
  assumes "for_loop k n body h = Some h'" and "\<And>i h h'. body i h = Some h' \<Longrightarrow> elems_changed A h h'"
  shows "elems_changed A h h'"
  using assms(1)
proof (rule for_loop_preserves)
  show "elems_changed A h h2" if "body i h1 = Some h2" "elems_changed A h h1" for i h1 h2
    using that assms(2) elems_changed_trans by blast
qed (rule elems_changed_refl)

lemma foldM_changed:
  assumes "foldM f xs h = Some h'" and "\<And>x h h'. f x h = Some h' \<Longrightarrow> elems_changed A h h'"
  shows "elems_changed A h h'"
  using assms(1)
proof (induction xs arbitrary: h)
  case (Cons x xs)
  then obtain h1 where "f x h = Some h1" "foldM f xs h1 = Some h'" by (auto split: bind_splits)
  then show ?case using Cons.IH assms(2) elems_changed_trans by blast
qed (simp add: elems_changed_refl)

lemma store_elem_changed:
  assumes "sk \<in> ran s" and "store_double h (sketch_elem sk) i v = Some h'"
  shows "elems_changed (elem_arrays s) h h'"
proof (cases "sketch_elem sk")
  case (Some a)
  then show ?thesis using assms by (intro elems_changed_store [of h a i v]) (auto simp: elem_arrays_def)
qed (use assms(2) in \<open>simp add: store_double_def store_def\<close>)

lemma sketch_ops_changed:
  assumes "sk \<in> ran s"
  shows "Add_Sketch_Values sk c h = Some h' \<Longrightarrow> elems_changed (elem_arrays s) h h'"
    and "Choose_Sketch_Min_Val sk c h = Some h' \<Longrightarrow> elems_changed (elem_arrays s) h h'"
    and "Set_Sketch_With_Max sk h = Some h' \<Longrightarrow> elems_changed (elem_arrays s) h h'"
    and "Merge_Zero sk h = Some h' \<Longrightarrow> elems_changed (elem_arrays s) h h'"
  unfolding Add_Sketch_Values_def Choose_Sketch_Min_Val_def Set_Sketch_With_Max_def Merge_Zero_def
  by (erule for_loop_changed; auto split: bind_splits if_splits intro: store_elem_changed [OF assms] elems_changed_refl)+

lemma first_join_changed:
  assumes "sk \<in> ran s"
  shows "add_first_join sk js n h = Some h' \<Longrightarrow> elems_changed (elem_arrays s) h h'"
    and "choose_first_join sk js n h = Some h' \<Longrightarrow> elems_changed (elem_arrays s) h h'"
  using sketch_ops_changed [OF assms] elems_changed_refl
  by (auto simp: add_first_join_def choose_first_join_def split: option.splits)

lemma merge_node_columns_changed:
  assumes "merge_node_columns s js nodes n h = Some h'"
  shows "elems_changed (elem_arrays s) h h'"
proof -
  obtain sk h1 h2 where 1: "s n = Some sk" "Set_Sketch_With_Max sk h = Some h1"
    "foldM (choose_first_join sk (join_nodes_of js n)) nodes h1 = Some h2" "Merge_Zero sk h2 = Some h'"
    using assms by (auto simp: merge_node_columns_def split: bind_splits)
  then have sk: "sk \<in> ran s" by (auto simp: ran_def)
  have "elems_changed (elem_arrays s) h1 h2" by (rule foldM_changed [OF 1(3)]) (rule first_join_changed(2) [OF sk])
  then show ?thesis using sketch_ops_changed(3,4) [OF sk] 1(2,4) elems_changed_trans by blast
qed

lemma estimate_pair_changed:
  assumes "estimate_pair b s js n0 n1 h = Some (v, h')" and "b \<in> ran s"
  shows "elems_changed (elem_arrays s) h h'"
proof -
  obtain h1 sk where "add_first_join b (join_nodes_of js n0) n1 h = Some h1" "s n1 = Some sk"
    "add_first_join sk (join_nodes_of js n1) n0 h1 = Some h'"
    using assms(1) by (auto simp: estimate_pair_def split: bind_splits)
  then show ?thesis using first_join_changed(1) assms(2) elems_changed_trans by (metis ranI)
qed

lemma estimate_group_changed:
  assumes "estimate_group b s js nodes h = Some (v, h')"
  shows "elems_changed (elem_arrays s) h h'"
  using assms merge_node_columns_changed
  by (auto simp: estimate_group_def split: bind_splits intro: foldM_changed)

lemma estimate_join_size_changed:
  assumes "estimate_join_size b s js nodes st = Some (v, st')" and "b \<in> ran s"
  shows "elems_changed (elem_arrays s) (est_heap st) (est_heap st')"
  using assms estimate_pair_changed estimate_group_changed elems_changed_refl
  by (auto simp: estimate_join_size_def Let_def split: option.splits if_splits bind_splits)

section \<open>No estimate fails on a well-formed family\<close>

definition filled :: "nat \<Rightarrow> heap \<Rightarrow> addr \<Rightarrow> bool" where
  "filled N h a \<longleftrightarrow> (\<exists>E. h_double h a = Some (map (\<lambda>i. Some (E i)) [0..<N]))"

lemma filled_set: "filled N (set_double h a (map (\<lambda>i. Some (E i)) [0..<N])) b \<longleftrightarrow> a = b \<or> filled N h b"
  by (auto simp: filled_def heap_simps)

lemma first_join_bounds: "first_join i js n = Some k \<Longrightarrow> i \<le> k \<and> k < i + length js"
  by (induction js arbitrary: i) (fastforce split: if_splits)+

lemma first_join_None: "first_join i js n = None \<longleftrightarrow> n \<notin> ji_other_node ` set js"
  by (induction js arbitrary: i) auto

lemma sketch_ok_column:
  assumes "sketch_ok R B A k sk h" and "c < k" and "a \<in> A"
  obtains V where "column sk h a c V"
  using assms unfolding sketch_ok_def column_def by metis

lemma Add_Sketch_Values_eq:
  assumes "sketch_elem s = Some a" and "column s h a c V" and "h_double h a = Some xs" and "length xs = sketch_size s"
  shows "Add_Sketch_Values s (int c) h = Some (set_double h a (map (\<lambda>i. Some (V i)) [0..<sketch_size s]))"
proof -
  have "Add_Sketch_Values s (int c) (set_double h a xs) = Some (set_double h a (map (\<lambda>i. Some (V i)) [0..<sketch_size s]))"
    unfolding Add_Sketch_Values_def
    by (rule for_loop_array) (use assms in \<open>auto simp: separate_read_column heap_simps\<close>)
  then show ?thesis by (simp add: set_double_id [OF assms(3)])
qed

lemma add_first_join_total:
  assumes "family_ok R B s js h" and "s n = Some sk" and "m \<in> ji_other_node ` set (join_nodes_of js n)"
    and "sketch_elem sk = Some a"
  shows "\<exists>E. add_first_join sk (join_nodes_of js n) m h = Some (set_double h a (map (\<lambda>i. Some (E i)) [0..<sketch_size sk]))"
proof -
  have ok: "sketch_ok R B (elem_arrays s) (length (join_nodes_of js n)) sk h" using assms(1,2) by (simp add: family_ok_def)
  obtain c where c: "first_join 0 (join_nodes_of js n) m = Some c" using assms(3) first_join_None by (metis option.exhaust)
  then have "c < length (join_nodes_of js n)" using first_join_bounds by fastforce
  then obtain V where "column sk h a c V" using sketch_ok_column [OF ok _ elem_arraysI [of s n, OF assms(2,4)]] by blast
  moreover obtain xs where "h_double h a = Some xs" "length xs = sketch_size sk"
    using ok assms(4) by (auto simp: sketch_ok_def)
  ultimately have "Add_Sketch_Values sk (int c) h = Some (set_double h a (map (\<lambda>i. Some (V i)) [0..<sketch_size sk]))"
    using assms(4) by (intro Add_Sketch_Values_eq)
  then show ?thesis using c by (auto simp: add_first_join_def)
qed

lemma choose_first_joins_total:
  assumes ok: "sketch_ok R B A (length joins) sk h" and a: "sketch_elem sk = Some a" "a \<in> A"
  shows "\<exists>E'. foldM (choose_first_join sk joins) nodes (set_double h a (map (\<lambda>i. Some (E i)) [0..<sketch_size sk])) =
    Some (set_double h a (map (\<lambda>i. Some (E' i)) [0..<sketch_size sk]))"
proof (induction nodes arbitrary: E)
  case (Cons n nodes)
  have "\<exists>E'. choose_first_join sk joins n (set_double h a (map (\<lambda>i. Some (E i)) [0..<sketch_size sk])) =
    Some (set_double h a (map (\<lambda>i. Some (E' i)) [0..<sketch_size sk]))"
  proof (cases "first_join 0 joins n")
    case (Some c)
    then have "c < length joins" using first_join_bounds by fastforce
    then obtain V where "column sk h a c V" using sketch_ok_column [OF ok _ a(2)] by blast
    then show ?thesis using Choose_Sketch_Min_Val_eq [OF a(1), of h c V E] Some by (auto simp: choose_first_join_def)
  qed (auto simp: choose_first_join_def)
  then show ?case using Cons.IH by auto
qed auto

lemma merge_node_columns_total:
  assumes "family_ok R B s js h" and "s n = Some sk" and "sketch_elem sk = Some a"
  shows "\<exists>E. merge_node_columns s js nodes n h = Some (set_double h a (map (\<lambda>i. Some (E i)) [0..<sketch_size sk]))"
proof -
  have ok: "sketch_ok R B (elem_arrays s) (length (join_nodes_of js n)) sk h" using assms(1,2) by (simp add: family_ok_def)
  then obtain xs where "h_double h a = Some xs" "length xs = sketch_size sk" using assms(3) by (auto simp: sketch_ok_def)
  note max = Set_Sketch_With_Max_eq [OF assms(3) this]
  obtain E where "foldM (choose_first_join sk (join_nodes_of js n)) nodes (set_double h a (map (\<lambda>i. Some elem_max) [0..<sketch_size sk])) =
      Some (set_double h a (map (\<lambda>i. Some (E i)) [0..<sketch_size sk]))"
    using choose_first_joins_total [OF ok assms(3) elem_arraysI [of s n, OF assms(2,3)], of nodes "\<lambda>_. elem_max"] by blast
  then show ?thesis using Merge_Zero_eq [OF assms(3)] max assms(2) by (auto simp: merge_node_columns_def)
qed

lemma family_elem:
  assumes "family_ok R B s js h" and "s n = Some sk"
  obtains a where "sketch_elem sk = Some a" and "sketch_size sk = unat (B * R)"
  using assms unfolding family_ok_def sketch_ok_def sketch_size_def by metis

lemma merge_nodes_total:
  assumes "family_ok R B s js h" and "set ns \<subseteq> dom s"
  shows "\<exists>h'. foldM (merge_node_columns s js nodes) ns h = Some h' \<and>
    (\<forall>a. filled (unat (B * R)) h a \<or> (\<exists>n\<in>set ns. \<exists>sk. s n = Some sk \<and> sketch_elem sk = Some a) \<longrightarrow> filled (unat (B * R)) h' a)"
  using assms
proof (induction ns arbitrary: h)
  case (Cons n ns)
  obtain sk where sk: "s n = Some sk" using Cons.prems(2) by auto
  obtain a where a: "sketch_elem sk = Some a" "sketch_size sk = unat (B * R)" by (rule family_elem [OF Cons.prems(1) sk])
  obtain E where E: "merge_node_columns s js nodes n h = Some (set_double h a (map (\<lambda>i. Some (E i)) [0..<unat (B * R)]))"
    using merge_node_columns_total [OF Cons.prems(1) sk a(1)] a(2) by auto
  have "family_ok R B s js (set_double h a (map (\<lambda>i. Some (E i)) [0..<unat (B * R)]))"
    using Cons.prems(1) merge_node_columns_changed [OF E] by (rule family_ok_changed)
  then obtain h' where "foldM (merge_node_columns s js nodes) ns (set_double h a (map (\<lambda>i. Some (E i)) [0..<unat (B * R)])) = Some h'"
    "\<forall>x. a = x \<or> filled (unat (B * R)) h x \<or> (\<exists>n\<in>set ns. \<exists>sk. s n = Some sk \<and> sketch_elem sk = Some x) \<longrightarrow> filled (unat (B * R)) h' x"
    using Cons.IH [of "set_double h a (map (\<lambda>i. Some (E i)) [0..<unat (B * R)])"] Cons.prems(2) unfolding filled_set by auto
  then show ?case using E sk a(1) by auto
qed simp

text \<open>The estimators on filled arrays.\<close>

lemma filled_elem_at:
  assumes "filled (unat (B * R)) h a" and "sketch_elem t = Some a" and "buckets_no sk = B"
    and "unat R * unat B < 2 ^ 32" and "i < unat R" and "j < unat B"
  shows "\<exists>v. elem_at sk t i j h = Some v"
proof -
  have "unat (of_nat i * B + of_nat j) = i * unat B + j" using assms(4-6) by (intro index_u32) simp_all
  moreover have "i * unat B + j < unat (B * R)" using mat_index [OF assms(5,6)] unat_mult_u32 [OF assms(4)] by simp
  ultimately show ?thesis using assms(1-3) by (auto simp: elem_at_def filled_def load_def)
qed

lemma for_loop_total:
  assumes "\<And>i s. k \<le> i \<Longrightarrow> i < k + n \<Longrightarrow> \<exists>s'. body i s = Some s'"
  shows "\<exists>s'. for_loop k n body s = Some s'"
  using assms
proof (induction n arbitrary: k s)
  case (Suc n)
  obtain s1 where "body k s = Some s1" using Suc.prems [of k s] by auto
  moreover have "\<exists>s'. for_loop (k + 1) n body s1 = Some s'" using Suc.prems by (intro Suc.IH) auto
  ultimately show ?case by auto
qed simp

lemma median_bind_total:
  assumes "\<And>i. i < unat (rows_no s) \<Longrightarrow> \<exists>e. row i = Some e" and "0 < unat (rows_no s)" and "unat (rows_no s) < 2 ^ 31"
  shows "\<exists>v. do { est \<leftarrow> row_estimates s row; Median est (sint (rows_no s)) } = Some v"
proof -
  obtain est where est: "row_estimates s row = Some est"
    using for_loop_total [of 0 "unat (rows_no s)" "\<lambda>i est. do { e \<leftarrow> row i; Some (est @ [e]) }" "[]"] assms(1)
    unfolding row_estimates_def by fastforce
  have len: "length est = unat (rows_no s)" by (rule row_estimates_length [OF est])
  then have "sint (rows_no s) = int (length est)" "est \<noteq> []" using sint_u32 [OF assms(3)] assms(2) by auto
  then show ?thesis using est Median_eq [of est] by auto
qed

lemma Size_Of_Join_total:
  assumes "filled (unat (B * R)) h a" and "filled (unat (B * R)) h b" and "sketch_elem s = Some a" and "sketch_elem t = Some b"
    and "rows_no s = R" and "buckets_no s = B" and "unat R * unat B < 2 ^ 32" and "0 < unat R" and "unat R < 2 ^ 31"
  shows "\<exists>v. Size_Of_Join s t h = Some v"
  unfolding Size_Of_Join_def
proof (rule median_bind_total)
  fix i
  assume i: "i < unat (rows_no s)"
  have "\<exists>e. for_loop 0 (unat (buckets_no s)) (\<lambda>j e. do {
      t1 \<leftarrow> elem_at s s i j h; t2 \<leftarrow> elem_at s t i j h; Some (dadd e (dmul (nonzero t1) (nonzero t2))) }) 0 = Some e"
    using filled_elem_at [OF assms(1,3,6,7)] filled_elem_at [OF assms(2,4,6,7)] i assms(5,6)
    by (intro for_loop_total) fastforce
  then show "\<exists>e. do { e \<leftarrow> for_loop 0 (unat (buckets_no s)) (\<lambda>j e. do {
      t1 \<leftarrow> elem_at s s i j h; t2 \<leftarrow> elem_at s t i j h; Some (dadd e (dmul (nonzero t1) (nonzero t2))) }) 0; Some \<bar>e\<bar> } = Some e"
    by auto
qed (use assms in simp_all)

lemma Size_Of_Join_group_total:
  assumes "filled (unat (B * R)) h a" and "sketch_elem s = Some a"
    and "\<And>t. t \<in> set ts \<Longrightarrow> \<exists>b. sketch_elem t = Some b \<and> filled (unat (B * R)) h b"
    and "rows_no s = R" and "buckets_no s = B" and "unat R * unat B < 2 ^ 32" and "0 < unat R" and "unat R < 2 ^ 31"
  shows "\<exists>v. Size_Of_Join_group s ts h = Some v"
  unfolding Size_Of_Join_group_def
proof (rule median_bind_total)
  fix i
  assume i: "i < unat (rows_no s)"
  have bp: "\<exists>bp. for_loop 0 (length ts) (\<lambda>k bp. do { t \<leftarrow> elem_at s (ts ! k) i j h; Some (dmul bp (nonzero t)) }) x = Some bp"
    if j: "j < unat B" for j x
  proof (rule for_loop_total)
    fix k y
    assume "0 \<le> k" "k < 0 + length ts"
    then obtain b where "sketch_elem (ts ! k) = Some b" "filled (unat (B * R)) h b" using assms(3) [of "ts ! k"] by auto
    then obtain t where "elem_at s (ts ! k) i j h = Some t"
      using filled_elem_at [OF _ _ assms(5,6), of h b "ts ! k" i j] i j assms(4) by auto
    then show "\<exists>s'. do { t \<leftarrow> elem_at s (ts ! k) i j h; Some (dmul y (nonzero t)) } = Some s'" by simp
  qed
  have "\<exists>e. for_loop 0 (unat (buckets_no s)) (\<lambda>j e. do {
           b0 \<leftarrow> elem_at s s i j h;
           bp \<leftarrow> for_loop 0 (length ts) (\<lambda>k bp. do { t \<leftarrow> elem_at s (ts ! k) i j h; Some (dmul bp (nonzero t)) }) (nonzero b0);
           Some (dadd e bp) }) 0 = Some e"
  proof (rule for_loop_total)
    fix j y
    assume "0 \<le> j" "j < 0 + unat (buckets_no s)"
    then have j: "j < unat B" using assms(5) by simp
    obtain b0 where "elem_at s s i j h = Some b0" using filled_elem_at [OF assms(1,2,5,6) _ j, of i] i assms(4) by auto
    then show "\<exists>s'. do { b0 \<leftarrow> elem_at s s i j h;
        bp \<leftarrow> for_loop 0 (length ts) (\<lambda>k bp. do { t \<leftarrow> elem_at s (ts ! k) i j h; Some (dmul bp (nonzero t)) }) (nonzero b0);
        Some (dadd y bp) } = Some s'" using bp [OF j, of "nonzero b0"] by auto
  qed
  then show "\<exists>e. do { e \<leftarrow> for_loop 0 (unat (buckets_no s)) (\<lambda>j e. do {
           b0 \<leftarrow> elem_at s s i j h;
           bp \<leftarrow> for_loop 0 (length ts) (\<lambda>k bp. do { t \<leftarrow> elem_at s (ts ! k) i j h; Some (dmul bp (nonzero t)) }) (nonzero b0);
           Some (dadd e bp) }) 0; Some \<bar>e\<bar> } = Some e" by auto
qed (use assms in simp_all)

text \<open>The state in which the enumeration runs.\<close>

definition est_ready :: "u32 \<Rightarrow> u32 \<Rightarrow> (nat \<rightharpoonup> FAGMS_Sketch) \<Rightarrow> (nat \<rightharpoonup> join_info list) \<Rightarrow> est_state \<Rightarrow> bool" where
  "est_ready R B s js st \<longleftrightarrow> est_good st \<and> family_ok R B s js (est_heap st) \<and>
     0 < unat R \<and> unat R < 2 ^ 31 \<and> unat R * unat B < 2 ^ 32"

lemma estimate_join_size_total:
  assumes "est_ready R B s js st" and "nodes \<noteq> []" and "set nodes \<subseteq> dom s" and "s (hd nodes) = Some b"
    and "\<And>m n. nodes = [m, n] \<Longrightarrow> n \<in> ji_other_node ` set (join_nodes_of js m) \<and> m \<in> ji_other_node ` set (join_nodes_of js n)"
  shows "\<exists>v st'. estimate_join_size b s js nodes st = Some (v, st')"
proof -
  let ?h = "est_heap st" and ?N = "unat (B * R)"
  have fam: "family_ok R B s js ?h" and bounds: "unat R * unat B < 2 ^ 32" "0 < unat R" "unat R < 2 ^ 31"
    using assms(1) by (simp_all add: est_ready_def)
  have shape: "rows_no b = R" "buckets_no b = B" using fam assms(4) by (simp_all add: family_ok_def sketch_ok_def)
  obtain a where a: "sketch_elem b = Some a" "sketch_size b = ?N" by (rule family_elem [OF fam assms(4)])
  consider "length nodes < 2" | (pair) m n where "nodes = [m, n]" | (group) "2 < length nodes"
    by (metis One_nat_def assms(2) length_0_conv length_Suc_conv less_2_cases_iff linorder_neqE_nat numeral_2_eq_2)
  then show ?thesis
  proof cases
    case 1
    then show ?thesis by (auto simp: estimate_join_size_def Let_def split: option.splits)
  next
    case (pair m n)
    then obtain sk where sk: "s n = Some sk" using assms(3) by auto
    have m: "s m = Some b" using assms(4) pair by simp
    obtain E where E: "add_first_join b (join_nodes_of js m) n ?h = Some (set_double ?h a (map (\<lambda>i. Some (E i)) [0..<?N]))"
      using add_first_join_total [OF fam m _ a(1)] assms(5) [OF pair] a(2) by auto
    let ?h1 = "set_double ?h a (map (\<lambda>i. Some (E i)) [0..<?N])"
    have fam1: "family_ok R B s js ?h1"
      by (rule family_ok_changed [OF fam first_join_changed(1) [OF ranI [of s m] E]]) (rule m)
    obtain c where c: "sketch_elem sk = Some c" "sketch_size sk = ?N" by (rule family_elem [OF fam sk])
    obtain F where F: "add_first_join sk (join_nodes_of js n) m ?h1 = Some (set_double ?h1 c (map (\<lambda>i. Some (F i)) [0..<?N]))"
      using add_first_join_total [OF fam1 sk _ c(1)] assms(5) [OF pair] c(2) by auto
    obtain v where "Size_Of_Join b sk (set_double ?h1 c (map (\<lambda>i. Some (F i)) [0..<?N])) = Some v"
      using Size_Of_Join_total [OF _ _ a(1) c(1) shape bounds, of "set_double ?h1 c (map (\<lambda>i. Some (F i)) [0..<?N])"]
      by (auto simp: filled_set)
    then show ?thesis
      using E F sk pair by (auto simp: estimate_join_size_def estimate_pair_def Let_def split: option.splits)
  next
    case group
    obtain h' where h': "foldM (merge_node_columns s js nodes) nodes ?h = Some h'"
      and fl: "\<And>x n sk. n \<in> set nodes \<Longrightarrow> s n = Some sk \<Longrightarrow> sketch_elem sk = Some x \<Longrightarrow> filled ?N h' x"
      using merge_nodes_total [OF fam assms(3), of nodes] by blast
    have "filled ?N h' a" using fl [OF hd_in_set [OF assms(2)] assms(4) a(1)] .
    moreover have "\<exists>x. sketch_elem t = Some x \<and> filled ?N h' x" if tl: "t \<in> set (map (\<lambda>n. the (s n)) (tl nodes))" for t
    proof -
      obtain n where n: "n \<in> set nodes" "t = the (s n)" using tl list.set_sel(2) [OF assms(2)] by auto
      then have t: "s n = Some t" using assms(3) by force
      obtain x where "sketch_elem t = Some x" by (rule family_elem [OF fam t])
      then show ?thesis using fl [OF n(1) t] by blast
    qed
    ultimately obtain v where "Size_Of_Join_group b (map (\<lambda>n. the (s n)) (tl nodes)) h' = Some v"
      using Size_Of_Join_group_total [OF _ a(1) _ shape bounds] by blast
    then show ?thesis using h' group by (auto simp: estimate_join_size_def estimate_group_def Let_def split: option.splits)
  qed
qed

end
