(* ===== verification/Traversal.thy ===== *)
theory Traversal
  imports Estimate
begin

text \<open>
  \<open>get_distinct_graph_traversals\<close> of \<open>QueryEngine/RelAlgExecutor.cpp\<close>: the depth-first enumeration
  of join orders without cartesian products, with its bound on the number of traversals and its
  early stopping. The estimator and \<open>std::sort\<close>, which leaves the order of equal estimates open,
  are parameters. The recursion is driven by fuel; a call with more fuel than the number of nodes
  still missing from the traversal never runs out of it.
\<close>

section \<open>State and definitions\<close>

text \<open>A join graph: each node with the sorted list of its neighbours (a \<open>std::set\<close>).\<close>

type_synonym join_graph = "(nat \<times> nat list) list"

record 's dfs =
  traversal_nodes :: "nat list"
  visited_nodes :: "nat set"
  traversals :: "nat list list"
  optimal_traversal :: "nat list"
  min_join_size_estimation :: double
  traverse_bound :: nat
  dfs_est :: 's

definition dfs_push :: "nat \<Rightarrow> 's dfs \<Rightarrow> 's dfs" where
  "dfs_push node st = st\<lparr>traversal_nodes := traversal_nodes st @ [node], visited_nodes := insert node (visited_nodes st)\<rparr>"

definition dfs_pop :: "nat \<Rightarrow> 's dfs \<Rightarrow> 's dfs" where
  "dfs_pop node st = st\<lparr>traversal_nodes := butlast (traversal_nodes st), visited_nodes := visited_nodes st - {node}\<rparr>"

text \<open>A call of the estimator on the current traversal, and one on the traversal with \<open>n\<close> appended.\<close>

definition dfs_estimate :: "(nat list \<Rightarrow> 's \<Rightarrow> (double \<times> 's) option) \<Rightarrow> 's dfs \<Rightarrow> (double \<times> 's dfs) option" where
  "dfs_estimate est st = do { (v, s) \<leftarrow> est (traversal_nodes st) (dfs_est st); Some (v, st\<lparr>dfs_est := s\<rparr>) }"

text \<open>The loop that estimates each unvisited candidate; it removes the candidate again only if it did.\<close>

fun estimate_candidates ::
  "(nat list \<Rightarrow> 's \<Rightarrow> (double \<times> 's) option) \<Rightarrow> nat \<Rightarrow> nat list \<Rightarrow> (nat \<times> double) list \<Rightarrow> 's dfs \<Rightarrow>
     ((nat \<times> double) list \<times> 's dfs) option" where
  "estimate_candidates est graph_size [] adj_nodes st = Some (adj_nodes, st)"
| "estimate_candidates est graph_size (n # ns) adj_nodes st =
     (if n \<notin> visited_nodes st then
        let st = st\<lparr>traversal_nodes := traversal_nodes st @ [n]\<rparr>
        in if length (traversal_nodes st) > 1 \<and> length (traversal_nodes st) \<le> graph_size then do {
             (v, st) \<leftarrow> dfs_estimate est st;
             estimate_candidates est graph_size ns (adj_nodes @ [(n, v)])
               (st\<lparr>traversal_nodes := butlast (traversal_nodes st)\<rparr>)
           }
           else estimate_candidates est graph_size ns adj_nodes st
      else estimate_candidates est graph_size ns adj_nodes st)"

fun get_distinct_graph_traversals ::
  "((nat \<times> double) list \<Rightarrow> (nat \<times> double) list) \<Rightarrow> (nat list \<Rightarrow> 's \<Rightarrow> (double \<times> 's) option) \<Rightarrow> join_graph \<Rightarrow> nat \<Rightarrow>
     nat \<Rightarrow> nat \<Rightarrow> nat list \<Rightarrow> double \<Rightarrow> 's dfs \<Rightarrow> 's dfs option" where
  "get_distinct_graph_traversals srt est graph NODE_TRAVERSE_BOUND 0 node all_adjacent_nodes temp st = None"
| "get_distinct_graph_traversals srt est graph NODE_TRAVERSE_BOUND (Suc fuel) node all_adjacent_nodes temp st =
     (if traverse_bound st \<ge> NODE_TRAVERSE_BOUND then Some st
      else
        let st = dfs_push node st
        in if length (traversal_nodes st) = length graph then do {
             (v, st) \<leftarrow> dfs_estimate est st;
             let st =
               (if temp < min_join_size_estimation st
                then st\<lparr>min_join_size_estimation := temp, optimal_traversal := traversal_nodes st\<rparr> else st);
             Some (dfs_pop node (st\<lparr>traversals := traversals st @ [traversal_nodes st],
                                    traverse_bound := traverse_bound st + 1\<rparr>))
           }
           else do {
             (join_size, st) \<leftarrow>
               (if length (traversal_nodes st) > 1 \<and> length (traversal_nodes st) < length graph
                then dfs_estimate est st else Some (0, st));
             if NODE_TRAVERSE_BOUND \<noteq> 1 \<and> dadd temp join_size > min_join_size_estimation st \<and>
                length (traversal_nodes st) > 1
             then Some (dfs_pop node st)
             else do {
               let temp = dadd temp join_size;
               adj \<leftarrow> map_of graph node;
               let new_adjacent_nodes = sort (remdups (adj @ filter (\<lambda>n. n \<notin> visited_nodes st) all_adjacent_nodes));
               (adj_nodes, st) \<leftarrow> estimate_candidates est (length graph) new_adjacent_nodes [] st;
               st \<leftarrow> foldM (\<lambda>(n, v) st.
                  if n \<notin> visited_nodes st then
                    get_distinct_graph_traversals srt est graph NODE_TRAVERSE_BOUND fuel n (map fst adj_nodes) temp st
                  else Some st) (srt adj_nodes) st;
               Some (dfs_pop node st)
             }
           })"

section \<open>Join orders without cartesian products\<close>

definition adjacent :: "join_graph \<Rightarrow> nat \<Rightarrow> nat \<Rightarrow> bool" where
  "adjacent graph m n \<longleftrightarrow> (\<exists>ns. map_of graph m = Some ns \<and> n \<in> set ns)"

text \<open>Every node after the first is joined with an earlier one.\<close>

definition connected_order :: "join_graph \<Rightarrow> nat list \<Rightarrow> bool" where
  "connected_order graph ns \<longleftrightarrow> (\<forall>i<length ns. 0 < i \<longrightarrow> (\<exists>j<i. adjacent graph (ns ! j) (ns ! i)))"

definition wf_graph :: "join_graph \<Rightarrow> bool" where
  "wf_graph graph \<longleftrightarrow> distinct (map fst graph) \<and>
     (\<forall>m n. adjacent graph m n \<longrightarrow> n \<in> set (map fst graph) \<and> adjacent graph n m)"

definition join_order :: "join_graph \<Rightarrow> nat list \<Rightarrow> bool" where
  "join_order graph ns \<longleftrightarrow> mset ns = mset (map fst graph) \<and> connected_order graph ns"

lemma connected_order_snoc:
  assumes "connected_order graph ns" and "ns = [] \<or> (\<exists>m\<in>set ns. adjacent graph m n)"
  shows "connected_order graph (ns @ [n])"
  unfolding connected_order_def
proof (intro allI impI)
  fix i
  assume i: "i < length (ns @ [n])" "0 < i"
  show "\<exists>j<i. adjacent graph ((ns @ [n]) ! j) ((ns @ [n]) ! i)"
  proof (cases "i < length ns")
    case True
    then obtain j where "j < i" "adjacent graph (ns ! j) (ns ! i)"
      using assms(1) i(2) unfolding connected_order_def by blast
    then show ?thesis using True by (intro exI [of _ j]) (simp add: nth_append)
  next
    case False
    then have "i = length ns" using i by simp
    moreover obtain m where "m \<in> set ns" "adjacent graph m n" using assms(2) i(2) \<open>i = length ns\<close> by auto
    ultimately show ?thesis by (metis in_set_conv_nth nth_append nth_append_length)
  qed
qed

lemma connected_order_next:
  assumes "connected_order graph (ns @ n # ms)" and "ns \<noteq> []"
  shows "\<exists>m\<in>set ns. adjacent graph m n"
proof -
  have "length ns < length (ns @ n # ms)" "0 < length ns" using assms(2) by simp_all
  then obtain j where "j < length ns" "adjacent graph ((ns @ n # ms) ! j) ((ns @ n # ms) ! length ns)"
    using assms(1) unfolding connected_order_def by blast
  then show ?thesis by (auto simp: nth_append)
qed

text \<open>A partial join order: what the stack of the enumeration holds.\<close>

definition partial_order_of :: "join_graph \<Rightarrow> nat list \<Rightarrow> bool" where
  "partial_order_of graph ns \<longleftrightarrow> distinct ns \<and> set ns \<subseteq> set (map fst graph) \<and> connected_order graph ns"

lemma partial_order_length:
  assumes "partial_order_of graph ns"
  shows "length ns \<le> length graph"
proof -
  have "card (set ns) \<le> card (set (map fst graph))"
    using assms by (intro card_mono) (auto simp: partial_order_of_def)
  also have "\<dots> \<le> length graph" using card_length [of "map fst graph"] by simp
  finally show ?thesis using assms by (simp add: partial_order_of_def distinct_card)
qed

lemma partial_order_full:
  assumes "wf_graph graph" and "partial_order_of graph ns" and "length ns = length graph"
  shows "join_order graph ns"
proof -
  have d: "distinct (map fst graph)" using assms(1) by (simp add: wf_graph_def)
  then have "card (set (map fst graph)) = card (set ns)"
    using assms(2,3) distinct_card [OF d] by (simp add: partial_order_of_def distinct_card)
  then have "set ns = set (map fst graph)"
    using assms(2) by (intro card_subset_eq) (auto simp: partial_order_of_def)
  moreover have "distinct ns" using assms(2) by (simp add: partial_order_of_def)
  ultimately have "mset ns = mset (map fst graph)" using d set_eq_iff_mset_eq_distinct by blast
  then show ?thesis using assms(2) by (simp only: join_order_def partial_order_of_def)
qed

section \<open>One call of the enumeration\<close>

lemma estimate_candidates_result:
  assumes "estimate_candidates est graph_size ns acc st = Some (cs, st')"
    and "traversal_nodes st \<noteq> []" and "length (traversal_nodes st) < graph_size"
  shows "\<exists>s. st' = st\<lparr>dfs_est := s\<rparr> \<and> map fst cs = map fst acc @ filter (\<lambda>n. n \<notin> visited_nodes st) ns"
  using assms
proof (induction ns arbitrary: acc st)
  case Nil
  then show ?case by (auto intro!: exI [of _ "dfs_est st"])
next
  case (Cons n ns)
  show ?case
  proof (cases "n \<in> visited_nodes st")
    case True
    then show ?thesis using Cons by simp
  next
    case False
    let ?st = "st\<lparr>traversal_nodes := traversal_nodes st @ [n]\<rparr>"
    have "length (traversal_nodes ?st) > 1 \<and> length (traversal_nodes ?st) \<le> graph_size"
      using Cons.prems by (cases "traversal_nodes st") simp_all
    then obtain v s where "est (traversal_nodes st @ [n]) (dfs_est st) = Some (v, s)"
      "estimate_candidates est graph_size ns (acc @ [(n, v)]) (st\<lparr>dfs_est := s\<rparr>) = Some (cs, st')"
      using Cons.prems(1) False by (auto simp: dfs_estimate_def Let_def split: bind_splits)
    then show ?thesis using Cons.IH [of "acc @ [(n, v)]" "st\<lparr>dfs_est := s\<rparr>"] Cons.prems(2,3) False by auto
  qed
qed

definition dfs_loop ::
  "((nat \<times> double) list \<Rightarrow> (nat \<times> double) list) \<Rightarrow> (nat list \<Rightarrow> 's \<Rightarrow> (double \<times> 's) option) \<Rightarrow> join_graph \<Rightarrow> nat \<Rightarrow>
     nat \<Rightarrow> nat list \<Rightarrow> double \<Rightarrow> (nat \<times> double) list \<Rightarrow> 's dfs \<Rightarrow> 's dfs option" where
  "dfs_loop srt est graph NB fuel all_adj temp cs st = foldM (\<lambda>(n, v) st.
      if n \<notin> visited_nodes st then get_distinct_graph_traversals srt est graph NB fuel n all_adj temp st else Some st) cs st"

definition frontier :: "join_graph \<Rightarrow> nat list \<Rightarrow> nat list \<Rightarrow> nat \<Rightarrow> nat list \<Rightarrow> nat list" where
  "frontier graph adj tn node all_adj =
     filter (\<lambda>n. n \<notin> insert node (set tn)) (sort (remdups (adj @ filter (\<lambda>n. n \<notin> insert node (set tn)) all_adj)))"

lemma dfs_step_cases [consumes 3]:
  assumes "get_distinct_graph_traversals srt est graph NB (Suc fuel) node all_adj temp st = Some st'"
    and "visited_nodes st = set (traversal_nodes st)" and "partial_order_of graph (traversal_nodes st @ [node])"
  obtains (bound) "NB \<le> traverse_bound st" and "st' = st"
  | (complete) v s where "traverse_bound st < NB" and "length (traversal_nodes st @ [node]) = length graph"
      and "est (traversal_nodes st @ [node]) (dfs_est st) = Some (v, s)"
      and "st' = st\<lparr>dfs_est := s, traversals := traversals st @ [traversal_nodes st @ [node]],
        traverse_bound := traverse_bound st + 1,
        min_join_size_estimation := (if temp < min_join_size_estimation st then temp else min_join_size_estimation st),
        optimal_traversal := (if temp < min_join_size_estimation st then traversal_nodes st @ [node] else optimal_traversal st)\<rparr>"
  | (prune) v s where "traverse_bound st < NB" and "length (traversal_nodes st @ [node]) < length graph"
      and "traversal_nodes st \<noteq> []" and "NB \<noteq> 1"
      and "est (traversal_nodes st @ [node]) (dfs_est st) = Some (v, s)" and "min_join_size_estimation st < dadd temp v"
      and "st' = st\<lparr>dfs_est := s\<rparr>"
  | (expand) v s adj cs s' st2 where "traverse_bound st < NB" and "length (traversal_nodes st @ [node]) < length graph"
      and "if traversal_nodes st = [] then v = 0 \<and> s = dfs_est st
        else est (traversal_nodes st @ [node]) (dfs_est st) = Some (v, s)"
      and "NB = 1 \<or> traversal_nodes st = [] \<or> dadd temp v \<le> min_join_size_estimation st"
      and "map_of graph node = Some adj"
      and "estimate_candidates est (length graph) (sort (remdups (adj @ filter (\<lambda>n. n \<notin> insert node (set (traversal_nodes st))) all_adj)))
        [] (dfs_push node st\<lparr>dfs_est := s\<rparr>) = Some (cs, dfs_push node st\<lparr>dfs_est := s'\<rparr>)"
      and "map fst cs = frontier graph adj (traversal_nodes st) node all_adj"
      and "dfs_loop srt est graph NB fuel (map fst cs) (dadd temp v) (srt cs) (dfs_push node st\<lparr>dfs_est := s'\<rparr>) = Some st2"
      and "st' = dfs_pop node st2"
proof (cases "NB \<le> traverse_bound st")
  case True
  then show thesis using assms(1) by (intro bound) simp_all
next
  case nb: False
  let ?p = "traversal_nodes st @ [node]" and ?st = "dfs_push node st"
  have push: "traversal_nodes ?st = ?p" "visited_nodes ?st = insert node (set (traversal_nodes st))" "dfs_est ?st = dfs_est st"
    using assms(2) by (simp_all add: dfs_push_def)
  have node: "node \<notin> set (traversal_nodes st)" using assms(3) by (auto simp: partial_order_of_def)
  have pop: "dfs_pop node (?st\<lparr>dfs_est := s\<rparr>) = st\<lparr>dfs_est := s\<rparr>" for s
    using assms(2) node by (simp add: dfs_pop_def dfs_push_def)
  show thesis
  proof (cases "length ?p = length graph")
    case True
    then obtain v s where est: "est ?p (dfs_est st) = Some (v, s)"
      and st': "st' = dfs_pop node ((if temp < min_join_size_estimation st
          then ?st\<lparr>dfs_est := s, min_join_size_estimation := temp, optimal_traversal := ?p\<rparr> else ?st\<lparr>dfs_est := s\<rparr>)
          \<lparr>traversals := traversals st @ [?p], traverse_bound := traverse_bound st + 1\<rparr>)"
      using assms(1) nb push
      by (cases "temp < min_join_size_estimation st") (auto simp: dfs_estimate_def Let_def dfs_push_def split: bind_splits)
    show thesis
    proof (rule complete [OF _ True est])
      show "traverse_bound st < NB" using nb by simp
    qed (use assms(2) node in \<open>auto simp: st' dfs_pop_def dfs_push_def\<close>)
  next
    case False
    then have lt: "length ?p < length graph" using partial_order_length [OF assms(3)] by simp
    define js where "js = (if traversal_nodes st = [] then Some (0, ?st) else dfs_estimate est ?st)"
    have js_eq: "(if length (traversal_nodes ?st) > 1 \<and> length (traversal_nodes ?st) < length graph
        then dfs_estimate est ?st else Some (0, ?st)) = js"
      using lt by (auto simp: js_def push)
    then obtain v st1 where js: "js = Some (v, st1)"
      using assms(1) nb False push by (auto simp: Let_def split: bind_splits)
    then obtain s where s: "st1 = ?st\<lparr>dfs_est := s\<rparr>"
      and vs: "if traversal_nodes st = [] then v = 0 \<and> s = dfs_est st else est ?p (dfs_est st) = Some (v, s)"
      by (cases "traversal_nodes st = []") (auto simp: js_def dfs_estimate_def push dfs_push_def split: bind_splits)
    show thesis
    proof (cases "NB \<noteq> 1 \<and> dadd temp v > min_join_size_estimation st \<and> traversal_nodes st \<noteq> []")
      case True
      then have "st' = st\<lparr>dfs_est := s\<rparr>"
        using assms(1) nb False push js unfolding get_distinct_graph_traversals.simps Let_def js_eq
        using pop [of s] assms(2) by (simp add: s) (simp add: dfs_push_def)
      then show thesis using True vs nb lt by (intro prune) (auto split: if_splits)
    next
      case np: False
      obtain adj cs st2 st3 where adj: "map_of graph node = Some adj"
        and cand: "estimate_candidates est (length graph) (sort (remdups (adj @ filter (\<lambda>n. n \<notin> insert node (set (traversal_nodes st))) all_adj)))
          [] (?st\<lparr>dfs_est := s\<rparr>) = Some (cs, st3)"
        and loop: "dfs_loop srt est graph NB fuel (map fst cs) (dadd temp v) (srt cs) st3 = Some st2" and st': "st' = dfs_pop node st2"
        using assms(1) nb False np push js unfolding get_distinct_graph_traversals.simps Let_def js_eq dfs_loop_def
        by (auto simp: s split: bind_splits) (auto simp: dfs_push_def)
      obtain s' where s': "st3 = ?st\<lparr>dfs_est := s'\<rparr>" and fst: "map fst cs = frontier graph adj (traversal_nodes st) node all_adj"
        using estimate_candidates_result [OF cand] lt push unfolding frontier_def by auto
      show thesis
        using expand [OF _ lt vs _ adj cand [unfolded s'] fst loop [unfolded s'] st'] nb np by auto
    qed
  qed
qed

section \<open>The enumeration over a memoised estimator\<close>

text \<open>What \<open>std::sort\<close> promises of the vector of candidates: a permutation, ordered by the estimates.\<close>

locale std_sort =
  fixes srt :: "(nat \<times> double) list \<Rightarrow> (nat \<times> double) list"
  assumes srt_mset: "mset (srt xs) = mset xs"
    and srt_sorted: "sorted (map snd (srt xs))"
begin

lemma set_srt: "set (srt xs) = set xs"
  by (metis srt_mset set_mset_mset)

end

interpretation stable: std_sort "sort_key snd"
  by unfold_locales simp_all

text \<open>
  The cost the enumeration minimises: the sum of the estimates of the intermediate joins of a
  traversal, all but the last one, accumulated in doubles from left to right.
\<close>

definition plan_cost :: "(nat list \<Rightarrow> double) \<Rightarrow> nat list \<Rightarrow> double" where
  "plan_cost V ns = fold (\<lambda>k c. dadd c (V (take k ns))) [2..<length ns] 0"

lemma plan_cost_short: "length ns \<le> 2 \<Longrightarrow> plan_cost V ns = 0"
  by (simp add: plan_cost_def)

lemma plan_cost_snoc:
  assumes "2 \<le> length ns"
  shows "plan_cost V (ns @ [n]) = dadd (plan_cost V ns) (V ns)"
proof -
  have "fold (\<lambda>k c. dadd c (V (take k (ns @ [n])))) [2..<length ns] 0 = plan_cost V ns"
    unfolding plan_cost_def by (rule fold_cong) auto
  then show ?thesis using assms by (simp add: plan_cost_def)
qed

text \<open>Values a traversal may be charged: non-negative doubles that agree with what is remembered.\<close>

definition charges :: "('s \<Rightarrow> nat list \<Rightarrow> double option) \<Rightarrow> 's \<Rightarrow> (nat list \<Rightarrow> double) \<Rightarrow> bool" where
  "charges val s V \<longleftrightarrow> (\<forall>ns. 0 \<le> V ns \<and> round64 (V ns) = V ns) \<and> (\<forall>ns w. val s ns = Some w \<longrightarrow> V ns = w)"

lemma plan_cost_double:
  assumes "charges val s V"
  shows "0 \<le> plan_cost V ns \<and> round64 (plan_cost V ns) = plan_cost V ns"
proof -
  have "0 \<le> fold (\<lambda>k c. dadd c (V (take k ns))) ks c \<and>
      round64 (fold (\<lambda>k c. dadd c (V (take k ns))) ks c) = fold (\<lambda>k c. dadd c (V (take k ns))) ks c"
    if "0 \<le> c" "round64 c = c" for c ks
    using that assms by (induction ks arbitrary: c) (auto simp: charges_def dadd_nonneg)
  from this [of 0] show ?thesis unfolding plan_cost_def by simp
qed

lemma plan_cost_mono:
  assumes "charges val s V"
  shows "plan_cost V ns \<le> plan_cost V (ns @ ms)"
proof (induction ms rule: rev_induct)
  case (snoc m ms)
  have "plan_cost V (ns @ ms) \<le> plan_cost V ((ns @ ms) @ [m])"
  proof (cases "2 \<le> length (ns @ ms)")
    case True
    then show ?thesis
      using plan_cost_double [OF assms, of "ns @ ms"] assms
      unfolding plan_cost_snoc [OF True] by (intro dadd_mono_left) (simp_all add: charges_def)
  next
    case False
    then show ?thesis by (simp add: plan_cost_short)
  qed
  then show ?case using snoc by simp
qed simp

locale enumeration = std_sort srt + memo_estimator est val good
  for srt :: "(nat \<times> double) list \<Rightarrow> (nat \<times> double) list"
    and est :: "nat list \<Rightarrow> 's \<Rightarrow> (double \<times> 's) option"
    and val :: "'s \<Rightarrow> nat list \<Rightarrow> double option"
    and good :: "'s \<Rightarrow> bool"
begin

definition grows :: "'s \<Rightarrow> 's \<Rightarrow> bool" where
  "grows s s' \<longleftrightarrow> good s' \<and> (\<forall>ns w. val s ns = Some w \<longrightarrow> val s' ns = Some w)"

lemma grows_refl: "good s \<Longrightarrow> grows s s"
  by (simp add: grows_def)

lemma grows_trans: "grows s s' \<Longrightarrow> grows s' s'' \<Longrightarrow> grows s s''"
  by (auto simp: grows_def)

lemma grows_est: "good s \<Longrightarrow> est ns s = Some (v, s') \<Longrightarrow> grows s s'"
  using est_double est_grow unfolding grows_def by blast

lemma charges_grows: "grows s s' \<Longrightarrow> charges val s' V \<Longrightarrow> charges val s V"
  by (auto simp: grows_def charges_def)

lemma grows_candidates:
  "estimate_candidates est gs ns acc st = Some (cs, st') \<Longrightarrow> good (dfs_est st) \<Longrightarrow> grows (dfs_est st) (dfs_est st')"
proof (induction ns arbitrary: acc st)
  case Nil
  then show ?case by (simp add: grows_refl)
next
  case (Cons n ns)
  show ?case
  proof (cases "n \<in> visited_nodes st")
    case True
    then show ?thesis using Cons by simp
  next
    case False
    let ?st = "st\<lparr>traversal_nodes := traversal_nodes st @ [n]\<rparr>"
    show ?thesis
    proof (cases "length (traversal_nodes ?st) > 1 \<and> length (traversal_nodes ?st) \<le> gs")
      case True
      then obtain v s where 1: "est (traversal_nodes st @ [n]) (dfs_est st) = Some (v, s)"
        "estimate_candidates est gs ns (acc @ [(n, v)]) (st\<lparr>dfs_est := s\<rparr>) = Some (cs, st')"
        using Cons.prems(1) False by (auto simp: dfs_estimate_def Let_def split: bind_splits)
      then have "grows (dfs_est st) s" using grows_est Cons.prems(2) by blast
      then show ?thesis using Cons.IH [OF 1(2)] grows_trans [of _ s] by (auto simp: grows_def)
    next
      case nl: False
      then have "estimate_candidates est gs ns acc ?st = Some (cs, st')"
        using Cons.prems(1) False by (auto simp: Let_def)
      then show ?thesis using Cons.IH [of acc ?st] Cons.prems(2) by simp
    qed
  qed
qed

text \<open>What a call, or a part of it, does to the state below the partial order \<open>p\<close>.\<close>

definition dfs_ext :: "join_graph \<Rightarrow> nat list \<Rightarrow> 's dfs \<Rightarrow> 's dfs \<Rightarrow> bool" where
  "dfs_ext graph p st st' \<longleftrightarrow>
     traversal_nodes st' = traversal_nodes st \<and> visited_nodes st' = visited_nodes st \<and> grows (dfs_est st) (dfs_est st') \<and>
     (\<exists>ts. traversals st' = traversals st @ ts \<and> traverse_bound st' = traverse_bound st + length ts \<and>
       (\<forall>t\<in>set ts. (\<exists>r. t = p @ r) \<and> join_order graph t) \<and>
       (optimal_traversal st' = optimal_traversal st \<and> min_join_size_estimation st' = min_join_size_estimation st \<or>
        optimal_traversal st' \<in> set ts \<and> min_join_size_estimation st' < min_join_size_estimation st \<and>
        (\<forall>V. charges val (dfs_est st') V \<longrightarrow> min_join_size_estimation st' = plan_cost V (optimal_traversal st'))))"

lemma dfs_ext_refl: "good (dfs_est st) \<Longrightarrow> dfs_ext graph p st st"
  by (simp add: dfs_ext_def grows_refl)

lemma dfs_ext_est: "grows (dfs_est st) s \<Longrightarrow> dfs_ext graph p st (st\<lparr>dfs_est := s\<rparr>)"
  by (simp add: dfs_ext_def)

lemma dfs_ext_prefix: "dfs_ext graph (p @ q) st st' \<Longrightarrow> dfs_ext graph p st st'"
  unfolding dfs_ext_def by (metis append.assoc)

lemma dfs_ext_trans:
  assumes "dfs_ext graph p st st1" and "dfs_ext graph p st1 st2"
  shows "dfs_ext graph p st st2"
proof -
  obtain ts1 where 1: "traversals st1 = traversals st @ ts1" "traverse_bound st1 = traverse_bound st + length ts1"
    "\<forall>t\<in>set ts1. (\<exists>r. t = p @ r) \<and> join_order graph t"
    "optimal_traversal st1 = optimal_traversal st \<and> min_join_size_estimation st1 = min_join_size_estimation st \<or>
      optimal_traversal st1 \<in> set ts1 \<and> min_join_size_estimation st1 < min_join_size_estimation st \<and>
      (\<forall>V. charges val (dfs_est st1) V \<longrightarrow> min_join_size_estimation st1 = plan_cost V (optimal_traversal st1))"
    using assms(1) unfolding dfs_ext_def by blast
  obtain ts2 where 2: "traversals st2 = traversals st1 @ ts2" "traverse_bound st2 = traverse_bound st1 + length ts2"
    "\<forall>t\<in>set ts2. (\<exists>r. t = p @ r) \<and> join_order graph t"
    "optimal_traversal st2 = optimal_traversal st1 \<and> min_join_size_estimation st2 = min_join_size_estimation st1 \<or>
      optimal_traversal st2 \<in> set ts2 \<and> min_join_size_estimation st2 < min_join_size_estimation st1 \<and>
      (\<forall>V. charges val (dfs_est st2) V \<longrightarrow> min_join_size_estimation st2 = plan_cost V (optimal_traversal st2))"
    using assms(2) unfolding dfs_ext_def by blast
  have g: "grows (dfs_est st) (dfs_est st1)" "grows (dfs_est st1) (dfs_est st2)" using assms by (simp_all add: dfs_ext_def)
  have opt: "optimal_traversal st2 = optimal_traversal st \<and> min_join_size_estimation st2 = min_join_size_estimation st \<or>
      optimal_traversal st2 \<in> set (ts1 @ ts2) \<and> min_join_size_estimation st2 < min_join_size_estimation st \<and>
      (\<forall>V. charges val (dfs_est st2) V \<longrightarrow> min_join_size_estimation st2 = plan_cost V (optimal_traversal st2))"
    using 1(4) 2(4) charges_grows [OF g(2)] by (elim disjE) auto
  show ?thesis
    unfolding dfs_ext_def
  proof (intro conjI exI)
    show "traversals st2 = traversals st @ (ts1 @ ts2)" using 1 2 by simp
    show "traverse_bound st2 = traverse_bound st + length (ts1 @ ts2)" using 1 2 by simp
    show "grows (dfs_est st) (dfs_est st2)" by (rule grows_trans [OF g])
  qed (use assms 1(3) 2(3) opt in \<open>auto simp: dfs_ext_def\<close>)
qed

text \<open>The precondition of a call: a stack that matches the visited nodes, and a cost that matches the stack.\<close>

definition call_ok :: "join_graph \<Rightarrow> nat \<Rightarrow> nat list \<Rightarrow> double \<Rightarrow> 's dfs \<Rightarrow> bool" where
  "call_ok graph node all_adj temp st \<longleftrightarrow>
     visited_nodes st = set (traversal_nodes st) \<and> partial_order_of graph (traversal_nodes st @ [node]) \<and> good (dfs_est st) \<and>
     (\<forall>V. charges val (dfs_est st) V \<longrightarrow> temp = plan_cost V (traversal_nodes st @ [node])) \<and>
     (\<forall>n. n \<in> set all_adj \<and> n \<notin> set (traversal_nodes st) \<longleftrightarrow>
        (\<exists>m\<in>set (traversal_nodes st). adjacent graph m n) \<and> n \<notin> set (traversal_nodes st))"

lemma call_ok_ext: "call_ok graph n all_adj temp st \<Longrightarrow> dfs_ext graph p st st' \<Longrightarrow> call_ok graph n all_adj temp st'"
  unfolding call_ok_def dfs_ext_def using charges_grows by (auto simp: grows_def)

lemma frontier_iff:
  assumes "call_ok graph node all_adj temp st" and "map_of graph node = Some adj"
  shows "n \<in> set (frontier graph adj (traversal_nodes st) node all_adj) \<longleftrightarrow>
    (\<exists>m\<in>set (traversal_nodes st @ [node]). adjacent graph m n) \<and> n \<notin> set (traversal_nodes st @ [node])"
proof -
  have adj: "adjacent graph node n \<longleftrightarrow> n \<in> set adj" for n using assms(2) by (simp add: adjacent_def)
  have "n \<in> set (frontier graph adj (traversal_nodes st) node all_adj) \<longleftrightarrow>
      (n \<in> set adj \<or> n \<in> set all_adj) \<and> n \<noteq> node \<and> n \<notin> set (traversal_nodes st)"
    by (auto simp: frontier_def)
  then show ?thesis using assms(1) adj [of n] unfolding call_ok_def by auto
qed

text \<open>The children of a call satisfy the precondition.\<close>

lemma call_ok_child:
  assumes wf: "wf_graph graph" and ok: "call_ok graph node all_adj temp st" and adj: "map_of graph node = Some adj"
    and v: "if traversal_nodes st = [] then v = 0 \<and> s = dfs_est st else est (traversal_nodes st @ [node]) (dfs_est st) = Some (v, s)"
    and g: "grows s s'" and n: "n \<in> set (frontier graph adj (traversal_nodes st) node all_adj)"
  shows "call_ok graph n (frontier graph adj (traversal_nodes st) node all_adj) (dadd temp v) (dfs_push node st\<lparr>dfs_est := s'\<rparr>)"
proof -
  let ?p = "traversal_nodes st @ [node]"
  have po: "partial_order_of graph ?p" and gd: "good (dfs_est st)" using ok by (simp_all add: call_ok_def)
  have nf: "\<exists>m\<in>set ?p. adjacent graph m n" "n \<notin> set ?p" using n frontier_iff [OF ok adj] by blast+
  have "partial_order_of graph (?p @ [n])"
    unfolding partial_order_of_def
  proof (intro conjI)
    show "connected_order graph (?p @ [n])"
      by (rule connected_order_snoc) (use po nf(1) in \<open>auto simp: partial_order_of_def\<close>)
    show "set (?p @ [n]) \<subseteq> set (map fst graph)" using po nf(1) wf by (auto simp: partial_order_of_def wf_graph_def)
    show "distinct (?p @ [n])" using po nf(2) by (auto simp: partial_order_of_def)
  qed
  moreover have "dadd temp v = plan_cost V (?p @ [n])" if V: "charges val s' V" for V
  proof -
    have Vs: "charges val s V" by (rule charges_grows [OF g V])
    show ?thesis
    proof (cases "traversal_nodes st = []")
      case True
      then have "charges val (dfs_est st) V" "v = 0" using Vs v by simp_all
      then show ?thesis using ok True by (auto simp: call_ok_def plan_cost_short dadd_def)
    next
      case False
      then have l: "2 \<le> length ?p" by (cases "traversal_nodes st") simp_all
      have e: "est ?p (dfs_est st) = Some (v, s)" using v False by simp
      have "charges val (dfs_est st) V" by (rule charges_grows [OF grows_est [OF gd e] Vs])
      moreover have "V ?p = v" using est_val [OF gd l e] Vs by (simp add: charges_def)
      ultimately show ?thesis using ok unfolding plan_cost_snoc [OF l] by (simp add: call_ok_def)
    qed
  qed
  ultimately show ?thesis
    using frontier_iff [OF ok adj] ok g unfolding call_ok_def by (auto simp: dfs_push_def grows_def)
qed

lemma dfs_pop_ext:
  assumes "call_ok graph node all_adj temp st" and "dfs_ext graph p (dfs_push node st\<lparr>dfs_est := s'\<rparr>) st2" and "grows (dfs_est st) s'"
  shows "dfs_ext graph p st (dfs_pop node st2)"
proof -
  have "node \<notin> set (traversal_nodes st)" using assms(1) by (auto simp: call_ok_def partial_order_of_def)
  then have "visited_nodes (dfs_pop node st2) = visited_nodes st" "traversal_nodes (dfs_pop node st2) = traversal_nodes st"
    using assms(1,2) by (auto simp: dfs_ext_def dfs_pop_def dfs_push_def call_ok_def)
  moreover have "grows (dfs_est st) (dfs_est (dfs_pop node st2))"
    using assms(2,3) grows_trans [of _ s'] by (simp add: dfs_ext_def dfs_pop_def dfs_push_def)
  ultimately show ?thesis using assms(2) unfolding dfs_ext_def by (simp add: dfs_pop_def dfs_push_def)
qed

text \<open>The loop over the candidates, for any property of calls.\<close>

lemma dfs_loop_ext:
  assumes IH: "\<And>n st st'. get_distinct_graph_traversals srt est graph NB fuel n all_adj temp st = Some st' \<Longrightarrow>
      call_ok graph n all_adj temp st \<Longrightarrow> dfs_ext graph (traversal_nodes st @ [n]) st st'"
    and ok: "\<And>n v. (n, v) \<in> set cs \<Longrightarrow> call_ok graph n all_adj temp st"
    and run: "dfs_loop srt est graph NB fuel all_adj temp cs st = Some st'" and gd: "good (dfs_est st)"
  shows "dfs_ext graph (traversal_nodes st) st st'"
  using ok run gd
proof (induction cs arbitrary: st)
  case Nil
  then show ?case by (simp add: dfs_loop_def dfs_ext_refl)
next
  case (Cons c cs)
  obtain n v where c: "c = (n, v)" by (cases c)
  have okn: "call_ok graph n all_adj temp st" using Cons.prems(1) [of n v] c by simp
  then have "n \<notin> visited_nodes st" by (auto simp: call_ok_def partial_order_of_def)
  then obtain st1 where 1: "get_distinct_graph_traversals srt est graph NB fuel n all_adj temp st = Some st1"
    "dfs_loop srt est graph NB fuel all_adj temp cs st1 = Some st'"
    using Cons.prems(2) unfolding c dfs_loop_def by (auto split: bind_splits)
  have ext: "dfs_ext graph (traversal_nodes st) st st1" by (rule dfs_ext_prefix [OF IH [OF 1(1) okn]])
  have "traversal_nodes st1 = traversal_nodes st" "good (dfs_est st1)" using ext by (simp_all add: dfs_ext_def grows_def)
  moreover have "call_ok graph m all_adj temp st1" if "(m, w) \<in> set cs" for m w
    using call_ok_ext [OF Cons.prems(1) [of m w] ext] that by simp
  ultimately have "dfs_ext graph (traversal_nodes st) st1 st'" using Cons.IH [of st1] 1(2) by simp
  then show ?case by (rule dfs_ext_trans [OF ext])
qed

lemma dfs_correct:
  assumes wf: "wf_graph graph"
  shows "get_distinct_graph_traversals srt est graph NB fuel node all_adj temp st = Some st' \<Longrightarrow>
    call_ok graph node all_adj temp st \<Longrightarrow> dfs_ext graph (traversal_nodes st @ [node]) st st'"
proof (induction fuel arbitrary: node all_adj temp st st')
  case 0
  then show ?case by simp
next
  case (Suc fuel)
  note ok = Suc.prems(2)
  have gd: "good (dfs_est st)" and po: "partial_order_of graph (traversal_nodes st @ [node])"
    and vis: "visited_nodes st = set (traversal_nodes st)" using ok by (simp_all add: call_ok_def)
  from Suc.prems(1) vis po show ?case
  proof (cases rule: dfs_step_cases)
    case bound
    then show ?thesis using dfs_ext_refl [OF gd] by simp
  next
    case (complete v s)
    have "join_order graph (traversal_nodes st @ [node])" by (rule partial_order_full [OF wf po complete(2)])
    moreover have "temp = plan_cost V (traversal_nodes st @ [node])" if "charges val s V" for V
      using ok charges_grows [OF grows_est [OF gd complete(3)] that] by (simp add: call_ok_def)
    ultimately show ?thesis
      unfolding complete(4) dfs_ext_def using grows_est [OF gd complete(3)]
      by (auto intro!: exI [of _ "[traversal_nodes st @ [node]]"])
  next
    case (prune v s)
    then show ?thesis using dfs_ext_est grows_est [OF gd] by simp
  next
    case (expand v s adj cs s' st2)
    let ?st1 = "dfs_push node st\<lparr>dfs_est := s'\<rparr>"
    have gs: "grows (dfs_est st) s"
      using expand(3) gd grows_est grows_refl by (auto split: if_splits)
    have gs': "grows s s'" using grows_candidates [OF expand(6)] gs by (simp add: dfs_push_def grows_def)
    have "dfs_ext graph (traversal_nodes ?st1) ?st1 st2"
    proof (rule dfs_loop_ext [OF _ _ expand(8)])
      show "dfs_ext graph (traversal_nodes st @ [n]) st st'"
        if "get_distinct_graph_traversals srt est graph NB fuel n (map fst cs) (dadd temp v) st = Some st'"
          "call_ok graph n (map fst cs) (dadd temp v) st" for n st st'
        using that by (rule Suc.IH)
      show "good (dfs_est ?st1)" using gs' by (simp add: grows_def)
      fix n w
      assume "(n, w) \<in> set (srt cs)"
      then have "n \<in> set (map fst cs)" unfolding set_srt by force
      then show "call_ok graph n (map fst cs) (dadd temp v) ?st1"
        unfolding expand(7) by (intro call_ok_child [OF wf ok expand(5) expand(3) gs'])
    qed
    then show ?thesis
      unfolding expand(9) by (intro dfs_pop_ext [OF ok _ grows_trans [OF gs gs']]) (simp add: dfs_push_def)
  qed
qed

end

end
