(* ===== verification/TraversalProps.thy ===== *)
theory TraversalProps
  imports Traversal
begin

text \<open>
  What the enumeration of \<open>Traversal\<close> finds. With a bound it does not reach it is a correct branch
  and bound: no join order from the start node is cheaper than the one it keeps. With the bound 1 it
  is the greedy algorithm: it finds one join order, each step of which takes a neighbour with the
  smallest estimate. It returns whenever the estimator does.
\<close>

section \<open>Branch and bound\<close>

context enumeration
begin

lemma dfs_ext_bound: "dfs_ext graph p st st' \<Longrightarrow> traverse_bound st \<le> traverse_bound st'"
  by (auto simp: dfs_ext_def)

lemma dfs_ext_min: "dfs_ext graph p st st' \<Longrightarrow> min_join_size_estimation st' \<le> min_join_size_estimation st"
  by (auto simp: dfs_ext_def)

lemma dfs_ext_charges: "dfs_ext graph p st st' \<Longrightarrow> charges val (dfs_est st') V \<Longrightarrow> charges val (dfs_est st) V"
  using charges_grows by (auto simp: dfs_ext_def)

lemma dfs_loop_visit:
  assumes wf: "wf_graph graph"
    and ok: "\<And>n. n \<in> fst ` set cs \<Longrightarrow> call_ok graph n all_adj temp st"
    and run: "dfs_loop srt est graph NB fuel all_adj temp cs st = Some st'" and gd: "good (dfs_est st)"
    and n: "n \<in> fst ` set cs"
  obtains st1 st2 where "dfs_ext graph (traversal_nodes st) st st1"
    and "get_distinct_graph_traversals srt est graph NB fuel n all_adj temp st1 = Some st2"
    and "call_ok graph n all_adj temp st1" and "traversal_nodes st1 = traversal_nodes st"
    and "dfs_ext graph (traversal_nodes st) st2 st'"
  using ok run gd n
proof (induction cs arbitrary: st thesis)
  case (Cons c cs)
  obtain m v where c: "c = (m, v)" by (cases c)
  have okm: "call_ok graph m all_adj temp st" using Cons.prems(2) [of m] c by simp
  then have "m \<notin> visited_nodes st" by (auto simp: call_ok_def partial_order_of_def)
  then obtain st1 where 1: "get_distinct_graph_traversals srt est graph NB fuel m all_adj temp st = Some st1"
    "dfs_loop srt est graph NB fuel all_adj temp cs st1 = Some st'"
    using Cons.prems(3) unfolding c dfs_loop_def by (auto split: bind_splits)
  have ext: "dfs_ext graph (traversal_nodes st) st st1" by (rule dfs_ext_prefix [OF dfs_correct [OF wf 1(1) okm]])
  then have tn: "traversal_nodes st1 = traversal_nodes st" "good (dfs_est st1)" by (simp_all add: dfs_ext_def grows_def)
  have ok1: "call_ok graph k all_adj temp st1" if "k \<in> fst ` set cs" for k
    using call_ok_ext [OF Cons.prems(2) [of k] ext] that by simp
  show ?case
  proof (cases "n = m")
    case True
    have "dfs_ext graph (traversal_nodes st1) st1 st'"
      by (rule dfs_loop_ext [OF dfs_correct [OF wf] ok1 1(2) tn(2)]) (assumption, assumption, force)
    then show ?thesis using True 1(1) okm tn dfs_ext_refl [OF Cons.prems(4)] by (intro Cons.prems(1)) simp_all
  next
    case False
    then have n: "n \<in> fst ` set cs" using Cons.prems(5) c by auto
    show ?thesis
    proof (rule Cons.IH [OF _ ok1 1(2) tn(2) n])
      fix st2 st3
      assume "dfs_ext graph (traversal_nodes st1) st1 st2"
        "get_distinct_graph_traversals srt est graph NB fuel n all_adj temp st2 = Some st3"
        "call_ok graph n all_adj temp st2" "traversal_nodes st2 = traversal_nodes st1"
        "dfs_ext graph (traversal_nodes st1) st3 st'"
      then show thesis using dfs_ext_trans [OF ext] tn(1) by (intro Cons.prems(1) [of st2 st3]) simp_all
    qed
  qed
qed simp

lemma dfs_loop_invariant:
  assumes wf: "wf_graph graph" and run: "dfs_loop srt est graph NB fuel all_adj temp cs st = Some st'"
    and ok: "\<And>n. n \<in> fst ` set cs \<Longrightarrow> call_ok graph n all_adj temp st" and "P st"
    and step: "\<And>n st st'. get_distinct_graph_traversals srt est graph NB fuel n all_adj temp st = Some st' \<Longrightarrow>
      call_ok graph n all_adj temp st \<Longrightarrow> P st \<Longrightarrow> P st'"
  shows "P st'"
  using run ok \<open>P st\<close>
proof (induction cs arbitrary: st)
  case (Cons c cs)
  obtain n v where c: "c = (n, v)" by (cases c)
  have okn: "call_ok graph n all_adj temp st" using Cons.prems(2) [of n] c by simp
  then have "n \<notin> visited_nodes st" by (auto simp: call_ok_def partial_order_of_def)
  then obtain st1 where 1: "get_distinct_graph_traversals srt est graph NB fuel n all_adj temp st = Some st1"
    "dfs_loop srt est graph NB fuel all_adj temp cs st1 = Some st'"
    using Cons.prems(1) unfolding c dfs_loop_def by (auto split: bind_splits)
  show ?case
    using call_ok_ext [OF Cons.prems(2) dfs_correct [OF wf 1(1) okn]] step [OF 1(1) okn Cons.prems(3)]
    by (intro Cons.IH [OF 1(2)]) simp_all
qed (simp add: dfs_loop_def)

lemma dfs_bounded:
  assumes wf: "wf_graph graph"
  shows "get_distinct_graph_traversals srt est graph NB fuel node all_adj temp st = Some st' \<Longrightarrow>
    call_ok graph node all_adj temp st \<Longrightarrow> traverse_bound st \<le> NB \<Longrightarrow> traverse_bound st' \<le> NB"
proof (induction fuel arbitrary: node all_adj temp st st')
  case (Suc fuel)
  note ok = Suc.prems(2)
  have gd: "good (dfs_est st)" and po: "partial_order_of graph (traversal_nodes st @ [node])"
    and vis: "visited_nodes st = set (traversal_nodes st)" using ok by (simp_all add: call_ok_def)
  from Suc.prems(1) vis po show ?case
  proof (cases rule: dfs_step_cases)
    case (expand v s adj cs s' st2)
    have gs: "grows (dfs_est st) s" using expand(3) gd grows_est grows_refl by (auto split: if_splits)
    have gs': "grows s s'" using grows_candidates [OF expand(6)] gs by (simp add: dfs_push_def grows_def)
    have "traverse_bound st2 \<le> NB"
    proof (rule dfs_loop_invariant [OF wf expand(8)])
      show "call_ok graph k (map fst cs) (dadd temp v) (dfs_push node st\<lparr>dfs_est := s'\<rparr>)" if "k \<in> fst ` set (srt cs)" for k
        unfolding expand(7) by (rule call_ok_child [OF wf ok expand(5) expand(3) gs'])
          (use that in \<open>simp add: set_srt expand(7) [symmetric]\<close>)
    qed (use Suc in \<open>simp_all add: dfs_push_def\<close>)
    then show ?thesis by (simp add: expand(9) dfs_pop_def)
  qed (use Suc.prems(3) in simp_all)
qed simp

lemma dfs_optimal:
  assumes wf: "wf_graph graph" and NB: "NB \<noteq> 1"
  shows "get_distinct_graph_traversals srt est graph NB fuel node all_adj temp st = Some st' \<Longrightarrow>
    call_ok graph node all_adj temp st \<Longrightarrow> traverse_bound st' < NB \<Longrightarrow> charges val (dfs_est st') V \<Longrightarrow>
    join_order graph (traversal_nodes st @ node # r) \<Longrightarrow>
    min_join_size_estimation st' \<le> plan_cost V (traversal_nodes st @ node # r)"
proof (induction fuel arbitrary: node all_adj temp st st' r)
  case 0
  then show ?case by simp
next
  case (Suc fuel)
  note ok = Suc.prems(2) and V = Suc.prems(4)
  let ?p = "traversal_nodes st @ [node]"
  have gd: "good (dfs_est st)" and po: "partial_order_of graph ?p"
    and vis: "visited_nodes st = set (traversal_nodes st)" using ok by (simp_all add: call_ok_def)
  have Vst: "charges val (dfs_est st) V" by (rule dfs_ext_charges [OF dfs_correct [OF wf Suc.prems(1,2)] V])
  then have temp: "temp = plan_cost V ?p" using ok by (simp add: call_ok_def)
  have len: "length ?p + length r = length graph"
    using arg_cong [OF conjunct1 [OF Suc.prems(5) [unfolded join_order_def]], of size] by simp
  from Suc.prems(1) vis po show ?case
  proof (cases rule: dfs_step_cases)
    case bound
    then show ?thesis using Suc.prems(3) by simp
  next
    case (complete v s)
    then show ?thesis using temp len by simp
  next
    case (prune v s)
    then obtain n r' where r: "r = n # r'" using len by (cases r) auto
    have l: "2 \<le> length ?p" using prune(3) by (cases "traversal_nodes st") simp_all
    have "V ?p = v" using est_val [OF gd l prune(5)] V prune(7) by (simp add: charges_def)
    then have "dadd temp v = plan_cost V (?p @ [n])" using plan_cost_snoc [OF l] temp by simp
    also have "\<dots> \<le> plan_cost V ((?p @ [n]) @ r')" by (rule plan_cost_mono [OF Vst])
    finally show ?thesis using prune(6,7) r by simp
  next
    case (expand v s adj cs s' st2)
    let ?st1 = "dfs_push node st\<lparr>dfs_est := s'\<rparr>"
    obtain n r' where r: "r = n # r'" using expand(2) len by (cases r) auto
    have jo: "connected_order graph (?p @ n # r')" "distinct (?p @ n # r')"
      using Suc.prems(5) wf mset_eq_imp_distinct_iff unfolding r join_order_def wf_graph_def by fastforce+
    have gs: "grows (dfs_est st) s" using expand(3) gd grows_est grows_refl by (auto split: if_splits)
    have gs': "grows s s'" using grows_candidates [OF expand(6)] gs by (simp add: dfs_push_def grows_def)
    have "n \<in> set (frontier graph adj (traversal_nodes st) node all_adj)"
      unfolding frontier_iff [OF ok expand(5)] using connected_order_next [OF jo(1)] jo(2) by auto
    then have n: "n \<in> fst ` set (srt cs)" unfolding set_srt expand(7) [symmetric] by simp
    have child: "call_ok graph k (map fst cs) (dadd temp v) ?st1" if "k \<in> fst ` set (srt cs)" for k
    proof -
      have "k \<in> set (map fst cs)" using that unfolding set_srt by simp
      then show ?thesis unfolding expand(7) by (intro call_ok_child [OF wf ok expand(5) expand(3) gs'])
    qed
    have "good (dfs_est ?st1)" using gs' by (simp add: grows_def)
    obtain stb stc where b: "get_distinct_graph_traversals srt est graph NB fuel n (map fst cs) (dadd temp v) stb = Some stc"
      "call_ok graph n (map fst cs) (dadd temp v) stb" "traversal_nodes stb = ?p"
      "dfs_ext graph ?p stc st2"
      by (rule dfs_loop_visit [OF wf child expand(8) \<open>good (dfs_est ?st1)\<close> n]) (simp_all add: dfs_push_def)
    have "min_join_size_estimation stc \<le> plan_cost V (traversal_nodes stb @ n # r')"
    proof (rule Suc.IH [OF b(1,2)])
      show "traverse_bound stc < NB" using dfs_ext_bound [OF b(4)] Suc.prems(3) by (simp add: expand(9) dfs_pop_def)
      show "charges val (dfs_est stc) V"
        by (rule dfs_ext_charges [OF b(4)]) (use V in \<open>simp add: expand(9) dfs_pop_def\<close>)
      show "join_order graph (traversal_nodes stb @ n # r')" using Suc.prems(5) b(3) r by simp
    qed
    then show ?thesis using dfs_ext_min [OF b(4)] b(3) r by (simp add: expand(9) dfs_pop_def)
  qed
qed

end

section \<open>The greedy enumeration\<close>

text \<open>A graph in which every proper part has a neighbour outside, as for a query without cartesian product.\<close>

definition connected_graph :: "join_graph \<Rightarrow> bool" where
  "connected_graph graph \<longleftrightarrow>
     (\<forall>S. S \<noteq> {} \<longrightarrow> S \<subset> set (map fst graph) \<longrightarrow> (\<exists>m\<in>S. \<exists>n. n \<notin> S \<and> adjacent graph m n))"

text \<open>The node at position \<open>k\<close> has the smallest estimate of all the neighbours of the nodes before it.\<close>

definition greedy_step :: "join_graph \<Rightarrow> (nat list \<Rightarrow> double) \<Rightarrow> nat list \<Rightarrow> nat \<Rightarrow> bool" where
  "greedy_step graph V t k \<longleftrightarrow>
     (\<forall>n. n \<notin> set (take k t) \<and> (\<exists>m\<in>set (take k t). adjacent graph m n) \<longrightarrow> V (take (Suc k) t) \<le> V (take k t @ [n]))"

text \<open>The values of the estimates made so far, completed by 0.\<close>

definition charged :: "('s \<Rightarrow> nat list \<Rightarrow> double option) \<Rightarrow> 's \<Rightarrow> nat list \<Rightarrow> double" where
  "charged val s ns = (case val s ns of Some w \<Rightarrow> w | None \<Rightarrow> 0)"

context enumeration
begin

lemma charges_charged: "good s \<Longrightarrow> charges val s (charged val s)"
  unfolding charges_def charged_def using est_double [OF _ est_hit] by (auto split: option.splits)

lemma candidates_val:
  assumes "estimate_candidates est gs ns acc st = Some (cs, st')" and "good (dfs_est st)"
    and "traversal_nodes st \<noteq> []" and "length (traversal_nodes st) < gs"
    and "\<forall>(n, v)\<in>set acc. val (dfs_est st) (traversal_nodes st @ [n]) = Some v"
  shows "\<forall>(n, v)\<in>set cs. val (dfs_est st') (traversal_nodes st @ [n]) = Some v"
  using assms
proof (induction ns arbitrary: acc st)
  case (Cons n ns)
  show ?case
  proof (cases "n \<in> visited_nodes st")
    case True
    then show ?thesis using Cons by simp
  next
    case False
    let ?q = "traversal_nodes st @ [n]"
    have l: "2 \<le> length ?q" "length ?q \<le> gs" using Cons.prems(3,4) by (cases "traversal_nodes st"; simp)+
    then obtain v s where e: "est ?q (dfs_est st) = Some (v, s)"
      "estimate_candidates est gs ns (acc @ [(n, v)]) (st\<lparr>dfs_est := s\<rparr>) = Some (cs, st')"
      using Cons.prems(1,3) False by (auto simp: dfs_estimate_def Let_def split: bind_splits)
    have "grows (dfs_est st) s" by (rule grows_est [OF Cons.prems(2) e(1)])
    moreover from this have "\<forall>(k, w)\<in>set (acc @ [(n, v)]). val s (traversal_nodes st @ [k]) = Some w"
      using Cons.prems(5) est_val [OF Cons.prems(2) l(1) e(1)] unfolding grows_def by auto
    ultimately show ?thesis using Cons.IH [OF e(2)] Cons.prems(3,4) by (simp add: grows_def)
  qed
qed auto

lemma dfs_loop_reached:
  assumes "NB \<le> traverse_bound st"
  shows "dfs_loop srt est graph NB (Suc fuel) all_adj temp cs st = Some st"
  using assms unfolding dfs_loop_def by (induction cs) auto

lemma frontier_nonempty:
  assumes "connected_graph graph" and "call_ok graph node all_adj temp st" and "map_of graph node = Some adj"
    and "length (traversal_nodes st @ [node]) < length graph" and "wf_graph graph"
  shows "frontier graph adj (traversal_nodes st) node all_adj \<noteq> []"
proof -
  let ?p = "traversal_nodes st @ [node]"
  have po: "partial_order_of graph ?p" using assms(2) by (simp add: call_ok_def)
  have "card (set ?p) < card (set (map fst graph))"
    using assms(4,5) po by (simp only: partial_order_of_def wf_graph_def distinct_card length_map)
  then have "set ?p \<noteq> set (map fst graph)" by auto
  then have "set ?p \<subset> set (map fst graph)" using po by (auto simp: partial_order_of_def)
  then obtain m n where "m \<in> set ?p" "n \<notin> set ?p" "adjacent graph m n"
    using assms(1) unfolding connected_graph_def by (metis Nil_is_append_conv not_Cons_self2 set_empty)
  then have "n \<in> set (frontier graph adj (traversal_nodes st) node all_adj)"
    unfolding frontier_iff [OF assms(2,3)] by blast
  then show ?thesis by auto
qed

lemma greedy_choice:
  assumes ok: "call_ok graph node all_adj temp st" and adj: "map_of graph node = Some adj"
    and fr: "map fst cs = frontier graph adj (traversal_nodes st) node all_adj" and srt: "srt cs = (n, w) # rest"
    and vals: "\<forall>(n, v)\<in>set cs. val s' (traversal_nodes st @ [node, n]) = Some v" and V: "charges val s' V"
  shows "greedy_step graph V (traversal_nodes st @ node # n # r) (Suc (length (traversal_nodes st)))"
  unfolding greedy_step_def
proof (intro allI impI)
  let ?p = "traversal_nodes st @ [node]" and ?t = "traversal_nodes st @ node # n # r"
  fix k
  assume k: "k \<notin> set (take (Suc (length (traversal_nodes st))) ?t) \<and>
    (\<exists>m\<in>set (take (Suc (length (traversal_nodes st))) ?t). adjacent graph m k)"
  have tk: "take (Suc (length (traversal_nodes st))) ?t = ?p"
    "take (Suc (Suc (length (traversal_nodes st)))) ?t = ?p @ [n]" by simp_all
  have "k \<in> set (map fst cs)" unfolding fr frontier_iff [OF ok adj] using k unfolding tk by simp
  then obtain x where x: "(k, x) \<in> set (srt cs)" unfolding set_srt by auto
  have in_cs: "(n, w) \<in> set cs" "(k, x) \<in> set cs" using x srt set_srt by (metis list.set_intros(1))+
  have "w \<le> x" using srt_sorted [of cs] x unfolding srt by auto
  moreover have "V (?p @ [n]) = w" "V (?p @ [k]) = x" using vals in_cs V by (auto simp: charges_def)
  ultimately show "V (take (Suc (Suc (length (traversal_nodes st)))) ?t) \<le> V (take (Suc (length (traversal_nodes st))) ?t @ [k])"
    unfolding tk by simp
qed

definition greedy_result :: "join_graph \<Rightarrow> nat list \<Rightarrow> 's dfs \<Rightarrow> 's dfs \<Rightarrow> bool" where
  "greedy_result graph p st st' \<longleftrightarrow> (\<exists>r. traversals st' = traversals st @ [p @ r] \<and> traverse_bound st' = 1 \<and>
     (\<forall>V. charges val (dfs_est st') V \<longrightarrow> min_join_size_estimation st' \<le> plan_cost V (p @ r) \<and>
       (\<forall>k. length p \<le> k \<and> k < length (p @ r) \<longrightarrow> greedy_step graph V (p @ r) k)))"

lemma dfs_greedy:
  assumes wf: "wf_graph graph" and conn: "connected_graph graph"
  shows "get_distinct_graph_traversals srt est graph 1 fuel node all_adj temp st = Some st' \<Longrightarrow>
    call_ok graph node all_adj temp st \<Longrightarrow> traverse_bound st = 0 \<Longrightarrow>
    greedy_result graph (traversal_nodes st @ [node]) st st'"
proof (induction fuel arbitrary: node all_adj temp st st')
  case 0
  then show ?case by simp
next
  case (Suc fuel)
  note ok = Suc.prems(2)
  let ?p = "traversal_nodes st @ [node]"
  have gd: "good (dfs_est st)" and po: "partial_order_of graph ?p"
    and vis: "visited_nodes st = set (traversal_nodes st)" using ok by (simp_all add: call_ok_def)
  from Suc.prems(1) vis po show ?case
  proof (cases rule: dfs_step_cases)
    case (complete v s)
    have "temp = plan_cost V ?p" if "charges val s V" for V
      using ok charges_grows [OF grows_est [OF gd complete(3)] that] by (simp add: call_ok_def)
    then show ?thesis
      unfolding greedy_result_def complete(4) using Suc.prems(3) by (intro exI [of _ "[]"]) auto
  next
    case (expand v s adj cs s' st2)
    let ?st1 = "dfs_push node st\<lparr>dfs_est := s'\<rparr>"
    have gs: "grows (dfs_est st) s" using expand(3) gd grows_est grows_refl by (auto split: if_splits)
    have gs': "grows s s'" using grows_candidates [OF expand(6)] gs by (simp add: dfs_push_def grows_def)
    have vals: "\<forall>(n, v)\<in>set cs. val s' (?p @ [n]) = Some v"
      using candidates_val [OF expand(6)] gs expand(2) by (simp add: dfs_push_def grows_def)
    have "cs \<noteq> []" using frontier_nonempty [OF conn ok expand(5) expand(2) wf] expand(7) by auto
    then obtain n w rest where srt: "srt cs = (n, w) # rest"
      by (metis srt_mset mset_zero_iff neq_Nil_conv surj_pair)
    have "n \<in> set (map fst cs)" using srt set_srt [of cs] by (auto simp: image_iff intro: bexI [of _ "(n, w)"])
    then have okn: "call_ok graph n (map fst cs) (dadd temp v) ?st1"
      unfolding expand(7) by (rule call_ok_child [OF wf ok expand(5) expand(3) gs'])
    then have "n \<notin> visited_nodes ?st1" by (auto simp: call_ok_def partial_order_of_def)
    then obtain st3 where run: "get_distinct_graph_traversals srt est graph 1 fuel n (map fst cs) (dadd temp v) ?st1 = Some st3"
      and rest: "dfs_loop srt est graph 1 fuel (map fst cs) (dadd temp v) rest st3 = Some st2"
      using expand(8) unfolding srt dfs_loop_def by (auto split: bind_splits)
    have ext: "grows s' (dfs_est st3)" using dfs_correct [OF wf run okn] by (simp add: dfs_ext_def)
    obtain r where r: "traversals st3 = traversals st @ [?p @ n # r]" "traverse_bound st3 = 1"
      "\<And>V. charges val (dfs_est st3) V \<Longrightarrow> min_join_size_estimation st3 \<le> plan_cost V (?p @ n # r)"
      "\<And>V k. charges val (dfs_est st3) V \<Longrightarrow> Suc (length ?p) \<le> k \<Longrightarrow> k < length (?p @ n # r) \<Longrightarrow> greedy_step graph V (?p @ n # r) k"
      using Suc.IH [OF run okn] Suc.prems(3) unfolding greedy_result_def by (auto simp: dfs_push_def)
    have "st2 = st3" using rest r(2) dfs_loop_reached [of 1 st3] run by (cases fuel) auto
    moreover have "greedy_step graph V (?p @ n # r) k"
      if "charges val (dfs_est st3) V" "length ?p \<le> k" "k < length (?p @ n # r)" for V k
    proof (cases "k = length ?p")
      case True
      then show ?thesis using greedy_choice [OF ok expand(5,7) srt, of s' V r] vals charges_grows [OF ext that(1)] by simp
    next
      case False
      then show ?thesis using r(4) that by simp
    qed
    ultimately show ?thesis
      unfolding greedy_result_def expand(9) using r(1-3) by (intro exI [of _ "n # r"]) (simp add: dfs_pop_def)
  qed (use Suc.prems(3) in simp_all)
qed

lemma candidates_total:
  assumes total: "\<And>ns s. good s \<Longrightarrow> partial_order_of graph ns \<Longrightarrow> ns \<noteq> [] \<Longrightarrow> hd ns = start \<Longrightarrow> est ns s \<noteq> None"
    and "good (dfs_est st)" and "\<And>n. n \<in> set ns \<Longrightarrow> n \<notin> visited_nodes st \<Longrightarrow> partial_order_of graph (traversal_nodes st @ [n])"
    and "traversal_nodes st \<noteq> []" and "length (traversal_nodes st) < gs" and "hd (traversal_nodes st) = start"
  shows "estimate_candidates est gs ns acc st \<noteq> None"
  using assms(2-)
proof (induction ns arbitrary: acc st)
  case (Cons n ns)
  show ?case
  proof (cases "n \<in> visited_nodes st")
    case True
    then show ?thesis using Cons by simp
  next
    case False
    let ?q = "traversal_nodes st @ [n]"
    have l: "1 < length ?q" "length ?q \<le> gs" using Cons.prems(3,4) by (cases "traversal_nodes st"; simp)+
    obtain v s where e: "est ?q (dfs_est st) = Some (v, s)"
      using total [OF Cons.prems(1) Cons.prems(2) [of n]] False Cons.prems(3,5) by auto
    have "estimate_candidates est gs ns (acc @ [(n, v)]) (st\<lparr>dfs_est := s\<rparr>) \<noteq> None"
      using grows_est [OF Cons.prems(1) e] Cons.prems(2-) by (intro Cons.IH) (auto simp: grows_def)
    then show ?thesis using False l e by (simp add: dfs_estimate_def)
  qed
qed simp

lemma dfs_loop_total:
  assumes "\<And>n st. call_ok graph n all_adj temp st \<Longrightarrow> traversal_nodes st = p \<Longrightarrow>
      get_distinct_graph_traversals srt est graph NB fuel n all_adj temp st \<noteq> None"
    and "\<And>n. n \<in> fst ` set cs \<Longrightarrow> call_ok graph n all_adj temp st" and "traversal_nodes st = p" and "wf_graph graph"
  shows "dfs_loop srt est graph NB fuel all_adj temp cs st \<noteq> None"
  using assms(2,3)
proof (induction cs arbitrary: st)
  case Nil
  then show ?case by (simp add: dfs_loop_def)
next
  case (Cons c cs)
  obtain n v where c: "c = (n, v)" by (cases c)
  have okn: "call_ok graph n all_adj temp st" using Cons.prems(1) [of n] c by simp
  then obtain st1 where run: "get_distinct_graph_traversals srt est graph NB fuel n all_adj temp st = Some st1"
    using assms(1) Cons.prems(2) by blast
  have ext: "dfs_ext graph p st st1"
    using dfs_ext_prefix [OF dfs_correct [OF assms(4) run okn]] Cons.prems(2) by simp
  have "dfs_loop srt est graph NB fuel all_adj temp cs st1 \<noteq> None"
    using call_ok_ext [OF Cons.prems(1) ext] Cons.prems(2) ext by (intro Cons.IH) (auto simp: dfs_ext_def)
  moreover have "n \<notin> visited_nodes st" using okn by (auto simp: call_ok_def partial_order_of_def)
  ultimately show ?case using run unfolding c dfs_loop_def by auto
qed

lemma dfs_total:
  assumes wf: "wf_graph graph"
    and total: "\<And>ns s. good s \<Longrightarrow> partial_order_of graph ns \<Longrightarrow> ns \<noteq> [] \<Longrightarrow> hd ns = start \<Longrightarrow> est ns s \<noteq> None"
  shows "call_ok graph node all_adj temp st \<Longrightarrow> length graph \<le> fuel + length (traversal_nodes st) \<Longrightarrow>
    hd (traversal_nodes st @ [node]) = start \<Longrightarrow>
    get_distinct_graph_traversals srt est graph NB fuel node all_adj temp st \<noteq> None"
proof (induction fuel arbitrary: node all_adj temp st)
  case 0
  then have "partial_order_of graph (traversal_nodes st @ [node])" by (simp add: call_ok_def)
  then show ?case using partial_order_length 0 by fastforce
next
  case (Suc fuel)
  note ok = Suc.prems(1)
  let ?p = "traversal_nodes st @ [node]" and ?st = "dfs_push node st"
  have gd: "good (dfs_est st)" and po: "partial_order_of graph ?p"
    and vis: "visited_nodes st = set (traversal_nodes st)" using ok by (simp_all add: call_ok_def)
  have push: "traversal_nodes ?st = ?p" "visited_nodes ?st = insert node (set (traversal_nodes st))" "dfs_est ?st = dfs_est st"
    using vis by (simp_all add: dfs_push_def)
  obtain v s where e: "est ?p (dfs_est st) = Some (v, s)" using total [OF gd po _ Suc.prems(3)] by auto
  show ?case
  proof (cases "NB \<le> traverse_bound st \<or> length ?p = length graph")
    case True
    then show ?thesis using e push by (auto simp: dfs_estimate_def Let_def)
  next
    case False
    then have lt: "length ?p < length graph" using partial_order_length [OF po] by simp
    obtain adj where adj: "map_of graph node = Some adj"
      using po by (force simp: partial_order_of_def map_of_eq_None_iff)
    obtain v' s' where v': "(if length (traversal_nodes ?st) > 1 \<and> length (traversal_nodes ?st) < length graph
        then dfs_estimate est ?st else Some (0, ?st)) = Some (v', ?st\<lparr>dfs_est := s'\<rparr>)"
      and vs: "if traversal_nodes st = [] then v' = 0 \<and> s' = dfs_est st else est ?p (dfs_est st) = Some (v', s')"
    proof (cases "traversal_nodes st = []")
      case True
      then show ?thesis using push by (intro that [of 0 "dfs_est st"]) (simp_all add: dfs_push_def)
    next
      case False
      then show ?thesis using push e lt by (intro that [of v s]) (simp_all add: dfs_estimate_def)
    qed
    have gs: "grows (dfs_est st) s'" using vs gd grows_est grows_refl by (auto split: if_splits)
    let ?ns = "sort (remdups (adj @ filter (\<lambda>n. n \<notin> visited_nodes ?st) all_adj))"
    have ns: "filter (\<lambda>n. n \<notin> visited_nodes ?st) ?ns = frontier graph adj (traversal_nodes st) node all_adj"
      by (simp add: frontier_def push)
    have "estimate_candidates est (length graph) ?ns [] (?st\<lparr>dfs_est := s'\<rparr>) \<noteq> None"
    proof (rule candidates_total [OF total])
      show "partial_order_of graph (traversal_nodes (?st\<lparr>dfs_est := s'\<rparr>) @ [n])"
        if "n \<in> set ?ns" "n \<notin> visited_nodes (?st\<lparr>dfs_est := s'\<rparr>)" for n
      proof -
        have "n \<in> set (frontier graph adj (traversal_nodes st) node all_adj)" using that by (simp add: ns [symmetric])
        from call_ok_child [OF wf ok adj vs grows_refl this] gs
        show ?thesis by (simp add: call_ok_def grows_def push)
      qed
    qed (use gs lt push Suc.prems(3) in \<open>simp_all add: grows_def\<close>)
    then obtain cs st1 where cand: "estimate_candidates est (length graph) ?ns [] (?st\<lparr>dfs_est := s'\<rparr>) = Some (cs, st1)" by auto
    obtain s'' where st1: "st1 = ?st\<lparr>dfs_est := s''\<rparr>" and fst: "map fst cs = frontier graph adj (traversal_nodes st) node all_adj"
      using estimate_candidates_result [OF cand] lt push ns by auto
    have gs': "grows s' s''" using grows_candidates [OF cand] gs by (simp add: st1 dfs_push_def grows_def)
    have "dfs_loop srt est graph NB fuel (map fst cs) (dadd temp v') (srt cs) st1 \<noteq> None"
    proof (rule dfs_loop_total [where p = ?p, OF Suc.IH _ _ wf])
      show "hd (traversal_nodes st' @ [n]) = start" if "traversal_nodes st' = ?p" for st' n
        using that Suc.prems(3) by (cases "traversal_nodes st") simp_all
      show "call_ok graph n (map fst cs) (dadd temp v') st1" if "n \<in> fst ` set (srt cs)" for n
        unfolding st1 fst by (rule call_ok_child [OF wf ok adj vs gs']) (use that in \<open>simp add: set_srt fst [symmetric]\<close>)
    qed (use Suc.prems(2) in \<open>simp_all add: st1 push\<close>)
    then show ?thesis using False v' adj cand push by (auto simp: Let_def dfs_loop_def)
  qed
qed

end

end
