(* ===== verification/SketchEnumeration.thy ===== *)
theory SketchEnumeration
  imports EstimateSafe TraversalProps
begin

text \<open>
  The enumeration run with the sketch estimator: the interpretation of the enumeration on
  \<open>estimate_join_size\<close> and its correctness as \<open>get_node_input_permutation\<close> calls it, with an empty
  stack, no visited nodes and no cost so far. \<open>std::sort\<close> is instantiated by the stable sort.
\<close>

interpretation ready: memo_estimator "estimate_join_size b s js" est_val "\<lambda>st. est_ready R B s js st \<and> b \<in> ran s"
proof
  fix st st' :: est_state and nodes ns ms :: "nat list" and v w :: double
  assume ready: "est_ready R B s js st \<and> b \<in> ran s"
  then have good: "est_good st" by (simp add: est_ready_def)
  show "0 \<le> v \<and> round64 v = v \<and> est_ready R B s js st' \<and> b \<in> ran s"
    if run: "estimate_join_size b s js nodes st = Some (v, st')"
    using estimate.est_double [OF good run] ready family_ok_changed [OF _ estimate_join_size_changed [OF run]]
    by (auto simp: est_ready_def)
  show "est_val st' nodes = Some v" if "2 \<le> length nodes" "estimate_join_size b s js nodes st = Some (v, st')"
    by (rule estimate.est_val [OF good that])
  show "estimate_join_size b s js nodes st = Some (v, st)" if "est_val st nodes = Some v"
    by (rule estimate.est_hit [OF good that])
next
  fix st st' :: est_state and nodes ns ms :: "nat list" and v w :: double
  show "est_val st' ns = Some w" if "estimate_join_size b s js nodes st = Some (v, st')" "est_val st ns = Some w"
    using that by (rule estimate.est_grow)
  show "est_val st ns = est_val st ms" if "mset ns = mset ms" using that by (rule estimate.val_perm)
qed

interpretation sketch: enumeration "sort_key snd" "estimate_join_size b s js" est_val "\<lambda>st. est_ready R B s js st \<and> b \<in> ran s"
  by unfold_locales

text \<open>The state in which the enumeration starts, and the join graph of the join conditions.\<close>

definition dfs_start :: "double \<Rightarrow> est_state \<Rightarrow> est_state dfs" where
  "dfs_start m st = \<lparr>traversal_nodes = [], visited_nodes = {}, traversals = [], optimal_traversal = [],
     min_join_size_estimation = m, traverse_bound = 0, dfs_est = st\<rparr>"

definition graph_joins :: "join_graph \<Rightarrow> (nat \<rightharpoonup> join_info list) \<Rightarrow> bool" where
  "graph_joins graph js \<longleftrightarrow> (\<forall>m n. adjacent graph m n \<longrightarrow> n \<in> ji_other_node ` set (join_nodes_of js m))"

lemma call_ok_start:
  assumes "est_ready R B s js st" and "s node = Some b" and "node \<in> set (map fst graph)"
  shows "sketch.call_ok R B s js b graph node [] 0 (dfs_start m st)"
  unfolding sketch.call_ok_def
  using assms ranI [of s node b]
  by (auto simp: dfs_start_def partial_order_of_def connected_order_def plan_cost_short)

lemma estimate_total_start:
  assumes "wf_graph graph" and "graph_joins graph js" and "set (map fst graph) \<subseteq> dom s" and "s node = Some b"
    and "est_ready R B s js st" and "partial_order_of graph ns" and "ns \<noteq> []" and "hd ns = node"
  shows "estimate_join_size b s js ns st \<noteq> None"
proof -
  have "n \<in> ji_other_node ` set (join_nodes_of js m) \<and> m \<in> ji_other_node ` set (join_nodes_of js n)" if "ns = [m, n]" for m n
  proof -
    have "adjacent graph m n"
      using assms(6) that connected_order_next [of graph "[m]" n "[]"] by (simp add: partial_order_of_def)
    then show ?thesis using assms(1,2) by (simp add: graph_joins_def wf_graph_def)
  qed
  moreover have "set ns \<subseteq> dom s" using assms(3,6) unfolding partial_order_of_def by (meson order_trans)
  ultimately show ?thesis using estimate_join_size_total [OF assms(5,7)] assms(4,8) by fastforce
qed

section \<open>A concrete run\<close>

definition sketches_example :: "nat \<rightharpoonup> FAGMS_Sketch" where
  "sketches_example = [10 \<mapsto> sketch_example 0 4, 20 \<mapsto> sketch_example 1 5]"

definition joins_example :: "nat \<rightharpoonup> join_info list" where
  "joins_example = [10 \<mapsto> [join_example 20], 20 \<mapsto> [join_example 10]]"

definition graph_example :: join_graph where
  "graph_example = [(10, [20]), (20, [10])]"

lemma adjacent_example: "adjacent graph_example m n \<longleftrightarrow> m = 10 \<and> n = 20 \<or> m = 20 \<and> n = 10"
  by (auto simp: adjacent_def graph_example_def split: if_splits)

lemma graph_example_ok:
  "wf_graph graph_example" "connected_graph graph_example" "graph_joins graph_example joins_example"
  "set (map fst graph_example) \<subseteq> dom sketches_example" "sketches_example 10 = Some (sketch_example 0 4)"
  "10 \<in> set (map fst graph_example)" "length graph_example = 2"
proof -
  show "wf_graph graph_example" by (simp add: wf_graph_def adjacent_example) (auto simp: graph_example_def)
  show "graph_joins graph_example joins_example"
    by (auto simp: graph_joins_def adjacent_example joins_example_def join_nodes_of_def join_example_def)
  show "connected_graph graph_example"
    unfolding connected_graph_def adjacent_example by (auto simp: graph_example_def)
qed (auto simp: graph_example_def sketches_example_def)

lemma est_ready_example: "est_ready 1 1 sketches_example joins_example est_example"
proof -
  have A: "elem_arrays sketches_example = {0, 1}"
    by (auto simp: elem_arrays_def sketches_example_def sketch_example_def ran_map_upd)
  have "family_ok 1 1 sketches_example joins_example (est_heap est_example)"
    unfolding family_ok_def A
    by (auto simp: sketches_example_def joins_example_def join_nodes_of_def sketch_ok_def sketch_example_def sketch_size_def
        est_example_def test_heap_def load_def split: if_splits)
  then show ?thesis by (simp add: est_ready_def est_good_def est_example_def)
qed

section \<open>Correctness of the enumeration\<close>

text \<open>
  C7. The enumeration from a start node always returns, given as much recursion depth as the graph
  has nodes: it reads the sketches without a memory error, leaves the stack and the visited nodes as
  it found them, and counts the traversals it lists, at most \<open>NODE_TRAVERSE_BOUND\<close>. All of them are
  join orders without cartesian product that begin at the start node, and the plan it keeps is one
  of them, with its cost, unless none is cheaper than the initial minimum.
\<close>

theorem enumeration_correct:
  assumes "wf_graph graph" and "graph_joins graph js" and "set (map fst graph) \<subseteq> dom s"
    and "est_ready R B s js st" and "s node = Some b" and "node \<in> set (map fst graph)" and "length graph \<le> fuel"
  shows "\<exists>st'. get_distinct_graph_traversals (sort_key snd) (estimate_join_size b s js) graph NB fuel node [] 0 (dfs_start m st) = Some st' \<and>
    traversal_nodes st' = [] \<and> visited_nodes st' = {} \<and> est_ready R B s js (dfs_est st') \<and>
    traverse_bound st' = length (traversals st') \<and> traverse_bound st' \<le> NB \<and>
    (\<forall>t\<in>set (traversals st'). hd t = node \<and> join_order graph t) \<and>
    (optimal_traversal st' = [] \<and> min_join_size_estimation st' = m \<or>
     optimal_traversal st' \<in> set (traversals st') \<and> min_join_size_estimation st' < m \<and>
     min_join_size_estimation st' = plan_cost (charged est_val (dfs_est st')) (optimal_traversal st'))"
proof -
  note ok = call_ok_start [OF assms(4-6), of m]
  obtain st' where run: "get_distinct_graph_traversals (sort_key snd) (estimate_join_size b s js) graph NB fuel node [] 0 (dfs_start m st) = Some st'"
    using sketch.dfs_total [OF assms(1) _ ok, where start = node and NB = NB] estimate_total_start [OF assms(1-3,5)] assms(7)
    by (fastforce simp: dfs_start_def)
  have ext: "sketch.dfs_ext R B s js b graph ([] @ [node]) (dfs_start m st) st'"
    using sketch.dfs_correct [OF assms(1) run ok] by (simp add: dfs_start_def)
  then have ready: "est_ready R B s js (dfs_est st') \<and> b \<in> ran s" by (simp add: sketch.dfs_ext_def sketch.grows_def)
  obtain ts where ts: "traversals st' = ts" "traverse_bound st' = length ts" "\<forall>t\<in>set ts. (\<exists>r. t = [node] @ r) \<and> join_order graph t"
    "optimal_traversal st' = [] \<and> min_join_size_estimation st' = m \<or>
      optimal_traversal st' \<in> set ts \<and> min_join_size_estimation st' < m \<and>
      (\<forall>V. charges est_val (dfs_est st') V \<longrightarrow> min_join_size_estimation st' = plan_cost V (optimal_traversal st'))"
    using ext unfolding sketch.dfs_ext_def by (auto simp: dfs_start_def)
  have "traverse_bound st' \<le> NB" using sketch.dfs_bounded [OF assms(1) run ok] by (simp add: dfs_start_def)
  moreover have "traversal_nodes st' = []" "visited_nodes st' = {}"
    using ext unfolding sketch.dfs_ext_def by (simp_all add: dfs_start_def)
  ultimately show ?thesis
    using run ready ts sketch.charges_charged [OF ready] by (intro exI [of _ st']) auto
qed

theorem enumeration_correct_witness:
  "\<exists>st'. get_distinct_graph_traversals (sort_key snd) (estimate_join_size (sketch_example 0 4) sketches_example joins_example)
      graph_example 10 2 10 [] 0 (dfs_start 1 est_example) = Some st' \<and>
    traverse_bound st' = length (traversals st') \<and> (\<forall>t\<in>set (traversals st'). hd t = 10 \<and> join_order graph_example t)"
proof -
  have "length graph_example \<le> 2" by (simp add: graph_example_ok)
  from enumeration_correct [OF graph_example_ok(1,3,4) est_ready_example graph_example_ok(5,6) this, of 10 1]
  show ?thesis by blast
qed

text \<open>
  C5. The enumeration is an exact branch and bound: when it ends below its bound on traversals, the
  minimum it reports is a lower bound for the cost of every join order from the start node, whatever
  non-negative estimates are supplied for the joins that were pruned away before being estimated.
\<close>

theorem enumeration_optimal:
  assumes "wf_graph graph" and "est_ready R B s js st" and "s node = Some b" and "NB \<noteq> 1"
    and "get_distinct_graph_traversals (sort_key snd) (estimate_join_size b s js) graph NB fuel node [] 0 (dfs_start m st) = Some st'"
    and "traverse_bound st' < NB" and "join_order graph (node # r)" and "charges est_val (dfs_est st') V"
  shows "min_join_size_estimation st' \<le> plan_cost V (node # r)"
proof -
  have "node \<in> set (map fst graph)" using assms(7) unfolding join_order_def by (metis list.set_intros(1) mset_eq_setD)
  from sketch.dfs_optimal [OF assms(1,4,5) call_ok_start [OF assms(2,3) this] assms(6), of V r] assms(7,8)
  show ?thesis by (simp add: dfs_start_def)
qed

theorem enumeration_optimal_witness:
  "\<exists>st'. get_distinct_graph_traversals (sort_key snd) (estimate_join_size (sketch_example 0 4) sketches_example joins_example)
      graph_example 10 2 10 [] 0 (dfs_start 1 est_example) = Some st' \<and> traverse_bound st' < 10 \<and>
    min_join_size_estimation st' \<le> plan_cost (charged est_val (dfs_est st')) [10, 20]"
proof -
  let ?est = "estimate_join_size (sketch_example 0 4) sketches_example joins_example"
  have jo: "join_order graph_example [10, 20]"
    unfolding join_order_def connected_order_def adjacent_example by (auto simp: graph_example_def less_Suc_eq)
  then have "partial_order_of graph_example [10, 20]" by (simp add: join_order_def partial_order_of_def graph_example_def)
  from estimate_total_start [OF graph_example_ok(1,3-5) est_ready_example this]
  obtain v s1 where e: "?est [10, 20] est_example = Some (v, s1)" by auto
  have "est_good est_example" by (simp add: est_good_def est_example_def)
  then have hit: "?est [10, 20] s1 = Some (v, s1)" using estimate.memo [OF _ e, of "[]" s1 "[10, 20]"] by simp
  obtain st' where run: "get_distinct_graph_traversals (sort_key snd) ?est graph_example 10 2 10 [] 0 (dfs_start 1 est_example) = Some st'"
    and tb: "traverse_bound st' < 10"
    by (simp add: numeral_2_eq_2 graph_example_def dfs_start_def dfs_push_def dfs_pop_def dfs_estimate_def Let_def dadd_def e hit)
  have "charges est_val (dfs_est st') (charged est_val (dfs_est st'))"
    using sketch.dfs_correct [OF graph_example_ok(1) run call_ok_start [OF est_ready_example graph_example_ok(5,6)]]
    unfolding sketch.dfs_ext_def sketch.grows_def by (intro sketch.charges_charged) blast
  then have "min_join_size_estimation st' \<le> plan_cost (charged est_val (dfs_est st')) [10, 20]"
    by (intro enumeration_optimal [OF graph_example_ok(1) est_ready_example graph_example_ok(5) _ run tb jo]) simp_all
  then show ?thesis using run tb by blast
qed

lemma enumeration_greedy_run:
  assumes "wf_graph graph" and "connected_graph graph" and "graph_joins graph js" and "set (map fst graph) \<subseteq> dom s"
    and "est_ready R B s js st" and "s node = Some b" and "node \<in> set (map fst graph)" and "length graph \<le> fuel"
  shows "\<exists>st' t. get_distinct_graph_traversals (sort_key snd) (estimate_join_size b s js) graph 1 fuel node [] 0 (dfs_start m st) = Some st' \<and>
    est_ready R B s js (dfs_est st') \<and> traversals st' = [t] \<and> hd t = node \<and> join_order graph t \<and>
    (\<forall>k. 0 < k \<and> k < length t \<longrightarrow> greedy_step graph (charged est_val (dfs_est st')) t k) \<and>
    (plan_cost (charged est_val (dfs_est st')) t < m \<longrightarrow> optimal_traversal st' = t)"
proof -
  note ok = call_ok_start [OF assms(5-7), of m]
  obtain st' where run: "get_distinct_graph_traversals (sort_key snd) (estimate_join_size b s js) graph 1 fuel node [] 0 (dfs_start m st) = Some st'"
    using sketch.dfs_total [OF assms(1) _ ok, where start = node and NB = 1] estimate_total_start [OF assms(1,3,4,6)] assms(8)
    by (fastforce simp: dfs_start_def)
  have ext: "sketch.dfs_ext R B s js b graph [node] (dfs_start m st) st'"
    using sketch.dfs_correct [OF assms(1) run ok] by (simp add: dfs_start_def)
  have ready: "est_ready R B s js (dfs_est st') \<and> b \<in> ran s"
    using ext unfolding sketch.dfs_ext_def sketch.grows_def by blast
  note V = sketch.charges_charged [OF ready]
  have "sketch.greedy_result graph [node] (dfs_start m st) st'"
    using sketch.dfs_greedy [OF assms(1,2) run ok] by (simp add: dfs_start_def)
  then obtain r where r: "traversals st' = [node # r]"
    "min_join_size_estimation st' \<le> plan_cost (charged est_val (dfs_est st')) (node # r)"
    "\<And>k. 0 < k \<Longrightarrow> k < length (node # r) \<Longrightarrow> greedy_step graph (charged est_val (dfs_est st')) (node # r) k"
    using V unfolding sketch.greedy_result_def by (auto simp: dfs_start_def Suc_le_eq)
  have "join_order graph (node # r)"
    and "optimal_traversal st' = [] \<and> min_join_size_estimation st' = m \<or> optimal_traversal st' = node # r"
    using ext r(1) unfolding sketch.dfs_ext_def by (auto simp: dfs_start_def)
  then show ?thesis using run r ready by (intro exI [of _ st'] exI [of _ "node # r"]) auto
qed

text \<open>
  C6. With the bound 1, the only one \<open>get_node_input_permutation\<close> uses, the enumeration of a connected
  graph is the greedy algorithm: it returns exactly one join order, and each of its nodes has the
  smallest estimate among all the neighbours of the nodes before it. The order is kept as the
  optimal plan when it costs less than the initial minimum.
\<close>

theorem enumeration_greedy:
  assumes "wf_graph graph" and "connected_graph graph" and "graph_joins graph js" and "set (map fst graph) \<subseteq> dom s"
    and "est_ready R B s js st" and "s node = Some b" and "node \<in> set (map fst graph)" and "length graph \<le> fuel"
  shows "\<exists>st' t. get_distinct_graph_traversals (sort_key snd) (estimate_join_size b s js) graph 1 fuel node [] 0 (dfs_start m st) = Some st' \<and>
    traversals st' = [t] \<and> hd t = node \<and> join_order graph t \<and>
    (\<forall>k. 0 < k \<and> k < length t \<longrightarrow> greedy_step graph (charged est_val (dfs_est st')) t k) \<and>
    (plan_cost (charged est_val (dfs_est st')) t < m \<longrightarrow> optimal_traversal st' = t)"
  using enumeration_greedy_run [OF assms] by blast

theorem enumeration_greedy_witness:
  "\<exists>st' t. get_distinct_graph_traversals (sort_key snd) (estimate_join_size (sketch_example 0 4) sketches_example joins_example)
      graph_example 1 2 10 [] 0 (dfs_start 1 est_example) = Some st' \<and> traversals st' = [t] \<and> join_order graph_example t \<and>
    optimal_traversal st' = t"
proof -
  have "length graph_example \<le> 2" by (simp add: graph_example_ok)
  from enumeration_greedy [OF graph_example_ok(1-4) est_ready_example graph_example_ok(5,6) this, of 1]
  obtain st' t where run: "get_distinct_graph_traversals (sort_key snd)
      (estimate_join_size (sketch_example 0 4) sketches_example joins_example) graph_example 1 2 10 [] 0 (dfs_start 1 est_example) = Some st'"
    "traversals st' = [t]" "join_order graph_example t"
    "plan_cost (charged est_val (dfs_est st')) t < 1 \<longrightarrow> optimal_traversal st' = t" by blast
  then have "length t = 2" using graph_example_ok(7) by (metis join_order_def length_map size_mset)
  then show ?thesis using run by (auto simp: plan_cost_short)
qed

end
