(* ===== verification/PlanAdjust.thy ===== *)
theory PlanAdjust
  imports Traversal
begin

text \<open>
  \<open>adjustPlanForMapD\<close> of \<open>QueryEngine/RelAlgExecutor.cpp\<close>: the join order is rewritten so that internal
  nodes of the join graph that follow the last leaf move next to a neighbour. The first loop swaps
  the first two elements of the vector it iterates over, so it reads each element from the current
  vector; \<open>node_idx\<close> and \<open>last_leaf_idx\<close> are 32-bit unsigned, the latter starting at \<open>-1\<close>.
  Dereferencing an absent graph node or an element out of range is \<open>None\<close>.
\<close>

section \<open>Definitions\<close>

text \<open>The first loop: \<open>n\<close> elements are left, the iterator is at \<open>i\<close>.\<close>

fun adjust_scan ::
  "join_graph \<Rightarrow> nat \<Rightarrow> nat \<Rightarrow> u32 \<Rightarrow> nat list \<Rightarrow> nat set \<Rightarrow> u32 \<Rightarrow> (nat list \<times> u32) option" where
  "adjust_scan graph 0 i node_idx plan connected_nodes last_leaf_idx = Some (plan, last_leaf_idx)"
| "adjust_scan graph (Suc n) i node_idx plan connected_nodes last_leaf_idx =
     do {
       node_info \<leftarrow> map_of graph (plan ! i);
       (tr, last) \<leftarrow>
         (if length node_info = 1 then
            if hd node_info \<notin> connected_nodes then
              if length plan < 2 then None
              else Some (plan[0 := plan ! 1, 1 := plan ! 0], node_idx)
            else Some (plan, node_idx)
          else Some (plan, last_leaf_idx));
       adjust_scan graph n (i + 1) (node_idx + 1) tr (insert (tr ! i) connected_nodes) last
     }"

text \<open>The search for the placed neighbour that comes last: over the placed nodes, for each neighbour.\<close>

fun closest_index :: "nat set \<Rightarrow> nat \<Rightarrow> int \<Rightarrow> nat list \<Rightarrow> int \<Rightarrow> int" where
  "closest_index connected_nodes adj adj_node_idx [] closest_adj_node = closest_adj_node"
| "closest_index connected_nodes adj adj_node_idx (n # ns) closest_adj_node =
     closest_index connected_nodes adj (adj_node_idx + 1) ns
       (if n \<in> connected_nodes \<and> n = adj \<and> adj_node_idx > closest_adj_node then adj_node_idx else closest_adj_node)"

definition closest_adj_node :: "nat set \<Rightarrow> nat list \<Rightarrow> nat list \<Rightarrow> int" where
  "closest_adj_node connected_nodes node_info new_optimal_traversal =
     fold (\<lambda>adj c. closest_index connected_nodes adj 0 new_optimal_traversal c) node_info (-1)"

text \<open>The last loop, over the nodes after the last leaf.\<close>

fun adjust_insert :: "join_graph \<Rightarrow> nat list \<Rightarrow> nat list \<Rightarrow> nat set \<Rightarrow> nat list option" where
  "adjust_insert graph [] new_optimal_traversal connected_nodes = Some new_optimal_traversal"
| "adjust_insert graph (node # rest) new_optimal_traversal connected_nodes =
     do {
       node_info \<leftarrow> map_of graph node;
       let new =
         (if length node_info \<noteq> 1 then
            let c = closest_adj_node connected_nodes node_info new_optimal_traversal
            in if c = -1 then new_optimal_traversal
               else take (nat (c + 1)) new_optimal_traversal @ [node] @ drop (nat (c + 1)) new_optimal_traversal
          else new_optimal_traversal);
       adjust_insert graph rest new (insert node connected_nodes)
     }"

definition adjustPlanForMapD :: "join_graph \<Rightarrow> nat list \<Rightarrow> nat list option" where
  "adjustPlanForMapD graph plan =
     do {
       (tr, last_leaf_idx) \<leftarrow> adjust_scan graph (length plan) 0 0 plan {} (-1);
       let node_idx = unat (last_leaf_idx + 1);
       if node_idx > length tr then None
       else adjust_insert graph (drop node_idx tr) (take node_idx tr) (set (take node_idx tr))
     }"

section \<open>The search for the closest neighbour\<close>

lemma closest_index_spec:
  assumes "closest_index C adj k ns c = r"
  shows "c \<le> r \<and> (r = c \<or> k \<le> r \<and> r < k + int (length ns) \<and> ns ! nat (r - k) = adj \<and> adj \<in> C) \<and>
    (\<forall>p<length ns. ns ! p = adj \<and> adj \<in> C \<longrightarrow> k + int p \<le> r)"
  using assms
proof (induction ns arbitrary: k c)
  case (Cons n ns)
  define c' where "c' = (if n \<in> C \<and> n = adj \<and> k > c then k else c)"
  have "closest_index C adj (k + 1) ns c' = r" using Cons.prems by (simp add: c'_def)
  note IH = Cons.IH [OF this]
  have sel: "(n # ns) ! nat (r - k) = ns ! nat (r - (k + 1))" if "k + 1 \<le> r"
  proof -
    have "nat (r - k) = Suc (nat (r - (k + 1)))" using that by linarith
    then show ?thesis by simp
  qed
  have "c \<le> c'" "c' = c \<or> c' = k \<and> n = adj \<and> adj \<in> C" "n = adj \<and> adj \<in> C \<Longrightarrow> k \<le> c'" by (auto simp: c'_def)
  then show ?case using IH sel by (auto simp: nth_Cons split: nat.splits)
qed simp

lemma closest_adj_node_spec:
  assumes "closest_adj_node C adjs ns = r"
  shows "r = -1 \<and> (\<forall>a\<in>set adjs. a \<in> C \<longrightarrow> a \<notin> set ns) \<or>
    0 \<le> r \<and> r < int (length ns) \<and> ns ! nat r \<in> set adjs"
proof -
  define ok where "ok c A \<longleftrightarrow> c = -1 \<and> (\<forall>a\<in>A. a \<in> C \<longrightarrow> a \<notin> set ns) \<or>
      0 \<le> c \<and> c < int (length ns) \<and> ns ! nat c \<in> A" for c A
  have "ok (closest_index C a 0 ns c) (insert a A)" if "ok c A" for c a A
    using closest_index_spec [of C a 0 ns c, OF refl] that unfolding ok_def
    by (auto simp: in_set_conv_nth)
  then have "ok (fold (\<lambda>a c. closest_index C a 0 ns c) adjs c) (set adjs \<union> A)" if "ok c A" for c A
    using that
  proof (induction adjs arbitrary: c A)
    case (Cons a adjs)
    then show ?case using Cons.IH [OF Cons.prems(1), of "closest_index C a 0 ns c" "insert a A"] by simp
  qed simp
  from this [of "-1" "{}"] show ?thesis using assms unfolding ok_def closest_adj_node_def by simp
qed

section \<open>Connected orders\<close>

text \<open>The recursive form of \<^const>\<open>connected_order\<close>, with the nodes that come before.\<close>

fun conn_from :: "join_graph \<Rightarrow> nat set \<Rightarrow> nat list \<Rightarrow> bool" where
  "conn_from graph S [] \<longleftrightarrow> True"
| "conn_from graph S (n # ns) \<longleftrightarrow> (S = {} \<or> (\<exists>m\<in>S. adjacent graph m n)) \<and> conn_from graph (insert n S) ns"

lemma conn_from_append: "conn_from graph S (xs @ ys) \<longleftrightarrow> conn_from graph S xs \<and> conn_from graph (S \<union> set xs) ys"
  by (induction xs arbitrary: S) auto

lemma conn_from_mono: "conn_from graph S ns \<Longrightarrow> S \<noteq> {} \<Longrightarrow> S \<subseteq> T \<Longrightarrow> conn_from graph T ns"
proof (induction ns arbitrary: S T)
  case (Cons n ns)
  then show ?case using Cons.IH [of "insert n S" "insert n T"] by auto
qed simp

lemma connected_order_conn_from: "connected_order graph ns \<longleftrightarrow> conn_from graph {} ns"
proof (induction ns rule: rev_induct)
  case (snoc n ns)
  have "connected_order graph ns" if co: "connected_order graph (ns @ [n])"
    unfolding connected_order_def
  proof (intro allI impI)
    fix i
    assume i: "i < length ns" "0 < i"
    then obtain j where "j < i" "adjacent graph ((ns @ [n]) ! j) ((ns @ [n]) ! i)"
      using co unfolding connected_order_def by (metis length_append trans_less_add1)
    then show "\<exists>j<i. adjacent graph (ns ! j) (ns ! i)" using i by (auto simp: nth_append)
  qed
  then have "connected_order graph (ns @ [n]) \<longleftrightarrow> connected_order graph ns \<and> (ns = [] \<or> (\<exists>m\<in>set ns. adjacent graph m n))"
    using connected_order_snoc connected_order_next [of graph ns n "[]"] by blast
  then show ?case using snoc by (auto simp: conn_from_append)
qed (simp add: connected_order_def)

lemma connected_order_insert:
  assumes "connected_order graph (xs @ ys)" and "m \<in> set xs" and "adjacent graph m n"
  shows "connected_order graph (xs @ [n] @ ys)"
proof -
  have "conn_from graph (set xs) ys" "conn_from graph {} xs" using assms(1) by (simp_all add: connected_order_conn_from conn_from_append)
  then show ?thesis
    using assms(2,3) conn_from_mono [of graph "set xs" ys "insert n (set xs)", OF _ _ subset_insertI] empty_iff
    by (cases "xs = []") (auto simp: connected_order_conn_from conn_from_append)
qed

lemma adjacent_sym: "wf_graph graph \<Longrightarrow> adjacent graph m n \<Longrightarrow> adjacent graph n m"
  by (simp add: wf_graph_def)

lemma adjacent_iff: "map_of graph m = Some ns \<Longrightarrow> adjacent graph m n \<longleftrightarrow> n \<in> set ns"
  by (simp add: adjacent_def)

text \<open>An executable criterion.\<close>

lemma wf_graphI:
  assumes "distinct (map fst graph)" and "\<forall>(m, ns)\<in>set graph. \<forall>n\<in>set ns. \<exists>ms. map_of graph n = Some ms \<and> m \<in> set ms"
  shows "wf_graph graph"
proof -
  have "n \<in> set (map fst graph) \<and> adjacent graph n m" if "adjacent graph m n" for m n
  proof -
    obtain ns where "(m, ns) \<in> set graph" "n \<in> set ns" using \<open>adjacent graph m n\<close> by (auto simp: adjacent_def dest: map_of_SomeD)
    then obtain ms where "map_of graph n = Some ms" "m \<in> set ms" using assms(2) by blast
    then show ?thesis by (auto simp: adjacent_def dest!: map_of_SomeD intro!: image_eqI [of _ fst "(n, ms)"])
  qed
  then show ?thesis using assms(1) by (simp only: wf_graph_def) blast
qed

section \<open>The last loop\<close>

lemma adjust_insert_correct:
  assumes wf: "wf_graph graph" and "connected_order graph new" and "new \<noteq> []" and "conn_from graph (set new) rest"
    and "set rest \<subseteq> set (map fst graph)" and "\<forall>n\<in>set rest. \<forall>ns. map_of graph n = Some ns \<longrightarrow> length ns \<noteq> 1"
  shows "\<exists>ns. adjust_insert graph rest new (set new) = Some ns \<and> mset ns = mset (new @ rest) \<and>
    connected_order graph ns \<and> hd ns = hd new"
  using assms(2-)
proof (induction rest arbitrary: new)
  case (Cons n rest)
  obtain adjs where adjs: "map_of graph n = Some adjs"
    using Cons.prems(4) by (auto simp: map_of_eq_None_iff dest: weak_map_of_SomeI)
  obtain m where "m \<in> set new" "adjacent graph m n" using Cons.prems(2,3) by auto
  then have "m \<in> set adjs" using adjacent_sym [OF wf] adjacent_iff [OF adjs] by blast
  define c where "c = closest_adj_node (set new) adjs new"
  have "c \<noteq> -1 \<and> 0 \<le> c \<and> c < int (length new) \<and> new ! nat c \<in> set adjs"
    using closest_adj_node_spec [OF c_def [symmetric]] \<open>m \<in> set new\<close> \<open>m \<in> set adjs\<close> by auto
  then have c: "c \<noteq> -1" "nat (c + 1) = Suc (nat c)" "nat c < length new" "new ! nat c \<in> set adjs" by auto
  let ?new = "take (Suc (nat c)) new @ [n] @ drop (Suc (nat c)) new"
  have "adjacent graph (new ! nat c) n" using adjacent_sym [OF wf] adjacent_iff [OF adjs] c(4) by blast
  then have "connected_order graph ?new"
    using Cons.prems(1) c(3) by (intro connected_order_insert [of _ _ _ "new ! nat c"]) (simp_all add: take_Suc_conv_app_nth id_take_nth_drop [symmetric])
  moreover have mset: "mset ?new = mset (new @ [n])" by (metis append_take_drop_id mset_append union_ac(1,2))
  moreover have "set ?new = insert n (set new)" using mset_eq_setD [OF mset] by simp
  moreover have "hd ?new = hd new" using Cons.prems(2) by (cases new) simp_all
  ultimately obtain ns where "adjust_insert graph rest ?new (set ?new) = Some ns" "mset ns = mset (?new @ rest)"
    "connected_order graph ns" "hd ns = hd new"
    using Cons.IH [of ?new] Cons.prems(3-5) by auto
  moreover have "length adjs \<noteq> 1" using Cons.prems(5) adjs by auto
  ultimately show ?case
    using adjs c(1,2) mset \<open>set ?new = insert n (set new)\<close> by (auto simp: Let_def c_def [symmetric] simp del: append.simps)
qed auto

section \<open>The first loop\<close>

definition leaf :: "join_graph \<Rightarrow> nat \<Rightarrow> bool" where
  "leaf graph n \<longleftrightarrow> (\<exists>a. map_of graph n = Some [a])"

lemma leaf_iff: "map_of graph n = Some ns \<Longrightarrow> leaf graph n \<longleftrightarrow> length ns = 1"
  by (auto simp: leaf_def length_Suc_conv)

text \<open>The index of the last leaf at or after position \<open>i\<close>, and \<open>l0\<close> if there is none.\<close>

definition last_leaf :: "join_graph \<Rightarrow> nat list \<Rightarrow> nat \<Rightarrow> u32 \<Rightarrow> u32 \<Rightarrow> bool" where
  "last_leaf graph tr i l0 L \<longleftrightarrow>
     (\<exists>j. i \<le> j \<and> j < length tr \<and> leaf graph (tr ! j) \<and> (\<forall>k. j < k \<and> k < length tr \<longrightarrow> \<not> leaf graph (tr ! k)) \<and> L = of_nat j) \<or>
     (\<forall>k. i \<le> k \<and> k < length tr \<longrightarrow> \<not> leaf graph (tr ! k)) \<and> L = l0"

lemma last_leaf_Suc:
  assumes "last_leaf graph tr (Suc i) (if leaf graph (tr ! i) then of_nat i else l0) L" and "i < length tr"
  shows "last_leaf graph tr i l0 L"
proof (cases "\<forall>k. Suc i \<le> k \<and> k < length tr \<longrightarrow> \<not> leaf graph (tr ! k)")
  case True
  then have L: "L = (if leaf graph (tr ! i) then of_nat i else l0)" using assms(1) by (auto simp: last_leaf_def)
  show ?thesis
  proof (cases "leaf graph (tr ! i)")
    case True
    then show ?thesis using \<open>\<forall>k. _\<close> L assms(2) by (auto simp: last_leaf_def)
  next
    case False
    then have "\<not> leaf graph (tr ! k)" if "i \<le> k" "k < length tr" for k using \<open>\<forall>k. _\<close> that by (cases "k = i") auto
    then show ?thesis using False L by (simp add: last_leaf_def)
  qed
next
  case False
  then obtain j where "Suc i \<le> j" "j < length tr" "leaf graph (tr ! j)"
    "\<forall>k. j < k \<and> k < length tr \<longrightarrow> \<not> leaf graph (tr ! k)" "L = of_nat j"
    using assms(1) unfolding last_leaf_def by blast
  then show ?thesis unfolding last_leaf_def by (intro disjI1 exI [of _ j]) simp
qed

lemma adjust_scan_tail:
  assumes wf: "wf_graph graph" and co: "connected_order graph tr" and nodes: "set tr \<subseteq> set (map fst graph)"
    and "length tr = i + n" and "0 < i"
  shows "\<exists>L. adjust_scan graph n i (of_nat i) tr (set (take i tr)) l0 = Some (tr, L) \<and> last_leaf graph tr i l0 L"
  using assms(4,5)
proof (induction n arbitrary: i l0)
  case (Suc n)
  have i: "i < length tr" using Suc.prems by simp
  have "tr ! i \<in> set (map fst graph)" using nodes i by (meson nth_mem subsetD)
  then obtain ns where ns: "map_of graph (tr ! i) = Some ns" by (auto simp: map_of_eq_None_iff dest: weak_map_of_SomeI)
  have "hd ns \<in> set (take i tr)" if "length ns = 1"
  proof -
    obtain j where j: "j < i" "adjacent graph (tr ! j) (tr ! i)" using co i Suc.prems(2) unfolding connected_order_def by blast
    then have "tr ! j \<in> set ns" using adjacent_sym [OF wf] adjacent_iff [OF ns] by blast
    then have "hd ns = tr ! j" using that by (auto simp: length_Suc_conv)
    then show ?thesis using j(1) i by (auto simp: in_set_conv_nth)
  qed
  moreover have "insert (tr ! i) (set (take i tr)) = set (take (Suc i) tr)" using i by (simp add: take_Suc_conv_app_nth)
  moreover obtain L where "adjust_scan graph n (Suc i) (of_nat (Suc i)) tr (set (take (Suc i) tr)) (if leaf graph (tr ! i) then of_nat i else l0) = Some (tr, L)"
    "last_leaf graph tr (Suc i) (if leaf graph (tr ! i) then of_nat i else l0) L"
    using Suc.IH [of "Suc i" "if leaf graph (tr ! i) then of_nat i else l0"] Suc.prems by auto
  ultimately show ?case using ns last_leaf_Suc [OF _ i] leaf_iff [OF ns] by (auto simp: add.commute)
qed (auto simp: last_leaf_def)

text \<open>The whole loop: it swaps the first two nodes exactly when the first one is a leaf.\<close>

definition leaf_swap :: "join_graph \<Rightarrow> nat list \<Rightarrow> nat list" where
  "leaf_swap graph tr = (case tr of a # b # ns \<Rightarrow> if leaf graph a then b # a # ns else tr | _ \<Rightarrow> tr)"

lemma leaf_swap_connected:
  assumes "wf_graph graph" and "connected_order graph tr"
  shows "connected_order graph (leaf_swap graph tr)" and "mset (leaf_swap graph tr) = mset tr"
  using assms adjacent_sym [OF assms(1)]
  by (auto simp: leaf_swap_def connected_order_conn_from insert_commute split: list.splits)

lemma adjust_scan_start:
  assumes wf: "wf_graph graph" and co: "connected_order graph tr" and nodes: "set tr \<subseteq> set (map fst graph)" and len: "2 \<le> length tr"
  shows "\<exists>L. adjust_scan graph (length tr) 0 0 tr {} l0 = Some (leaf_swap graph tr, L) \<and> last_leaf graph (leaf_swap graph tr) 0 l0 L"
proof -
  obtain a b ns where tr: "tr = a # b # ns" using len by (auto simp: Suc_le_length_iff numeral_2_eq_2)
  let ?tr = "leaf_swap graph tr"
  obtain as where as: "map_of graph a = Some as" using nodes tr by (auto simp: map_of_eq_None_iff dest: weak_map_of_SomeI)
  note swap = leaf_swap_connected [OF wf co]
  have "set ?tr \<subseteq> set (map fst graph)" using nodes mset_eq_setD [OF swap(2)] by simp
  moreover have "length ?tr = 1 + (length tr - 1)" using mset_eq_length [OF swap(2)] len by simp
  moreover define n where "n = length tr - 1"
  ultimately obtain L where L: "adjust_scan graph n 1 (of_nat 1) ?tr (set (take 1 ?tr)) (if leaf graph a then 0 else l0) = Some (?tr, L)"
    "last_leaf graph ?tr 1 (if leaf graph a then 0 else l0) L"
    using adjust_scan_tail [OF wf swap(1), of 1 n "if leaf graph a then 0 else l0"] by auto
  have len': "length tr = Suc n" using len by (simp add: n_def)
  have "adjust_scan graph (Suc n) 0 0 tr {} l0 = Some (?tr, L)"
    using L(1) as leaf_iff [OF as] by (cases "leaf graph a") (simp_all add: tr leaf_swap_def)
  moreover have "last_leaf graph ?tr 0 l0 L"
  proof (cases "leaf graph a")
    case True
    then have "1 < length ?tr" "leaf graph (?tr ! 1)" by (simp_all add: tr leaf_swap_def)
    then obtain j where "1 \<le> j" "j < length ?tr" "leaf graph (?tr ! j)" "\<forall>k. j < k \<and> k < length ?tr \<longrightarrow> \<not> leaf graph (?tr ! k)" "L = of_nat j"
      using L(2) unfolding last_leaf_def by blast
    then show ?thesis unfolding last_leaf_def by (intro disjI1 exI [of _ j]) simp
  next
    case False
    then show ?thesis using last_leaf_Suc [of graph ?tr 0 l0 L] L(2) by (simp add: tr leaf_swap_def)
  qed
  ultimately show ?thesis unfolding len' by blast
qed

section \<open>Correctness\<close>

lemma adjust_plan_correct:
  assumes "wf_graph graph" and "connected_order graph tr" and "set tr \<subseteq> set (map fst graph)" and "2 \<le> length tr"
    and "length tr < 2 ^ 32" and "\<exists>n\<in>set tr. leaf graph n"
  shows "\<exists>ns. adjustPlanForMapD graph tr = Some ns \<and> mset ns = mset tr \<and> connected_order graph ns \<and>
    hd ns = (if leaf graph (tr ! 0) then tr ! 1 else tr ! 0)"
proof -
  let ?tr = "leaf_swap graph tr"
  note swap = leaf_swap_connected [OF assms(1,2)]
  obtain L where L: "adjust_scan graph (length tr) 0 0 tr {} (-1) = Some (?tr, L)" "last_leaf graph ?tr 0 (-1) L"
    using adjust_scan_start [OF assms(1-4)] by blast
  have set: "set ?tr = set tr" and len: "length ?tr = length tr"
    using mset_eq_setD [OF swap(2)] mset_eq_length [OF swap(2)] by simp_all
  obtain n where "n \<in> set ?tr" "leaf graph n" using assms(6) set by blast
  then obtain j where j: "j < length tr" "L = of_nat j" "\<And>k. j < k \<Longrightarrow> k < length ?tr \<Longrightarrow> \<not> leaf graph (?tr ! k)"
    using L(2) len unfolding last_leaf_def by (auto simp: in_set_conv_nth)
  have idx: "unat (L + 1) = Suc j"
  proof -
    have "L + 1 = of_nat (Suc j)" using j(2) by simp
    then show ?thesis using unat_of_nat_u32 [of "Suc j"] j(1) assms(5) by (simp only:)
  qed
  have pre: "connected_order graph (take (Suc j) ?tr)" "conn_from graph (set (take (Suc j) ?tr)) (drop (Suc j) ?tr)"
    using swap(1) conn_from_append [of graph "{}" "take (Suc j) ?tr" "drop (Suc j) ?tr"] by (simp_all add: connected_order_conn_from)
  have "\<not> leaf graph n" if "n \<in> set (drop (Suc j) ?tr)" for n using that j(3) by (auto simp: in_set_conv_nth)
  then have rest: "\<forall>n\<in>set (drop (Suc j) ?tr). \<forall>ns. map_of graph n = Some ns \<longrightarrow> length ns \<noteq> 1" using leaf_iff by blast
  have "take (Suc j) ?tr \<noteq> []" using len assms(4) by (auto simp flip: length_greater_0_conv)
  moreover have "set (drop (Suc j) ?tr) \<subseteq> set (map fst graph)" using set assms(3) set_drop_subset by fastforce
  ultimately obtain ns where ns: "adjust_insert graph (drop (Suc j) ?tr) (take (Suc j) ?tr) (set (take (Suc j) ?tr)) = Some ns"
    "mset ns = mset (take (Suc j) ?tr @ drop (Suc j) ?tr)" "connected_order graph ns" "hd ns = hd (take (Suc j) ?tr)"
    using adjust_insert_correct [OF assms(1) pre(1) _ pre(2) _ rest] by blast
  have "hd ?tr = (if leaf graph (tr ! 0) then tr ! 1 else tr ! 0)"
    using assms(4) by (cases tr; cases "tl tr") (auto simp: leaf_swap_def)
  then show ?thesis using ns L(1) idx j(1) len swap(2) by (auto simp: adjustPlanForMapD_def)
qed

text \<open>
  C8. On a join order without cartesian product of a graph with at least one leaf, the rewriting
  returns, keeps exactly the tables of the order, introduces no cartesian product, and starts with
  the first table of the order, or with the second when the first is a leaf.
\<close>

theorem adjustPlanForMapD_correct:
  assumes "wf_graph graph" and "connected_order graph tr" and "set tr \<subseteq> set (map fst graph)" and "2 \<le> length tr"
    and "length tr < 2 ^ 32" and "\<exists>n\<in>set tr. leaf graph n"
  shows "\<exists>ns. adjustPlanForMapD graph tr = Some ns \<and> mset ns = mset tr \<and> connected_order graph ns \<and>
    hd ns = (if leaf graph (tr ! 0) then tr ! 1 else tr ! 0)"
  using assms by (rule adjust_plan_correct)

theorem adjustPlanForMapD_correct_witness:
  "\<exists>ns. adjustPlanForMapD [(1, [2]), (2, [1, 3, 4]), (3, [2, 4]), (4, [2, 3])] [1, 2, 3, 4] = Some ns \<and> mset ns = mset [1, 2, 3, 4] \<and>
    connected_order [(1, [2]), (2, [1, 3, 4]), (3, [2, 4]), (4, [2, 3])] ns \<and> hd ns = 2"
  using adjustPlanForMapD_correct [of "[(1, [2]), (2, [1, 3, 4]), (3, [2, 4]), (4, [2, 3])]" "[1, 2, 3, 4]"]
    wf_graphI [of "[(1, [2]), (2, [1, 3, 4]), (3, [2, 4]), (4, [2, 3])]"]
  by (simp add: leaf_def connected_order_conn_from adjacent_def)

text \<open>
  C9. On a join order of a graph without leaves, such as a cycle of joins, the rewriting returns the
  empty plan: every table of the query is lost.
\<close>

theorem adjustPlanForMapD_cyclic:
  assumes "wf_graph graph" and "connected_order graph tr" and "set tr \<subseteq> set (map fst graph)" and "2 \<le> length tr"
    and "\<forall>n\<in>set tr. \<not> leaf graph n"
  shows "adjustPlanForMapD graph tr = Some []"
proof -
  have "leaf_swap graph tr = tr" using assms(5) by (auto simp: leaf_swap_def split: list.splits)
  then obtain L where L: "adjust_scan graph (length tr) 0 0 tr {} (-1) = Some (tr, L)" "last_leaf graph tr 0 (-1) L"
    using adjust_scan_start [OF assms(1-4), of "-1"] by auto
  then have "L = -1" using assms(5) by (auto simp: last_leaf_def)
  have "adjust_insert graph ns [] C = Some []" if "set ns \<subseteq> set (map fst graph)" for ns C
    using that
  proof (induction ns arbitrary: C)
    case (Cons n ns)
    then obtain as where "map_of graph n = Some as" by (auto simp: map_of_eq_None_iff dest: weak_map_of_SomeI)
    then show ?case using Cons closest_adj_node_spec [of C as "[]", OF refl] by (auto simp: Let_def)
  qed simp
  then show ?thesis using L(1) \<open>L = -1\<close> assms(3) by (simp add: adjustPlanForMapD_def)
qed

theorem adjustPlanForMapD_cyclic_witness: "adjustPlanForMapD [(1, [2, 3]), (2, [1, 3]), (3, [1, 2])] [1, 2, 3] = Some []"
  using wf_graphI [of "[(1, [2, 3]), (2, [1, 3]), (3, [1, 2])]"]
  by (intro adjustPlanForMapD_cyclic) (simp_all add: leaf_def connected_order_conn_from adjacent_def)

end
