(* ===== verification/Sparse.thy ===== *)
theory Sparse
  imports Traversal
begin

text \<open>
  \<open>exclude_sparse_sketches\<close> of \<open>QueryEngine/RelAlgExecutor.cpp\<close>: joins whose sketch column has too few
  non-zero buckets are taken out of the join graph and of the join columns, and tables without a
  join left are taken out of the enumeration. \<open>operator[]\<close> on an absent key inserts an empty value;
  erasing from a vector out of range, and a missing sketch, are \<open>None\<close>. \<open>std::sort\<close> is a parameter.
\<close>

section \<open>Definitions\<close>

record sparse_state =
  sp_graph :: join_graph
  sp_connections :: "nat \<rightharpoonup> join_info list"
  sp_edges :: "nat \<rightharpoonup> nat set"
  sp_nodes :: "nat set"

text \<open>\<open>v.erase(v.begin() + i)\<close> with a signed index.\<close>

definition vector_erase :: "'a list \<Rightarrow> int \<Rightarrow> 'a list option" where
  "vector_erase xs i =
     (if 0 \<le> i \<and> i < int (length xs) then Some (take (nat i) xs @ drop (nat i + 1) xs) else None)"

text \<open>\<open>graph[m].erase(n)\<close>.\<close>

definition graph_erase_edge :: "nat \<Rightarrow> nat \<Rightarrow> join_graph \<Rightarrow> join_graph" where
  "graph_erase_edge m n graph =
     (if m \<in> set (map fst graph) then map (\<lambda>(k, ns). if k = m then (k, filter (\<lambda>x. x \<noteq> n) ns) else (k, ns)) graph
      else graph @ [(m, [])])"

text \<open>The search for the join back to \<open>node\<close>: the index where the loop stops, the last one if there is none.\<close>

fun other_column_index :: "nat \<Rightarrow> join_info list \<Rightarrow> int \<Rightarrow> int" where
  "other_column_index node [] other_column_id_idx = other_column_id_idx"
| "other_column_index node (j # js) other_column_id_idx =
     (if node = ji_other_node j then other_column_id_idx + 1 else other_column_index node js (other_column_id_idx + 1))"

definition edges_of :: "(nat \<rightharpoonup> nat set) \<Rightarrow> nat \<Rightarrow> nat set" where
  "edges_of excluded_edges n = (case excluded_edges n of None \<Rightarrow> {} | Some e \<Rightarrow> e)"

definition exclude_table :: "nat \<Rightarrow> sparse_state \<Rightarrow> sparse_state" where
  "exclude_table n st = st\<lparr>sp_nodes := insert n (sp_nodes st), sp_graph := filter (\<lambda>(k, ns). k \<noteq> n) (sp_graph st),
     sp_connections := (sp_connections st)(n := None)\<rparr>"

text \<open>The body of the loop over the joins of a table, for a sparse join.\<close>

definition exclude_join ::
  "(nat \<rightharpoonup> FAGMS_Sketch) \<Rightarrow> nat \<Rightarrow> nat \<Rightarrow> sparse_state \<Rightarrow> sparse_state option" where
  "exclude_join sketch_instances node other_node st =
     do {
       other_sketch \<leftarrow> sketch_instances other_node;
       let other_joins = join_nodes_of (sp_connections st) other_node;
       other_joins' \<leftarrow> vector_erase other_joins (other_column_index node other_joins (-1));
       let edges = (sp_edges st)(node \<mapsto> insert other_node (edges_of (sp_edges st) node));
       let edges = edges(other_node \<mapsto> insert node (edges_of edges other_node));
       let st = st\<lparr>sp_edges := edges, sp_connections := (sp_connections st)(other_node \<mapsto> other_joins'),
         sp_graph := graph_erase_edge other_node node (graph_erase_edge node other_node (sp_graph st))\<rparr>;
       Some (if unat (keys_no other_sketch) = card (edges_of edges other_node) then exclude_table other_node st else st)
     }"

fun exclude_joins ::
  "(nat \<rightharpoonup> FAGMS_Sketch) \<Rightarrow> u32 \<Rightarrow> heap \<Rightarrow> FAGMS_Sketch \<Rightarrow> nat \<Rightarrow> join_info list \<Rightarrow> nat \<Rightarrow> nat list \<Rightarrow> sparse_state \<Rightarrow>
     (nat list \<times> sparse_state) option" where
  "exclude_joins sketch_instances SKETCH_SPARSITY_BOUND h sketch node [] sketch_idx join_indices st = Some (join_indices, st)"
| "exclude_joins sketch_instances SKETCH_SPARSITY_BOUND h sketch node (j # joins) sketch_idx join_indices st =
     do {
       max_b \<leftarrow> Max_Non_Zero_Buckets sketch (int sketch_idx) h;
       if max_b < SKETCH_SPARSITY_BOUND then do {
         st \<leftarrow> exclude_join sketch_instances node (ji_other_node j) st;
         exclude_joins sketch_instances SKETCH_SPARSITY_BOUND h sketch node joins (sketch_idx + 1) (join_indices @ [sketch_idx]) st
       }
       else exclude_joins sketch_instances SKETCH_SPARSITY_BOUND h sketch node joins (sketch_idx + 1) join_indices st
     }"

text \<open>The loop that erases the collected indices, one after the other, from the shrinking vector.\<close>

definition erase_indices :: "nat list \<Rightarrow> 'a list \<Rightarrow> 'a list option" where
  "erase_indices join_indices v = foldM (\<lambda>i v. vector_erase v (int i)) join_indices v"

text \<open>The body of the loop over the tables.\<close>

definition exclude_node ::
  "(nat \<rightharpoonup> FAGMS_Sketch) \<Rightarrow> u32 \<Rightarrow> heap \<Rightarrow> nat \<times> u32 \<Rightarrow> sparse_state \<Rightarrow> sparse_state option" where
  "exclude_node sketch_instances SKETCH_SPARSITY_BOUND h node st =
     (if fst node \<in> sp_nodes st then Some st
      else do {
        let joins = join_nodes_of (sp_connections st) (fst node);
        let st = st\<lparr>sp_connections := (sp_connections st)(fst node \<mapsto> joins)\<rparr>;
        sketch \<leftarrow> sketch_instances (fst node);
        (join_indices, st) \<leftarrow> exclude_joins sketch_instances SKETCH_SPARSITY_BOUND h sketch (fst node) joins 0 [] st;
        st \<leftarrow> (if join_indices = [] then Some st else do {
          v \<leftarrow> erase_indices join_indices (join_nodes_of (sp_connections st) (fst node));
          Some (st\<lparr>sp_connections := (sp_connections st)(fst node \<mapsto> v)\<rparr>)
        });
        Some (if fst node \<in> dom (sp_edges st) \<and> unat (keys_no sketch) = card (edges_of (sp_edges st) (fst node))
              then exclude_table (fst node) st else st)
      })"

text \<open>The loop that moves the excluded tables; it stops at the first entry of the table, or at the end.\<close>

fun complexity_index :: "nat \<Rightarrow> (nat \<times> u32) list \<Rightarrow> int \<Rightarrow> int \<times> (nat \<times> u32) list" where
  "complexity_index ex_node [] node_index = (node_index, [])"
| "complexity_index ex_node (node # nodes) node_index =
     (if ex_node = fst node then (node_index + 1, [node]) else complexity_index ex_node nodes (node_index + 1))"

definition move_excluded ::
  "nat \<Rightarrow> (nat \<times> u32) list \<times> (nat \<times> u32) list \<Rightarrow> ((nat \<times> u32) list \<times> (nat \<times> u32) list) option" where
  "move_excluded ex_node = (\<lambda>(sketch_complexities, excluded).
     let (node_index, found) = complexity_index ex_node sketch_complexities (-1)
     in do { sc \<leftarrow> vector_erase sketch_complexities node_index; Some (sc, excluded @ found) })"

text \<open>
  The result: the remaining complexities, the excluded nodes with their complexities, and the state
  with the graph, the join columns and the excluded edges.
\<close>

definition exclude_sparse_sketches ::
  "((nat \<times> u32) list \<Rightarrow> (nat \<times> u32) list) \<Rightarrow> (nat \<times> u32) list \<Rightarrow> join_graph \<Rightarrow> (nat \<rightharpoonup> FAGMS_Sketch) \<Rightarrow> (nat \<rightharpoonup> join_info list) \<Rightarrow>
     u32 \<Rightarrow> heap \<Rightarrow> ((nat \<times> u32) list \<times> (nat \<times> u32) list \<times> sparse_state) option" where
  "exclude_sparse_sketches srt sketch_complexities join_graph sketch_instances join_connections SKETCH_SPARSITY_BOUND h =
     do {
       st \<leftarrow> foldM (exclude_node sketch_instances SKETCH_SPARSITY_BOUND h) sketch_complexities
         \<lparr>sp_graph = join_graph, sp_connections = join_connections, sp_edges = Map.empty, sp_nodes = {}\<rparr>;
       (sc, excluded) \<leftarrow> foldM move_excluded (sorted_list_of_set (sp_nodes st)) (sketch_complexities, []);
       Some (sc, srt excluded, st)
     }"

section \<open>Dense sketches\<close>

text \<open>A bound no join falls below: its sketch columns are read and nothing is excluded.\<close>

definition dense_join :: "u32 \<Rightarrow> heap \<Rightarrow> (nat \<rightharpoonup> FAGMS_Sketch) \<Rightarrow> (nat \<rightharpoonup> join_info list) \<Rightarrow> nat \<Rightarrow> bool" where
  "dense_join bound h s js n \<longleftrightarrow> (\<exists>sk. s n = Some sk \<and>
     (\<forall>i<length (join_nodes_of js n). \<exists>m. Max_Non_Zero_Buckets sk (int i) h = Some m \<and> bound \<le> m))"

lemma exclude_joins_dense:
  assumes "\<And>i. k \<le> i \<Longrightarrow> i < k + length joins \<Longrightarrow> \<exists>m. Max_Non_Zero_Buckets sk (int i) h = Some m \<and> bound \<le> m"
  shows "exclude_joins s bound h sk node joins k acc st = Some (acc, st)"
  using assms
proof (induction joins arbitrary: k)
  case (Cons j joins)
  obtain m where "Max_Non_Zero_Buckets sk (int k) h = Some m" "bound \<le> m" using Cons.prems [of k] by auto
  moreover have "exclude_joins s bound h sk node joins (k + 1) acc st = Some (acc, st)" using Cons.prems by (intro Cons.IH) auto
  ultimately show ?case by (simp add: leD)
qed simp

lemma exclude_node_dense:
  assumes "dense_join bound h s (sp_connections st) (fst node)" and "fst node \<in> dom (sp_connections st)"
    and "sp_edges st = Map.empty"
  shows "exclude_node s bound h node st = Some st"
proof (cases "fst node \<in> sp_nodes st")
  case False
  obtain sk where sk: "s (fst node) = Some sk"
    "\<And>i. i < length (join_nodes_of (sp_connections st) (fst node)) \<Longrightarrow> \<exists>m. Max_Non_Zero_Buckets sk (int i) h = Some m \<and> bound \<le> m"
    using assms(1) by (auto simp: dense_join_def)
  have "(sp_connections st)(fst node \<mapsto> join_nodes_of (sp_connections st) (fst node)) = sp_connections st"
    using assms(2) by (auto simp: join_nodes_of_def)
  then show ?thesis
    using False sk(1) assms(3)
    by (simp add: exclude_node_def exclude_joins_dense [of 0, OF sk(2)])
qed (simp add: exclude_node_def)

lemma exclude_dense:
  assumes "\<forall>(n, c)\<in>set sc. dense_join bound h s js n \<and> n \<in> dom js" and "srt [] = []"
  shows "exclude_sparse_sketches srt sc graph s js bound h =
    Some (sc, [], \<lparr>sp_graph = graph, sp_connections = js, sp_edges = Map.empty, sp_nodes = {}\<rparr>)"
proof -
  let ?st = "\<lparr>sp_graph = graph, sp_connections = js, sp_edges = Map.empty, sp_nodes = {}\<rparr>"
  have "foldM (exclude_node s bound h) sc ?st = Some ?st"
    using assms(1)
  proof (induction sc)
    case (Cons node sc)
    have "exclude_node s bound h node ?st = Some ?st"
      using Cons.prems by (intro exclude_node_dense) (auto split: prod.splits)
    then show ?case using Cons by simp
  qed simp
  then show ?thesis using assms(2) by (simp add: exclude_sparse_sketches_def)
qed

text \<open>
  When no join column has fewer non-zero buckets than the sparsity bound, no table and no join is
  excluded: the join graph, the join columns and the complexities are returned as they were.
\<close>

theorem exclude_sparse_sketches_dense:
  assumes "\<forall>(n, c)\<in>set sc. dense_join bound h s js n \<and> n \<in> dom js" and "srt [] = []"
  shows "exclude_sparse_sketches srt sc graph s js bound h =
    Some (sc, [], \<lparr>sp_graph = graph, sp_connections = js, sp_edges = Map.empty, sp_nodes = {}\<rparr>)"
  using assms by (rule exclude_dense)

lemma Max_Non_Zero_Buckets_example:
  "Max_Non_Zero_Buckets (sketch_example 0 4) 0 (est_heap est_example) = Some 1"
  "Max_Non_Zero_Buckets (sketch_example 1 5) 0 (est_heap est_example) = Some 1"
  by (simp_all add: Max_Non_Zero_Buckets_def sketch_example_def separate_read_def load_def est_example_def test_heap_def)

theorem exclude_sparse_sketches_dense_witness:
  "exclude_sparse_sketches (sort_key snd) [(10, 5), (20, 7)] [(10, [20]), (20, [10])] [10 \<mapsto> sketch_example 0 4, 20 \<mapsto> sketch_example 1 5]
      [10 \<mapsto> [join_example 20], 20 \<mapsto> [join_example 10]] 1 (est_heap est_example) =
    Some ([(10, 5), (20, 7)], [], \<lparr>sp_graph = [(10, [20]), (20, [10])],
      sp_connections = [10 \<mapsto> [join_example 20], 20 \<mapsto> [join_example 10]], sp_edges = Map.empty, sp_nodes = {}\<rparr>)"
  by (rule exclude_sparse_sketches_dense)
    (simp_all add: dense_join_def join_nodes_of_def Max_Non_Zero_Buckets_example Max_Non_Zero_Buckets_example(2) [simplified])

section \<open>Moving the excluded tables\<close>

lemma complexity_index_spec:
  assumes "ex_node \<in> fst ` set sc"
  shows "\<exists>i c. complexity_index ex_node sc k = (k + 1 + int i, [(ex_node, c)]) \<and> i < length sc \<and> sc ! i = (ex_node, c)"
  using assms
proof (induction sc arbitrary: k)
  case (Cons node sc)
  show ?case
  proof (cases "ex_node = fst node")
    case True
    then show ?thesis by (intro exI [of _ 0] exI [of _ "snd node"]) simp
  next
    case False
    then obtain i c where "complexity_index ex_node sc (k + 1) = (k + 1 + 1 + int i, [(ex_node, c)])" "i < length sc" "sc ! i = (ex_node, c)"
      using Cons.IH [of "k + 1"] Cons.prems by auto
    then show ?thesis using False by (intro exI [of _ "Suc i"] exI [of _ c]) simp
  qed
qed simp

lemma move_excluded_spec:
  assumes "ex_node \<in> fst ` set sc" and "distinct (map fst sc)"
  shows "\<exists>sc' c. move_excluded ex_node (sc, ex) = Some (sc', ex @ [(ex_node, c)]) \<and> mset sc = add_mset (ex_node, c) (mset sc') \<and>
    fst ` set sc' = fst ` set sc - {ex_node} \<and> distinct (map fst sc')"
proof -
  obtain i c where i: "complexity_index ex_node sc (-1) = (int i, [(ex_node, c)])" "i < length sc" "sc ! i = (ex_node, c)"
    using complexity_index_spec [OF assms(1), of "-1"] by auto
  let ?sc = "take i sc @ drop (i + 1) sc"
  have sc: "sc = take i sc @ (ex_node, c) # drop (i + 1) sc" using id_take_nth_drop [OF i(2)] i(3) by simp
  have d: "distinct (map fst (take i sc @ (ex_node, c) # drop (i + 1) sc))" using assms(2) sc by simp
  have "mset sc = add_mset (ex_node, c) (mset ?sc)" using arg_cong [OF sc, of mset] by simp
  moreover have "fst ` set ?sc = fst ` set sc - {ex_node}" using arg_cong [OF sc, of set] d by auto
  moreover have "distinct (map fst ?sc)" using d by auto
  moreover have "move_excluded ex_node (sc, ex) = Some (?sc, ex @ [(ex_node, c)])"
    using i by (simp add: move_excluded_def vector_erase_def)
  ultimately show ?thesis by blast
qed

lemma move_all_excluded:
  assumes "set ns \<subseteq> fst ` set sc" and "distinct ns" and "distinct (map fst sc)"
  shows "\<exists>sc' ex'. foldM move_excluded ns (sc, ex) = Some (sc', ex @ ex') \<and> mset sc = mset sc' + mset ex' \<and>
    map fst ex' = ns \<and> fst ` set sc' = fst ` set sc - set ns"
  using assms
proof (induction ns arbitrary: sc ex)
  case (Cons n ns)
  obtain sc1 c where 1: "move_excluded n (sc, ex) = Some (sc1, ex @ [(n, c)])" "mset sc = add_mset (n, c) (mset sc1)"
    "fst ` set sc1 = fst ` set sc - {n}" "distinct (map fst sc1)"
    using move_excluded_spec [of n sc ex] Cons.prems by auto
  have "set ns \<subseteq> fst ` set sc1" using 1(3) Cons.prems(1,2) by auto
  from Cons.IH [OF this _ 1(4), of "ex @ [(n, c)]"] Cons.prems(2)
  obtain sc2 ex2 where 2: "foldM move_excluded ns (sc1, ex @ [(n, c)]) = Some (sc2, (ex @ [(n, c)]) @ ex2)" "mset sc1 = mset sc2 + mset ex2"
    "map fst ex2 = ns" "fst ` set sc2 = fst ` set sc1 - set ns" by auto
  show ?case
    using 1 2 by (intro exI [of _ sc2] exI [of _ "(n, c) # ex2"]) auto
qed simp

section \<open>The excluded tables\<close>

definition sparse_inv :: "nat set \<Rightarrow> sparse_state \<Rightarrow> bool" where
  "sparse_inv N st \<longleftrightarrow> sp_nodes st \<subseteq> N \<and>
     (\<forall>n\<in>sp_nodes st. n \<notin> fst ` set (sp_graph st) \<and> sp_connections st n = None) \<and>
     (\<forall>n l. sp_connections st n = Some l \<longrightarrow> ji_other_node ` set l \<subseteq> N - {n})"

lemma sparse_inv_joins: "sparse_inv N st \<Longrightarrow> ji_other_node ` set (join_nodes_of (sp_connections st) n) \<subseteq> N - {n}"
  unfolding sparse_inv_def join_nodes_of_def by (cases "sp_connections st n") simp_all

lemma sparse_inv_connections:
  "sparse_inv N st \<Longrightarrow> n \<notin> sp_nodes st \<Longrightarrow> ji_other_node ` set l \<subseteq> N - {n} \<Longrightarrow>
   sparse_inv N (st\<lparr>sp_connections := (sp_connections st)(n \<mapsto> l)\<rparr>)"
  by (auto simp: sparse_inv_def)

lemma vector_erase_subset: "vector_erase xs i = Some ys \<Longrightarrow> set ys \<subseteq> set xs \<and> xs \<noteq> []"
  by (auto simp: vector_erase_def dest: in_set_takeD in_set_dropD split: if_splits)

lemma graph_erase_edge_keys: "fst ` set (graph_erase_edge m n graph) = insert m (fst ` set graph)"
  by (force simp: graph_erase_edge_def image_iff)

lemma exclude_table_inv: "sparse_inv N st \<Longrightarrow> n \<in> N \<Longrightarrow> sparse_inv N (exclude_table n st)"
  by (auto simp: sparse_inv_def exclude_table_def)

lemma exclude_join_inv:
  assumes inv: "sparse_inv N st" and run: "exclude_join s node m st = Some st'" and n: "node \<notin> sp_nodes st" "m \<in> N" "m \<noteq> node"
  shows "sparse_inv N st' \<and> node \<notin> sp_nodes st'"
proof -
  obtain sk l edges where 1: "s m = Some sk"
      "vector_erase (join_nodes_of (sp_connections st) m) (other_column_index node (join_nodes_of (sp_connections st) m) (-1)) = Some l"
    and st': "st' = (let st1 = st\<lparr>sp_edges := edges, sp_connections := (sp_connections st)(m \<mapsto> l),
         sp_graph := graph_erase_edge m node (graph_erase_edge node m (sp_graph st))\<rparr>
       in if unat (keys_no sk) = card (edges_of edges m) then exclude_table m st1 else st1)"
    using run by (auto simp: exclude_join_def Let_def split: bind_splits)
  obtain l0 where l0: "sp_connections st m = Some l0" "set l \<subseteq> set l0"
    using vector_erase_subset [OF 1(2)] by (auto simp: join_nodes_of_def split: option.splits)
  then have m: "m \<notin> sp_nodes st" using inv by (auto simp: sparse_inv_def)
  have "ji_other_node ` set l \<subseteq> N - {m}"
    using sparse_inv_joins [OF inv, of m] image_mono [OF l0(2), of ji_other_node] l0(1) by (simp add: join_nodes_of_def)
  from sparse_inv_connections [OF inv m this] m n(1)
  have inv': "sparse_inv N (st\<lparr>sp_edges := edges, sp_connections := (sp_connections st)(m \<mapsto> l),
         sp_graph := graph_erase_edge m node (graph_erase_edge node m (sp_graph st))\<rparr>)"
    unfolding sparse_inv_def by (simp add: graph_erase_edge_keys) blast
  have "sp_nodes (exclude_table m x) = insert m (sp_nodes x)" for x by (simp add: exclude_table_def)
  then show ?thesis using n inv' exclude_table_inv [OF inv' n(2)] by (simp add: st' Let_def)
qed

lemma exclude_joins_inv:
  assumes "exclude_joins s bound h sk node joins k acc st = Some (idx, st')" and "sparse_inv N st" and "node \<notin> sp_nodes st"
    and "ji_other_node ` set joins \<subseteq> N - {node}"
  shows "sparse_inv N st' \<and> node \<notin> sp_nodes st'"
  using assms
proof (induction joins arbitrary: k acc st)
  case (Cons j joins)
  obtain m where m: "Max_Non_Zero_Buckets sk (int k) h = Some m" using Cons.prems(1) by (auto split: bind_splits)
  show ?case
  proof (cases "m < bound")
    case True
    then obtain st1 where 1: "exclude_join s node (ji_other_node j) st = Some st1"
      "exclude_joins s bound h sk node joins (k + 1) (acc @ [k]) st1 = Some (idx, st')"
      using Cons.prems(1) m by (auto split: bind_splits)
    have "sparse_inv N st1 \<and> node \<notin> sp_nodes st1"
      using Cons.prems(4) by (intro exclude_join_inv [OF Cons.prems(2) 1(1) Cons.prems(3)]) auto
    then show ?thesis using Cons.IH [OF 1(2)] Cons.prems(4) by auto
  next
    case False
    then show ?thesis using Cons.IH [of "k + 1" acc st] Cons.prems m by auto
  qed
qed simp

lemma erase_indices_subset: "erase_indices idx v = Some v' \<Longrightarrow> set v' \<subseteq> set v"
proof (induction idx arbitrary: v)
  case (Cons i idx)
  then obtain v1 where "vector_erase v (int i) = Some v1" "erase_indices idx v1 = Some v'"
    by (auto simp: erase_indices_def split: bind_splits)
  then show ?case using Cons.IH vector_erase_subset by blast
qed (simp add: erase_indices_def)

lemma exclude_node_inv:
  assumes run: "exclude_node s bound h node st = Some st'" and inv: "sparse_inv N st" and node: "fst node \<in> N"
  shows "sparse_inv N st'"
proof (cases "fst node \<in> sp_nodes st")
  case False
  let ?n = "fst node" and ?st = "st\<lparr>sp_connections := (sp_connections st)(fst node \<mapsto> join_nodes_of (sp_connections st) (fst node))\<rparr>"
  note joins = sparse_inv_joins [OF inv, of ?n]
  have inv1: "sparse_inv N ?st" by (rule sparse_inv_connections [OF inv False joins])
  obtain sk idx st1 st2 where 1: "exclude_joins s bound h sk ?n (join_nodes_of (sp_connections st) ?n) 0 [] ?st = Some (idx, st1)"
    and 2: "(if idx = [] then Some st1 else do {
          v \<leftarrow> erase_indices idx (join_nodes_of (sp_connections st1) ?n);
          Some (st1\<lparr>sp_connections := (sp_connections st1)(?n \<mapsto> v)\<rparr>) }) = Some st2"
    and st': "st' = (if ?n \<in> dom (sp_edges st2) \<and> unat (keys_no sk) = card (edges_of (sp_edges st2) ?n) then exclude_table ?n st2 else st2)"
    using run False by (auto simp: exclude_node_def Let_def split: bind_splits)
  have inv2: "sparse_inv N st1" "?n \<notin> sp_nodes st1"
    using exclude_joins_inv [OF 1 inv1] False joins by simp_all
  have "sparse_inv N st2"
  proof (cases "idx = []")
    case ne: False
    then obtain v where v: "erase_indices idx (join_nodes_of (sp_connections st1) ?n) = Some v"
      "st2 = st1\<lparr>sp_connections := (sp_connections st1)(?n \<mapsto> v)\<rparr>" using 2 by (auto split: bind_splits)
    have "ji_other_node ` set v \<subseteq> N - {?n}"
      using image_mono [OF erase_indices_subset [OF v(1)], of ji_other_node] sparse_inv_joins [OF inv2(1), of ?n] by blast
    then show ?thesis using inv2 v(2) sparse_inv_connections by simp
  qed (use 2 inv2 in simp)
  then show ?thesis using exclude_table_inv node by (simp add: st')
qed (use assms in \<open>simp add: exclude_node_def\<close>)



text \<open>
  C13. Two sparse joins in a row are not both removed from a table's join columns. The indices are
  erased in increasing order without regard to the elements that already moved up: the second of
  the two survives, the join after it is lost in its place, and if there is none the erasure is out
  of range.
\<close>

theorem erase_indices_shift:
  assumes "i + 1 < length xs"
  shows "erase_indices [i, i + 1] xs =
    (if i + 2 < length xs then Some (take i xs @ [xs ! (i + 1)] @ drop (i + 3) xs) else None)"
proof -
  have "take (Suc i) (take i xs @ drop (Suc i) xs) = take i xs @ [xs ! Suc i]"
    using assms by (simp add: take_drop min_def Suc_diff_le flip: Cons_nth_drop_Suc)
  moreover have "nat (1 + int i) = Suc i" by simp
  ultimately show ?thesis using assms by (auto simp: erase_indices_def vector_erase_def numeral_3_eq_3)
qed

theorem erase_indices_shift_witness: "erase_indices [0, 1] [10, 20, 30 :: nat] = Some [20] \<and> erase_indices [1, 2] [10, 20, 30 :: nat] = None"
  using erase_indices_shift [of 0 "[10, 20, 30 :: nat]"] erase_indices_shift [of 1 "[10, 20, 30 :: nat]"] by (simp add: numeral_2_eq_2)

end
