(* ===== verification/Rex.thy ===== *)
theory Rex
  imports Prelude
begin

text \<open>
  Scalar expressions of the relational algebra: the class hierarchy \<open>RexScalar\<close> of
  \<open>QueryEngine/RelAlgAbstractInterpreter.h\<close> as one datatype, whose nodes refer to relational operators
  by address. A null \<open>unique_ptr\<close> is the constructor \<open>RexNull\<close>: every \<open>dynamic_cast\<close> of it fails. The
  visitor \<open>RexRebindInputsVisitor\<close> of \<open>RelAlgAbstractInterpreter.cpp\<close>, which redirects the inputs of an
  expression, is \<open>rebind\<close>; a failed \<open>CHECK\<close> is \<^const>\<open>None\<close>.
\<close>

section \<open>Types and operators\<close>

datatype SQLTypes =
  kNULLT | kBOOLEAN | kCHAR | kVARCHAR | kNUMERIC | kDECIMAL | kINT | kSMALLINT | kFLOAT | kDOUBLE | kTIME | kTIMESTAMP
| kBIGINT | kTEXT | kDATE | kARRAY | kINTERVAL_DAY_TIME | kINTERVAL_YEAR_MONTH | kSQLTYPE_LAST

datatype SQLOps =
  kEQ | kBW_EQ | kNE | kLT | kGT | kLE | kGE | kAND | kOR | kNOT | kMINUS | kPLUS | kMULTIPLY | kDIVIDE | kMODULO | kUMINUS
| kISNULL | kISNOTNULL | kEXISTS | kCAST | kARRAY_AT | kUNNEST | kFUNCTION | kIN

datatype SQLAgg = kAVG | kMIN | kMAX | kSUM | kCOUNT | kAPPROX_COUNT_DISTINCT | kFAGMS_SKETCH

datatype JoinType = INNER | LEFT | INVALID

text \<open>The type of an operator is only copied.\<close>

record SQLTypeInfo =
  ti_type :: SQLTypes
  ti_notnull :: bool
  ti_precision :: int
  ti_scale :: int

section \<open>Literals\<close>

text \<open>The variant \<open>literal_\<close>; a double is its bit pattern.\<close>

datatype literal = LInt64 "64 word" | LDouble "64 word" | LString string | LBool bool | LNull

record literal_info =
  lit_val :: literal
  lit_type :: SQLTypes
  lit_target_type :: SQLTypes
  lit_scale :: u32
  lit_precision :: u32
  lit_type_scale :: u32
  lit_type_precision :: u32

definition IS_TIME :: "SQLTypes \<Rightarrow> bool" where
  "IS_TIME t \<longleftrightarrow> t = kTIME \<or> t = kTIMESTAMP \<or> t = kDATE"

text \<open>The five constructors, with their \<open>CHECK\<close>s.\<close>

fun literal_check :: "literal \<Rightarrow> SQLTypes \<Rightarrow> bool" where
  "literal_check (LInt64 v) t \<longleftrightarrow> t = kDECIMAL \<or> t = kINTERVAL_DAY_TIME \<or> t = kINTERVAL_YEAR_MONTH \<or> IS_TIME t"
| "literal_check (LDouble v) t \<longleftrightarrow> t = kDOUBLE"
| "literal_check (LString v) t \<longleftrightarrow> t = kTEXT"
| "literal_check (LBool v) t \<longleftrightarrow> t = kBOOLEAN"
| "literal_check LNull t \<longleftrightarrow> t = kNULLT"

definition literal_new :: "literal \<Rightarrow> SQLTypes \<Rightarrow> SQLTypes \<Rightarrow> u32 \<Rightarrow> u32 \<Rightarrow> u32 \<Rightarrow> u32 \<Rightarrow> literal_info option" where
  "literal_new v t tt s p ts tp =
     (if literal_check v t then Some \<lparr>lit_val = v, lit_type = t, lit_target_type = tt, lit_scale = s, lit_precision = p,
        lit_type_scale = ts, lit_type_precision = tp\<rparr> else None)"

definition literal_null :: "SQLTypes \<Rightarrow> literal_info" where
  "literal_null tt = \<lparr>lit_val = LNull, lit_type = kNULLT, lit_target_type = tt, lit_scale = 0, lit_precision = 0,
     lit_type_scale = 0, lit_type_precision = 0\<rparr>"

definition literal_deepCopy :: "literal_info \<Rightarrow> literal_info option" where
  "literal_deepCopy l =
     (case lit_val l of
        LNull \<Rightarrow> Some (literal_null (lit_target_type l))
      | v \<Rightarrow> literal_new v (lit_type l) (lit_target_type l) (lit_scale l) (lit_precision l) (lit_type_scale l) (lit_type_precision l))"

text \<open>A literal that a constructor made.\<close>

definition literal_ok :: "literal_info \<Rightarrow> bool" where
  "literal_ok l \<longleftrightarrow> literal_check (lit_val l) (lit_type l) \<and> (lit_val l = LNull \<longrightarrow> l = literal_null (lit_target_type l))"

lemma literal_deepCopy_ok [simp]: "literal_ok l \<Longrightarrow> literal_deepCopy l = Some l"
  by (cases l; cases "lit_val l") (auto simp: literal_ok_def literal_deepCopy_def literal_new_def)

section \<open>Expressions\<close>

type_synonym node_ptr = nat

datatype RexScalar =
  RexNull
| RexInput node_ptr nat
| RexLiteral literal_info
| RexOperator SQLOps "RexScalar list" SQLTypeInfo
| RexFunctionOperator string "RexScalar list" SQLTypeInfo
| RexCase "RexBranch list" RexScalar
| RexRef nat
| RexSubQuery node_ptr
and RexBranch = When RexScalar RexScalar

record RexAgg =
  agg_kind :: SQLAgg
  agg_distinct :: bool
  agg_type :: SQLTypeInfo
  agg_operands :: "nat list"

text \<open>\<open>dynamic_cast<const RexOperator*>\<close>: a function operator is an operator.\<close>

fun is_operator :: "RexScalar \<Rightarrow> bool" where
  "is_operator (RexOperator op es ti) \<longleftrightarrow> True"
| "is_operator (RexFunctionOperator name es ti) \<longleftrightarrow> True"
| "is_operator _ \<longleftrightarrow> False"

fun is_case :: "RexScalar \<Rightarrow> bool" where
  "is_case (RexCase ps e) \<longleftrightarrow> True"
| "is_case _ \<longleftrightarrow> False"

fun operand_list :: "RexScalar \<Rightarrow> RexScalar list" where
  "operand_list (RexOperator op es ti) = es"
| "operand_list (RexFunctionOperator name es ti) = es"
| "operand_list _ = []"

section \<open>Rebinding the inputs\<close>

fun rebind :: "node_ptr \<Rightarrow> node_ptr \<Rightarrow> RexScalar \<Rightarrow> RexScalar option"
  and rebind_list :: "node_ptr \<Rightarrow> node_ptr \<Rightarrow> RexScalar list \<Rightarrow> RexScalar list option"
  and rebind_branches :: "node_ptr \<Rightarrow> node_ptr \<Rightarrow> RexBranch list \<Rightarrow> RexBranch list option" where
  "rebind old new RexNull = None"
| "rebind old new (RexInput s i) = Some (RexInput (if s = old then new else s) i)"
| "rebind old new (RexLiteral l) = Some (RexLiteral l)"
| "rebind old new (RexOperator op es ti) = do { es \<leftarrow> rebind_list old new es; Some (RexOperator op es ti) }"
| "rebind old new (RexFunctionOperator name es ti) = do { es \<leftarrow> rebind_list old new es; Some (RexFunctionOperator name es ti) }"
| "rebind old new (RexCase ps e) =
     do { ps \<leftarrow> rebind_branches old new ps; e \<leftarrow> (if e = RexNull then Some RexNull else rebind old new e); Some (RexCase ps e) }"
| "rebind old new (RexRef i) = Some (RexRef i)"
| "rebind old new (RexSubQuery q) = Some (RexSubQuery q)"
| "rebind_list old new [] = Some []"
| "rebind_list old new (e # es) = do { e \<leftarrow> rebind old new e; es \<leftarrow> rebind_list old new es; Some (e # es) }"
| "rebind_branches old new [] = Some []"
| "rebind_branches old new (When w t # ps) =
     do { w \<leftarrow> rebind old new w; t \<leftarrow> rebind old new t; ps \<leftarrow> rebind_branches old new ps; Some (When w t # ps) }"

end
