(* ===== verification/Permutation.thy ===== *)
theory Permutation
  imports SketchEnumeration PlanAdjust Sparse Rex
begin

text \<open>
  \<open>get_node_input_permutation\<close> and \<open>left_deep_join_types\<close> of \<open>QueryEngine/RelAlgExecutor.cpp\<close>: the order
  in which the inputs of a left-deep join are executed. The tables are the vector of their tuple
  counts, \<open>table_index_infos\<close> maps a node to its table and its position among the inputs. The four
  calls of \<open>std::sort\<close> are collected in a record; printing and timing are left out. A null base
  sketch is rejected where it is looked up, and the memo table is empty at the start. The block
  under \<open>dl_experiments\<close> is disabled in the source.
\<close>

section \<open>Definitions\<close>

text \<open>\<open>std::numeric_limits<double>::max()\<close>.\<close>

definition dbl_max :: double where
  "dbl_max = 2 ^ 1024 - 2 ^ 971"

record sorts =
  sort_small :: "(nat \<times> u32) list \<Rightarrow> (nat \<times> u32) list"
  sort_large :: "(nat \<times> u32) list \<Rightarrow> (nat \<times> u32) list"
  sort_est :: "(nat \<times> double) list \<Rightarrow> (nat \<times> double) list"
  sort_tuples :: "(nat \<Rightarrow> nat) \<Rightarrow> nat list \<Rightarrow> nat list"

text \<open>The sorts as stable sorts.\<close>

definition stable_sorts :: sorts where
  "stable_sorts = \<lparr>sort_small = sort_key snd, sort_large = sort_key (\<lambda>x. - uint (snd x)), sort_est = sort_key snd,
     sort_tuples = (\<lambda>tuples. sort_key (\<lambda>i. - int (tuples i)))\<rparr>"

text \<open>One two-way estimate for the baseline; the table sizes it compares are looked up but not used.\<close>

definition two_way_estimate ::
  "FAGMS_Sketch \<Rightarrow> (nat \<rightharpoonup> FAGMS_Sketch) \<Rightarrow> (nat \<rightharpoonup> join_info list) \<Rightarrow> (nat \<rightharpoonup> nat \<times> nat) \<Rightarrow> nat list \<Rightarrow> nat \<Rightarrow>
     join_info \<Rightarrow> est_state \<times> double \<Rightarrow> (est_state \<times> double) option" where
  "two_way_estimate base_sketch sketch_instances join_connections table_index_infos table_infos node j = (\<lambda>(st, min_two_way). do {
     (v, st) \<leftarrow> estimate_join_size base_sketch sketch_instances join_connections [node, ji_other_node j] st;
     if v \<le> min_two_way then do {
       l \<leftarrow> table_index_infos node;
       left \<leftarrow> list_read table_infos (snd l);
       r \<leftarrow> table_index_infos (ji_other_node j);
       right \<leftarrow> list_read table_infos (snd r);
       Some (st, v)
     } else Some (st, min_two_way)
   })"

text \<open>
  The loop over \<open>largest_complexity\<close>, which ends after its first table: the node it leaves in
  \<open>temp_node\<close>, whose default is 0.
\<close>

definition base_node ::
  "(nat \<rightharpoonup> FAGMS_Sketch) \<Rightarrow> (nat \<rightharpoonup> join_info list) \<Rightarrow> (nat \<rightharpoonup> nat \<times> nat) \<Rightarrow> nat list \<Rightarrow> (nat \<times> u32) list \<Rightarrow> heap \<Rightarrow>
     (nat \<times> heap) option" where
  "base_node sketch_instances join_connections table_index_infos table_infos largest_complexity h =
     (case largest_complexity of
        [] \<Rightarrow> Some (0, h)
      | kk # _ \<Rightarrow> do {
          base_sketch \<leftarrow> sketch_instances (fst kk);
          (st, m) \<leftarrow> foldM (two_way_estimate base_sketch sketch_instances join_connections table_index_infos table_infos (fst kk))
            (join_nodes_of join_connections (fst kk)) (\<lparr>bottom_up_table = Map.empty, est_heap = h\<rparr>, dbl_max);
          Some (fst kk, est_heap st)
        })"

text \<open>The enumeration from the base node, when there is a table to enumerate.\<close>

definition enumerate_base ::
  "((nat \<times> double) list \<Rightarrow> (nat \<times> double) list) \<Rightarrow> (nat \<rightharpoonup> FAGMS_Sketch) \<Rightarrow> (nat \<rightharpoonup> join_info list) \<Rightarrow> join_graph \<Rightarrow> (nat \<times> u32) list \<Rightarrow>
     nat \<Rightarrow> heap \<Rightarrow> est_state dfs option" where
  "enumerate_base srt sketch_instances join_connections graph sketch_complexities node h =
     (let start = dfs_start dbl_max \<lparr>bottom_up_table = Map.empty, est_heap = h\<rparr>
      in if sketch_complexities = [] then Some start
         else do {
           base_sketch \<leftarrow> sketch_instances node;
           get_distinct_graph_traversals srt (estimate_join_size base_sketch sketch_instances join_connections) graph 1
             (length graph + 1) node [] 0 start
         })"

text \<open>The estimates of the growing prefixes of the optimal plan.\<close>

definition prefix_estimates ::
  "(nat \<rightharpoonup> FAGMS_Sketch) \<Rightarrow> (nat \<rightharpoonup> join_info list) \<Rightarrow> nat list \<Rightarrow> est_state \<Rightarrow> (double \<times> est_state) option" where
  "prefix_estimates sketch_instances join_connections plan st =
     (if plan = [] then None
      else do {
        base_sketch \<leftarrow> sketch_instances (hd plan);
        foldM (\<lambda>i (total_temp, st). do {
          (v, st) \<leftarrow> estimate_join_size base_sketch sketch_instances join_connections (take (i + 1) plan) st;
          Some (dadd total_temp v, st)
        }) [1..<length plan] (0, st)
      })"

text \<open>The position in the plan of the first node with a join to \<open>ex_node\<close>.\<close>

fun joined_position :: "(nat \<rightharpoonup> join_info list) \<Rightarrow> nat \<Rightarrow> nat list \<Rightarrow> nat \<Rightarrow> nat option" where
  "joined_position join_connections ex_node [] input_idx = None"
| "joined_position join_connections ex_node (node # plan) input_idx =
     (if ex_node \<in> ji_other_node ` set (join_nodes_of join_connections node) then Some input_idx
      else joined_position join_connections ex_node plan (input_idx + 1))"

text \<open>The loop that puts the excluded nodes back; \<open>i\<close> is the position of the iterator.\<close>

partial_function (option) reattach_excluded ::
  "(nat \<rightharpoonup> join_info list) \<Rightarrow> nat list \<Rightarrow> nat \<Rightarrow> nat set \<Rightarrow> nat list \<Rightarrow> nat list option" where
  "reattach_excluded join_connections excluded_nodes i already_added final_plan =
     (if length excluded_nodes = card already_added then Some final_plan
      else
        let i = (if i = length excluded_nodes then 0 else i); ex_node = excluded_nodes ! i
        in if ex_node \<in> already_added then reattach_excluded join_connections excluded_nodes (i + 1) already_added final_plan
           else case joined_position join_connections ex_node final_plan 0 of
               None \<Rightarrow> reattach_excluded join_connections excluded_nodes (i + 1) already_added final_plan
             | Some input_idx \<Rightarrow> reattach_excluded join_connections excluded_nodes (i + 1) (insert ex_node already_added)
                 (take input_idx final_plan @ [ex_node] @ drop input_idx final_plan))"

text \<open>\<open>table_index_infos.find(node)->second.second\<close> for every node of a plan.\<close>

fun plan_positions :: "(nat \<rightharpoonup> nat \<times> nat) \<Rightarrow> nat list \<Rightarrow> nat list option" where
  "plan_positions table_index_infos [] = Some []"
| "plan_positions table_index_infos (n # plan) =
     do { p \<leftarrow> table_index_infos n; ps \<leftarrow> plan_positions table_index_infos plan; Some (snd p # ps) }"

text \<open>The branch with join connections, for the single bound limit 1.\<close>

definition optimal_permutation ::
  "sorts \<Rightarrow> nat list \<Rightarrow> (nat \<rightharpoonup> nat \<times> nat) \<Rightarrow> (nat \<times> u32) list \<Rightarrow> join_graph \<Rightarrow> (nat \<rightharpoonup> FAGMS_Sketch) \<Rightarrow> (nat \<rightharpoonup> join_info list) \<Rightarrow>
     u32 \<Rightarrow> heap \<Rightarrow> (nat list \<times> heap) option" where
  "optimal_permutation so table_infos table_index_infos sketch_complexities init_graph sketch_instances join_connections
      SKETCH_SPARSITY_BOUND h =
     do {
       (sc, excluded_nodes, sp) \<leftarrow> exclude_sparse_sketches (sort_small so) (sort_small so sketch_complexities) init_graph
         sketch_instances join_connections SKETCH_SPARSITY_BOUND h;
       (temp_node, h) \<leftarrow> base_node sketch_instances join_connections table_index_infos table_infos (sort_large so sc) h;
       st \<leftarrow> enumerate_base (sort_est so) sketch_instances join_connections (sp_graph sp) sc temp_node h;
       let base_final_plan = (if sc = [] then [] else optimal_traversal st);
       plan_positions table_index_infos (optimal_traversal st);
       (total_temp, es) \<leftarrow> prefix_estimates sketch_instances join_connections (optimal_traversal st) (dfs_est st);
       full_plan \<leftarrow> reattach_excluded join_connections (map fst excluded_nodes) 0 {} (optimal_traversal st);
       plan_positions table_index_infos full_plan;
       final_plan \<leftarrow> adjustPlanForMapD init_graph base_final_plan;
       input_permutation \<leftarrow> plan_positions table_index_infos final_plan;
       Some (input_permutation, est_heap es)
     }"

definition get_node_input_permutation ::
  "sorts \<Rightarrow> nat list \<Rightarrow> (nat \<rightharpoonup> nat \<times> nat) \<Rightarrow> (nat \<times> u32) list \<Rightarrow> join_graph \<Rightarrow> (nat \<rightharpoonup> FAGMS_Sketch) \<Rightarrow> (nat \<rightharpoonup> join_info list) \<Rightarrow>
     nat \<Rightarrow> u32 \<Rightarrow> heap \<Rightarrow> (nat list \<times> heap) option" where
  "get_node_input_permutation so table_infos table_index_infos sketch_complexities join_graph sketch_instances join_connections
      NODE_TRAVERSE_BOUND SKETCH_SPARSITY_BOUND h =
     (if join_connections \<noteq> Map.empty then
        optimal_permutation so table_infos table_index_infos sketch_complexities join_graph sketch_instances join_connections
          SKETCH_SPARSITY_BOUND h
      else Some (sort_tuples so (\<lambda>i. table_infos ! i) [0..<length table_infos], h))"

text \<open>\<open>outer_condition\<close> is whether \<open>getOuterCondition(nesting_level)\<close> is not null.\<close>

definition left_deep_join_types :: "nat \<Rightarrow> (nat \<Rightarrow> bool) \<Rightarrow> JoinType list option" where
  "left_deep_join_types inputCount outer_condition =
     (if inputCount < 2 then None
      else Some (fold (\<lambda>nesting_level join_types.
             if outer_condition nesting_level then join_types[nesting_level - 1 := LEFT] else join_types)
           [1..<inputCount] (replicate (inputCount - 1) INNER)))"

section \<open>Every step of the plan search returns\<close>

text \<open>The join graph of the join conditions, in both directions.\<close>

definition joins_match :: "join_graph \<Rightarrow> (nat \<rightharpoonup> join_info list) \<Rightarrow> bool" where
  "joins_match graph js \<longleftrightarrow> (\<forall>m n. adjacent graph m n \<longleftrightarrow> n \<in> ji_other_node ` set (join_nodes_of js m))"

text \<open>Every node of the graph has its own position among the inputs.\<close>

definition positions_match :: "join_graph \<Rightarrow> (nat \<rightharpoonup> nat \<times> nat) \<Rightarrow> nat \<Rightarrow> bool" where
  "positions_match graph tii n \<longleftrightarrow> set (map fst graph) \<subseteq> dom tii \<and>
     image_mset (\<lambda>k. snd (the (tii k))) (mset (map fst graph)) = mset [0..<n]"

lemma plan_positions_eq: "set plan \<subseteq> dom tii \<Longrightarrow> plan_positions tii plan = Some (map (\<lambda>k. snd (the (tii k))) plan)"
  by (induction plan) auto

lemma positions_less:
  assumes "positions_match graph tii n" and "k \<in> set (map fst graph)"
  shows "\<exists>p. tii k = Some p \<and> snd p < n"
proof -
  obtain p where p: "tii k = Some p" using assms by (auto simp: positions_match_def)
  have "snd (the (tii k)) \<in> (\<lambda>k. snd (the (tii k))) ` set (map fst graph)" using assms(2) by (rule imageI)
  also have "\<dots> = set [0..<n]"
    using assms(1) mset_eq_setD [of "map (\<lambda>k. snd (the (tii k))) (map fst graph)" "[0..<n]"]
    by (simp add: positions_match_def image_mset.compositionality comp_def image_image)
  finally show ?thesis using p by simp
qed

lemma est_ready_step:
  assumes "est_ready R B s js st" and "s n = Some b" and "estimate_join_size b s js ns st = Some (v, st')"
  shows "est_ready R B s js st'"
  using ready.est_double [OF conjI [OF assms(1) ranI] assms(3)] assms(2) by blast

lemma two_way_estimates_total:
  assumes "wf_graph graph" and "joins_match graph js" and "set (map fst graph) \<subseteq> dom s" and "positions_match graph tii (length ti)"
    and "s node = Some b" and "node \<in> set (map fst graph)" and "ji_other_node ` set joins \<subseteq> ji_other_node ` set (join_nodes_of js node)"
    and "est_ready R B s js st"
  shows "\<exists>st' m'. foldM (two_way_estimate b s js tii ti node) joins (st, m) = Some (st', m') \<and> est_ready R B s js st'"
  using assms(7,8)
proof (induction joins arbitrary: st m)
  case (Cons j joins)
  let ?n = "ji_other_node j"
  have adj: "adjacent graph node ?n" "adjacent graph ?n node"
    using Cons.prems(1) assms(1,2) by (auto simp: joins_match_def wf_graph_def)
  then have n: "?n \<in> set (map fst graph)" using assms(1) unfolding wf_graph_def by blast
  have "?n \<in> dom s" using n assms(3) by blast
  obtain v st1 where e: "estimate_join_size b s js [node, ?n] st = Some (v, st1)"
    using estimate_join_size_total [OF Cons.prems(2), of "[node, ?n]" b] adj assms(2,5) \<open>?n \<in> dom s\<close>
    by (auto simp: joins_match_def)
  have "est_ready R B s js st1" by (rule est_ready_step [OF Cons.prems(2) assms(5) e])
  then obtain st' m' where "foldM (two_way_estimate b s js tii ti node) joins (st1, if v \<le> m then v else m) = Some (st', m')"
    "est_ready R B s js st'"
    using Cons.IH [of st1 "if v \<le> m then v else m"] Cons.prems(1) by auto
  moreover have "two_way_estimate b s js tii ti node j (st, m) = Some (st1, if v \<le> m then v else m)"
    using e positions_less [OF assms(4,6)] positions_less [OF assms(4) n] by (auto simp: two_way_estimate_def list_read_def)
  ultimately show ?case by simp
qed simp

lemma prefix_estimates_total:
  assumes "wf_graph graph" and "graph_joins graph js" and "set (map fst graph) \<subseteq> dom s" and "join_order graph t" and "t \<noteq> []"
    and "est_ready R B s js st"
  shows "\<exists>v st'. prefix_estimates s js t st = Some (v, st') \<and> est_ready R B s js st'"
proof -
  have set: "set t = set (map fst graph)" using assms(4) mset_eq_setD unfolding join_order_def by blast
  then obtain b where b: "s (hd t) = Some b" using assms(3,5) by (metis domD hd_in_set subsetD)
  have dist: "distinct t" using assms(1,4) mset_eq_imp_distinct_iff unfolding join_order_def wf_graph_def by blast
  have prefix: "partial_order_of graph (take k t)" for k
    using assms(4) conn_from_append [of graph "{}" "take k t" "drop k t"] set set_take_subset [of k t] dist
    by (simp add: partial_order_of_def join_order_def connected_order_conn_from)
  have "\<exists>v st'. foldM (\<lambda>i (x, st). do { (v, st) \<leftarrow> estimate_join_size b s js (take (i + 1) t) st; Some (dadd x v, st) }) is (x, st) = Some (v, st') \<and>
      est_ready R B s js st'" if "est_ready R B s js st" for "is" x st
    using that
  proof (induction "is" arbitrary: x st)
    case (Cons i "is")
    have "estimate_join_size b s js (take (i + 1) t) st \<noteq> None"
      using assms(5) by (intro estimate_total_start [OF assms(1-3) b Cons.prems prefix]) simp_all
    then obtain v st1 where e: "estimate_join_size b s js (take (i + 1) t) st = Some (v, st1)" by auto
    have "est_ready R B s js st1" by (rule est_ready_step [OF Cons.prems b e])
    then show ?case using Cons.IH [of st1 "dadd x v"] e by auto
  qed simp
  from this [OF assms(6), of "[1..<length t]" 0] show ?thesis using b assms(5) by (simp add: prefix_estimates_def)
qed

section \<open>The permutation of a join without sparse tables\<close>

lemma sort_large_hd:
  assumes "sc \<noteq> []"
  obtains kk rest where "sort_large stable_sorts sc = kk # rest" and "kk \<in> set sc" and "\<And>x. x \<in> set sc \<Longrightarrow> snd x \<le> snd kk"
proof -
  let ?f = "\<lambda>x :: nat \<times> u32. - uint (snd x)"
  obtain kk rest where s: "sort_key ?f sc = kk # rest" using assms by (metis length_0_conv length_sort neq_Nil_conv)
  have set: "set (kk # rest) = set sc" by (metis s set_sort)
  have "sorted (map ?f (kk # rest))" using sorted_sort_key [of ?f sc] unfolding s .
  then have "snd x \<le> snd kk" if "x \<in> set (kk # rest)" for x using that by (auto simp: word_le_def)
  then have "kk \<in> set sc" "\<And>x. x \<in> set sc \<Longrightarrow> snd x \<le> snd kk" using set by auto
  then show ?thesis using that [of kk rest] s by (simp add: stable_sorts_def)
qed

lemma base_node_total:
  assumes "wf_graph graph" and "joins_match graph js" and "set (map fst graph) \<subseteq> dom s" and "positions_match graph tii (length ti)"
    and "fst ` set sc = set (map fst graph)" and "sc \<noteq> []" and "est_ready R B s js \<lparr>bottom_up_table = Map.empty, est_heap = h\<rparr>"
  shows "\<exists>node c h'. base_node s js tii ti (sort_large stable_sorts sc) h = Some (node, h') \<and> (node, c) \<in> set sc \<and> (\<forall>x\<in>set sc. snd x \<le> c) \<and>
    est_ready R B s js \<lparr>bottom_up_table = Map.empty, est_heap = h'\<rparr>"
proof -
  obtain kk rest where kk: "sort_large stable_sorts sc = kk # rest" "kk \<in> set sc" "\<And>x. x \<in> set sc \<Longrightarrow> snd x \<le> snd kk"
    using sort_large_hd [OF assms(6)] by blast
  then have node: "fst kk \<in> set (map fst graph)" using assms(5) by blast
  then obtain b where b: "s (fst kk) = Some b" using assms(3) by blast
  obtain st m where st: "foldM (two_way_estimate b s js tii ti (fst kk)) (join_nodes_of js (fst kk)) (\<lparr>bottom_up_table = Map.empty, est_heap = h\<rparr>, dbl_max) = Some (st, m)"
    "est_ready R B s js st"
    using two_way_estimates_total [OF assms(1-4) b node order_refl assms(7)] by blast
  then have "est_ready R B s js \<lparr>bottom_up_table = Map.empty, est_heap = est_heap st\<rparr>" by (simp add: est_ready_def est_good_def)
  then show ?thesis using kk b st by (intro exI [of _ "fst kk"] exI [of _ "snd kk"] exI [of _ "est_heap st"]) (simp add: base_node_def)
qed

lemma node_joined:
  assumes "connected_graph graph" and "joins_match graph js" and "n \<in> set (map fst graph)" and "2 \<le> length graph" and "wf_graph graph"
  shows "n \<in> dom js"
proof -
  have "card (set (map fst graph)) = length graph" using assms(5) by (simp add: wf_graph_def distinct_card del: set_map)
  then have "{n} \<noteq> set (map fst graph)" using assms(4) by (metis is_singletonI is_singleton_altdef numeral_le_one_iff semiring_norm(69))
  then obtain m where "adjacent graph n m" using assms(1,3) unfolding connected_graph_def by (metis empty_not_insert insert_iff psubsetI singletonD subsetI)
  then show ?thesis using assms(2) by (cases "js n") (auto simp: joins_match_def join_nodes_of_def)
qed

text \<open>The whole search.\<close>

lemma permutation_total:
  assumes "wf_graph graph" and "connected_graph graph" and "joins_match graph js" and "set (map fst graph) \<subseteq> dom s"
    and "positions_match graph tii (length ti)" and "fst ` set sc = set (map fst graph)"
    and "2 \<le> length graph" and "length graph < 2 ^ 32" and "\<exists>n\<in>set (map fst graph). leaf graph n"
    and "\<forall>(n, c)\<in>set sc. dense_join bound h s js n" and "est_ready R B s js \<lparr>bottom_up_table = Map.empty, est_heap = h\<rparr>"
  shows "\<exists>node c h1 st t. (node, c) \<in> set sc \<and> (\<forall>x\<in>set sc. snd x \<le> c) \<and>
    enumerate_base (sort_key snd) s js graph (sort_key snd sc) node h1 = Some st \<and>
    traversals st = [t] \<and> hd t = node \<and> join_order graph t \<and>
    (plan_cost (charged est_val (dfs_est st)) t < dbl_max \<longrightarrow>
      (\<exists>ns h2. get_node_input_permutation stable_sorts ti tii sc graph s js NB bound h = Some (map (\<lambda>k. snd (the (tii k))) ns, h2) \<and>
        join_order graph ns \<and> mset (map (\<lambda>k. snd (the (tii k))) ns) = mset [0..<length ti]))"
proof -
  let ?sc = "sort_key snd sc" and ?pos = "\<lambda>k. snd (the (tii k))"
  have gj: "graph_joins graph js" using assms(3) by (auto simp: joins_match_def graph_joins_def)
  have "graph \<noteq> []" using assms(7) by auto
  then have "sc \<noteq> []" using assms(6) by auto
  then have ne: "?sc \<noteq> []" by (metis length_0_conv length_sort)
  have sp: "exclude_sparse_sketches (sort_key snd) ?sc graph s js bound h =
      Some (?sc, [], \<lparr>sp_graph = graph, sp_connections = js, sp_edges = Map.empty, sp_nodes = {}\<rparr>)"
  proof (rule exclude_dense)
    show "\<forall>(n, c)\<in>set ?sc. dense_join bound h s js n \<and> n \<in> dom js"
      using assms(10) node_joined [OF assms(2,3) _ assms(7,1)] assms(6) by (fastforce simp: image_iff)
  qed simp
  obtain node c h1 where base: "base_node s js tii ti (sort_large stable_sorts ?sc) h = Some (node, h1)" "(node, c) \<in> set sc" "\<forall>x\<in>set sc. snd x \<le> c"
    "est_ready R B s js \<lparr>bottom_up_table = Map.empty, est_heap = h1\<rparr>"
    using base_node_total [OF assms(1,3-5) _ ne assms(11)] assms(6) by auto
  have node: "node \<in> set (map fst graph)" using base(2) assms(6) by force
  then obtain b where b: "s node = Some b" using assms(4) by blast
  obtain st t where run: "get_distinct_graph_traversals (sort_key snd) (estimate_join_size b s js) graph 1 (length graph + 1) node [] 0
      (dfs_start dbl_max \<lparr>bottom_up_table = Map.empty, est_heap = h1\<rparr>) = Some st"
    "est_ready R B s js (dfs_est st)" "traversals st = [t]" "hd t = node" "join_order graph t"
    "plan_cost (charged est_val (dfs_est st)) t < dbl_max \<longrightarrow> optimal_traversal st = t"
    using enumeration_greedy_run [OF assms(1,2) gj assms(4) base(4) b node, of "length graph + 1" dbl_max] by auto
  have t: "set t = set (map fst graph)" "length t = length graph"
    using run(5) mset_eq_setD [of t "map fst graph"] mset_eq_length [of t "map fst graph"] by (simp_all add: join_order_def)
  have enum: "enumerate_base (sort_key snd) s js graph ?sc node h1 = Some st" using run(1) b ne by (simp add: enumerate_base_def)
  have final: "\<exists>ns h2. get_node_input_permutation stable_sorts ti tii sc graph s js NB bound h = Some (map ?pos ns, h2) \<and>
        join_order graph ns \<and> mset (map ?pos ns) = mset [0..<length ti]" if "optimal_traversal st = t"
  proof -
    have "t \<noteq> []" using t(2) assms(7) by auto
    then obtain v es where es: "prefix_estimates s js t (dfs_est st) = Some (v, es)"
      using prefix_estimates_total [OF assms(1) gj assms(4) run(5) _ run(2)] by blast
    obtain ns where ns: "adjustPlanForMapD graph t = Some ns" "mset ns = mset t" "connected_order graph ns"
      using adjust_plan_correct [of graph t] assms(1,7-9) run(5) t by (auto simp: join_order_def)
    have jo: "join_order graph ns" using ns run(5) by (simp add: join_order_def)
    have pos: "plan_positions tii us = Some (map ?pos us)" if "set us = set (map fst graph)" for us
      using plan_positions_eq that assms(5) by (simp add: positions_match_def)
    have "set ns = set (map fst graph)" using mset_eq_setD [OF ns(2)] t(1) by simp
    moreover have "reattach_excluded js [] 0 {} t = Some t" by (subst reattach_excluded.simps) simp
    moreover have "js \<noteq> Map.empty" using node_joined [OF assms(2,3) node assms(7,1)] by auto
    ultimately have "get_node_input_permutation stable_sorts ti tii sc graph s js NB bound h = Some (map ?pos ns, est_heap es)"
      using sp base(1) enum es ns(1) pos t(1) that ne
      by (simp add: get_node_input_permutation_def optimal_permutation_def stable_sorts_def)
    moreover have "mset (map ?pos ns) = mset [0..<length ti]"
      using ns(2) run(5) assms(5) by (simp add: join_order_def positions_match_def)
    ultimately show ?thesis using jo by blast
  qed
  then show ?thesis using base(2,3) enum run(3-6) by (intro exI [of _ node] exI [of _ c] exI [of _ h1] exI [of _ st] exI [of _ t]) blast
qed


definition index_example :: "nat \<rightharpoonup> nat \<times> nat" where
  "index_example = [10 \<mapsto> (1, 0), 20 \<mapsto> (2, 1)]"

lemma positions_example: "positions_match graph_example index_example 2"
  by (simp add: positions_match_def graph_example_def index_example_def numeral_2_eq_2)

lemma joins_match_example: "joins_match graph_example joins_example"
  unfolding joins_match_def adjacent_example by (auto simp: joins_example_def join_nodes_of_def join_example_def)


section \<open>Queries without joins\<close>

text \<open>
  Without join connections the inputs are permuted by decreasing number of tuples, whatever
  the sketches and the bounds.
\<close>

theorem get_node_input_permutation_no_joins:
  "\<exists>perm. get_node_input_permutation stable_sorts ti tii sc graph s Map.empty NB bound h = Some (perm, h) \<and>
     mset perm = mset [0..<length ti] \<and> (\<forall>i j. i < j \<and> j < length perm \<longrightarrow> ti ! (perm ! j) \<le> ti ! (perm ! i))"
proof -
  let ?f = "\<lambda>i. - int (ti ! i)"
  have "sorted (map ?f (sort_key ?f [0..<length ti]))" by (rule sorted_sort_key)
  then have "ti ! (sort_key ?f [0..<length ti] ! j) \<le> ti ! (sort_key ?f [0..<length ti] ! i)"
    if "i < j" "j < length (sort_key ?f [0..<length ti])" for i j
    using sorted_nth_mono [of "map ?f (sort_key ?f [0..<length ti])" i j] that by simp
  then show ?thesis
    by (intro exI [of _ "sort_key ?f [0..<length ti]"]) (simp add: get_node_input_permutation_def stable_sorts_def)
qed

section \<open>Putting back the excluded tables\<close>

lemma joined_position_Some:
  "joined_position js n plan k = Some i \<Longrightarrow> \<exists>m\<in>set plan. n \<in> ji_other_node ` set (join_nodes_of js m)"
  by (induction plan arbitrary: k) (auto split: if_splits)

definition reattached ::
  "nat set \<Rightarrow> (nat \<rightharpoonup> join_info list) \<Rightarrow> nat list \<Rightarrow> nat \<Rightarrow> nat set \<Rightarrow> nat list \<Rightarrow> nat list \<Rightarrow> bool" where
  "reattached P js ex i added plan r \<longleftrightarrow>
     (added \<subseteq> set ex \<and> set plan \<subseteq> P \<union> added \<and> distinct ex \<and> i \<le> length ex \<longrightarrow>
      mset r + mset_set added = mset plan + mset_set (set ex) \<and>
      (\<forall>n\<in>set ex - added. \<exists>m\<in>P \<union> set ex. n \<in> ji_other_node ` set (join_nodes_of js m)))"

lemma mset_insert_at: "mset (take k xs @ [x] @ drop k xs) = add_mset x (mset xs)"
proof -
  have "mset (take k xs) + mset (drop k xs) = mset xs" by (metis append_take_drop_id mset_append)
  then show ?thesis by simp
qed

lemma reattached_step:
  assumes "reattached P js ex (i + 1) (insert n added) (take k plan @ [n] @ drop k plan) r"
    and "joined_position js n plan 0 = Some k" and "n \<notin> added" and "n = ex ! i" and "i < length ex"
  shows "reattached P js ex i added plan r"
  unfolding reattached_def
proof (intro impI)
  assume pre: "added \<subseteq> set ex \<and> set plan \<subseteq> P \<union> added \<and> distinct ex \<and> i \<le> length ex"
  have fin: "finite added" using pre by (auto intro: finite_subset)
  have n: "n \<in> set ex" using assms(4,5) by simp
  have "set (take k plan @ [n] @ drop k plan) = insert n (set plan)"
    using mset_insert_at [of k plan n] by (metis set_mset_add_mset_insert set_mset_mset)
  then have "insert n added \<subseteq> set ex \<and> set (take k plan @ [n] @ drop k plan) \<subseteq> P \<union> insert n added \<and> distinct ex \<and> i + 1 \<le> length ex"
    using pre n assms(5) by auto
  note res = mp [OF assms(1) [unfolded reattached_def] this]
  then have "mset r + mset_set (insert n added) = mset (take k plan @ [n] @ drop k plan) + mset_set (set ex)"
    and joined: "\<forall>n\<in>set ex - insert n added. \<exists>m\<in>P \<union> set ex. n \<in> ji_other_node ` set (join_nodes_of js m)" by blast+
  then have "mset r + mset_set added = mset plan + mset_set (set ex)"
    unfolding mset_insert_at using assms(3) fin by simp
  moreover obtain m where "m \<in> set plan" "n \<in> ji_other_node ` set (join_nodes_of js m)" using joined_position_Some [OF assms(2)] by blast
  then have "\<forall>n\<in>set ex - added. \<exists>m\<in>P \<union> set ex. n \<in> ji_other_node ` set (join_nodes_of js m)"
    using joined pre by (metis DiffD1 DiffD2 DiffI UnE UnI1 UnI2 insertE subsetD)
  ultimately show "mset r + mset_set added = mset plan + mset_set (set ex) \<and>
      (\<forall>n\<in>set ex - added. \<exists>m\<in>P \<union> set ex. n \<in> ji_other_node ` set (join_nodes_of js m))" by simp
qed

lemma reattach_excluded_result: "reattach_excluded js ex i added plan = Some r \<Longrightarrow> reattached P js ex i added plan r"
proof (rule reattach_excluded.raw_induct [where P = "reattached P"])
  fix rec js ex i added plan r
  assume rec: "\<And>js ex i added plan r. rec js ex i added plan = Some r \<Longrightarrow> reattached P js ex i added plan r"
    and body: "(if length ex = card added then Some plan
      else let i = (if i = length ex then 0 else i); n = ex ! i
        in if n \<in> added then rec js ex (i + 1) added plan
           else case joined_position js n plan 0 of
               None \<Rightarrow> rec js ex (i + 1) added plan
             | Some k \<Rightarrow> rec js ex (i + 1) (insert n added) (take k plan @ [n] @ drop k plan)) = Some r"
  show "reattached P js ex i added plan r"
  proof (cases "length ex = card added")
    case True
    then have "added = set ex" if "added \<subseteq> set ex" "distinct ex" using that by (intro card_subset_eq) (simp_all add: distinct_card)
    then show ?thesis using True body by (auto simp: reattached_def)
  next
    case False
    define i' where "i' = (if i = length ex then 0 else i)"
    consider "rec js ex (i' + 1) added plan = Some r"
      | k where "joined_position js (ex ! i') plan 0 = Some k" "ex ! i' \<notin> added"
          "rec js ex (i' + 1) (insert (ex ! i') added) (take k plan @ [ex ! i'] @ drop k plan) = Some r"
      using body False unfolding Let_def i'_def [symmetric] by (auto split: if_splits option.splits)
    then have step: "i' < length ex \<Longrightarrow> reattached P js ex i' added plan r"
    proof cases
      case 1
      then show "i' < length ex \<Longrightarrow> ?thesis" using rec [OF 1] by (auto simp: reattached_def)
    next
      case (2 k)
      then show "i' < length ex \<Longrightarrow> ?thesis" using rec [OF 2(3)] by (intro reattached_step [of P js ex i' "ex ! i'" added k plan r]) simp_all
    qed
    have "i' < length ex" if "added \<subseteq> set ex" "distinct ex" "i \<le> length ex"
    proof -
      have "ex \<noteq> []" using that(1) False by auto
      then show ?thesis using that(3) by (auto simp: i'_def)
    qed
    then show ?thesis using step unfolding reattached_def by fastforce
  qed
qed

text \<open>
  C14. The loop that puts the excluded tables back into the plan, when it ends, adds each of them
  exactly once.
\<close>

theorem reattach_excluded_complete:
  assumes "reattach_excluded js ex 0 {} plan = Some r" and "distinct ex"
  shows "mset r = mset plan + mset ex"
  using reattach_excluded_result [OF assms(1), of "set plan"] assms(2) by (simp add: reattached_def mset_set_set)

theorem reattach_excluded_complete_witness:
  "\<exists>r. reattach_excluded [1 \<mapsto> [join_example 2]] [2] 0 {} [1] = Some r \<and> mset r = mset [1] + mset [2]"
proof -
  have run: "reattach_excluded [1 \<mapsto> [join_example 2]] [2] 0 {} [1] = Some [2, 1]"
    by (subst reattach_excluded.simps, simp add: join_nodes_of_def join_example_def) (subst reattach_excluded.simps, simp)
  moreover have "mset [2, 1] = mset [1] + mset [2 :: nat]" by (rule reattach_excluded_complete [OF run]) simp
  ultimately show ?thesis by (intro exI conjI)
qed

text \<open>
  C15. The loop that puts the excluded tables back does not end when one of them has no join with a
  table of the plan or with another excluded table.
\<close>

theorem reattach_excluded_diverges:
  assumes "n \<in> set ex" and "\<forall>m\<in>set plan \<union> set ex. n \<notin> ji_other_node ` set (join_nodes_of js m)" and "distinct ex"
  shows "reattach_excluded js ex 0 {} plan = None"
proof (rule ccontr)
  assume "reattach_excluded js ex 0 {} plan \<noteq> None"
  then obtain r where "reattach_excluded js ex 0 {} plan = Some r" by auto
  from reattach_excluded_result [OF this, of "set plan"] assms(3)
  have "\<forall>n\<in>set ex. \<exists>m\<in>set plan \<union> set ex. n \<in> ji_other_node ` set (join_nodes_of js m)" by (simp add: reattached_def)
  then show False using assms(1,2) by blast
qed

theorem reattach_excluded_diverges_witness: "reattach_excluded Map.empty [2] 0 {} [1] = None"
  by (rule reattach_excluded_diverges [of 2]) (simp_all add: join_nodes_of_def)

section \<open>Join types\<close>

text \<open>
  A left-deep join over \<open>n\<close> inputs has \<open>n - 1\<close> join types, and the type of a level is \<open>LEFT\<close> exactly
  when the level has an outer condition; fewer than two inputs are rejected.
\<close>

theorem left_deep_join_types_correct:
  "left_deep_join_types n outer =
     (if n < 2 then None else Some (map (\<lambda>level. if outer level then LEFT else INNER) [1..<n]))"
proof -
  have "fold (\<lambda>level ts. if outer level then ts[level - 1 := LEFT] else ts) [1..<Suc k] (replicate k INNER @ rest) =
      map (\<lambda>level. if outer level then LEFT else INNER) [1..<Suc k] @ rest" for k rest
  proof (induction k arbitrary: rest)
    case (Suc k)
    from Suc.IH [of "INNER # rest"]
    have "fold (\<lambda>level ts. if outer level then ts[level - 1 := LEFT] else ts) [1..<Suc k] (replicate (Suc k) INNER @ rest) =
        map (\<lambda>level. if outer level then LEFT else INNER) [1..<Suc k] @ INNER # rest"
      by (simp only: replicate_app_Cons_same replicate_Suc append_Cons)
    then show ?case by (simp add: list_update_append)
  qed simp
  from this [of "n - 1" "[]"] show ?thesis by (cases n) (auto simp: left_deep_join_types_def simp del: upt_Suc)
qed

end
