(* ===== verification/ExtractTime.thy ===== *)
theory ExtractTime
  imports Prelude "HOL-Library.Signed_Division"
begin

text \<open>
  \<open>QueryEngine/ExtractFromTime.h\<close> and \<open>QueryEngine/ExtractFromTime.cpp\<close>: the SQL function \<open>EXTRACT\<close> on
  seconds since 1970. \<open>time_t\<close>, \<open>long\<close> and \<open>int\<close> are mathematical integers with the truncating division
  of C, which is exact as long as the year fits in an \<open>int\<close> (a signed overflow is undefined in C);
  \<open>uint32_t\<close> is reduced modulo \<open>2 ^ 32\<close> after each operation. \<open>abort\<close> is \<open>None\<close>.
\<close>

named_theorems time_consts \<open>the constants of the calendar arithmetic\<close>

section \<open>Constants and types\<close>

definition SECSPERMIN :: int where [time_consts]: "SECSPERMIN = 60"
definition MINSPERHOUR :: int where [time_consts]: "MINSPERHOUR = 60"
definition HOURSPERDAY :: int where [time_consts]: "HOURSPERDAY = 24"
definition SECSPERHOUR :: int where [time_consts]: "SECSPERHOUR = SECSPERMIN * MINSPERHOUR"
definition SECSPERDAY :: int where [time_consts]: "SECSPERDAY = SECSPERHOUR * HOURSPERDAY"
definition SECSPERQUARTERDAY :: int where [time_consts]: "SECSPERQUARTERDAY = SECSPERHOUR * 6"
definition DAYSPERWEEK :: int where [time_consts]: "DAYSPERWEEK = 7"
definition MONSPERYEAR :: nat where [time_consts]: "MONSPERYEAR = 12"
definition YEAR_BASE :: int where [time_consts]: "YEAR_BASE = 1900"
definition EPOCH_ADJUSTMENT_DAYS :: int where [time_consts]: "EPOCH_ADJUSTMENT_DAYS = 11017"
definition ADJUSTED_EPOCH_YEAR :: int where [time_consts]: "ADJUSTED_EPOCH_YEAR = 2000"
definition ADJUSTED_EPOCH_WDAY :: int where [time_consts]: "ADJUSTED_EPOCH_WDAY = 3"
definition DAYS_PER_400_YEARS :: int where [time_consts]: "DAYS_PER_400_YEARS = 146097"
definition DAYS_PER_100_YEARS :: int where [time_consts]: "DAYS_PER_100_YEARS = 36524"
definition DAYS_PER_4_YEARS :: int where [time_consts]: "DAYS_PER_4_YEARS = 3 * 365 + 366"
definition DAYS_PER_YEAR :: int where [time_consts]: "DAYS_PER_YEAR = 365"
definition DAYS_IN_JANUARY :: int where [time_consts]: "DAYS_IN_JANUARY = 31"
definition DAYS_IN_FEBRUARY :: int where [time_consts]: "DAYS_IN_FEBRUARY = 28"
definition SECONDS_PER_NON_LEAP_YEAR :: int where [time_consts]: "SECONDS_PER_NON_LEAP_YEAR = 31536000"
definition SECONDS_PER_4_YEAR_CYCLE :: int where [time_consts]: "SECONDS_PER_4_YEAR_CYCLE = 126230400"
definition SECONDS_PER_DAY :: int where [time_consts]: "SECONDS_PER_DAY = 86400"
definition EPOCH_OFFSET_YEAR_1900 :: int where [time_consts]: "EPOCH_OFFSET_YEAR_1900 = 2208988800"
definition SECONDS_FROM_JAN_1900_TO_MARCH_1900 :: int where [time_consts]: "SECONDS_FROM_JAN_1900_TO_MARCH_1900 = 5097600"
definition UINT32_MAX :: int where [time_consts]: "UINT32_MAX = 4294967295"

datatype ExtractField =
  kYEAR | kQUARTER | kMONTH | kDAY | kHOUR | kMINUTE | kSECOND | kDOW | kISODOW | kDOY | kEPOCH | kQUARTERDAY | kWEEK

record tm =
  tm_sec :: int
  tm_min :: int
  tm_hour :: int
  tm_mday :: int
  tm_mon :: int
  tm_year :: int
  tm_wday :: int
  tm_yday :: int
  tm_isdst :: int

definition u32 :: "int \<Rightarrow> int" where
  "u32 x = x mod 4294967296"

definition month_lengths :: "nat \<Rightarrow> int list" where
  "month_lengths yearleap =
     (if yearleap = 0 then [31, 28, 31, 30, 31, 30, 31, 31, 30, 31, 30, 31] else [31, 29, 31, 30, 31, 30, 31, 31, 30, 31, 30, 31])"

definition cumulative_month_epoch_starts :: "int list" where
  "cumulative_month_epoch_starts =
     [0, 2678400, 5270400, 7948800, 10540800, 13219200, 15897600, 18489600, 21168000, 23760000, 26438400, 29116800]"

definition cumulative_quarter_epoch_starts :: "int list" where
  "cumulative_quarter_epoch_starts = [0, 7776000, 15638400, 23587200]"

definition cumulative_quarter_epoch_starts_leap_year :: "int list" where
  "cumulative_quarter_epoch_starts_leap_year = [0, 7862400, 15724800, 23673600]"

section \<open>The operations\<close>

text \<open>The days since 1 March 2000 and the seconds of the day, the opening lines of four functions.\<close>

definition days_and_rem :: "int \<Rightarrow> int \<times> int" where
  "days_and_rem lcltime =
     (let days = lcltime sdiv SECSPERDAY - EPOCH_ADJUSTMENT_DAYS; rem = lcltime smod SECSPERDAY
      in if rem < 0 then (days - 1, rem + SECSPERDAY) else (days, rem))"

definition extract_hour :: "int \<Rightarrow> int" where
  "extract_hour lcltime = (let (days, rem) = days_and_rem lcltime in rem sdiv SECSPERHOUR)"

definition extract_minute :: "int \<Rightarrow> int" where
  "extract_minute lcltime = (let (days, rem) = days_and_rem lcltime; rem = rem smod SECSPERHOUR in rem sdiv SECSPERMIN)"

definition extract_second :: "int \<Rightarrow> int" where
  "extract_second lcltime = lcltime smod SECSPERMIN"

definition week_day :: "int \<Rightarrow> int" where
  "week_day days =
     (let weekday = (ADJUSTED_EPOCH_WDAY + days) smod DAYSPERWEEK in if weekday < 0 then weekday + DAYSPERWEEK else weekday)"

definition extract_dow :: "int \<Rightarrow> int" where
  "extract_dow lcltime = (let (days, rem) = days_and_rem lcltime in week_day days)"

definition extract_quarterday :: "int \<Rightarrow> int" where
  "extract_quarterday lcltime = (lcltime sdiv SECSPERQUARTERDAY) smod 4 + 1"

text \<open>The month of the fast path counted from March, with the seconds since 1 March and the year start; shared with \<open>DateTruncate\<close>.\<close>

definition month_fast :: "int \<Rightarrow> int \<times> int \<times> nat" where
  "month_fast lcltime =
     (let seconds_march_1900 = u32 (lcltime + EPOCH_OFFSET_YEAR_1900 - SECONDS_FROM_JAN_1900_TO_MARCH_1900);
          seconds_past_4year_period = seconds_march_1900 mod SECONDS_PER_4_YEAR_CYCLE;
          year_seconds = u32 ((seconds_past_4year_period div SECONDS_PER_NON_LEAP_YEAR) * SECONDS_PER_NON_LEAP_YEAR);
          year_seconds = (if seconds_past_4year_period \<ge> SECONDS_PER_4_YEAR_CYCLE - SECONDS_PER_DAY
            then u32 (year_seconds - SECONDS_PER_NON_LEAP_YEAR) else year_seconds);
          seconds_past_march = u32 (seconds_past_4year_period - year_seconds);
          month = seconds_past_march div (30 * SECONDS_PER_DAY);
          month = (if month \<le> 11 then month else 11);
          month = (if cumulative_month_epoch_starts ! nat month > seconds_past_march then u32 (month - 1) else month)
      in (seconds_march_1900, year_seconds, nat month))"

definition extract_month_fast :: "int \<Rightarrow> int" where
  "extract_month_fast lcltime = (let (s, y, month) = month_fast lcltime in (int month + 2) mod 12 + 1)"

text \<open>The year counted from 1900 of the fast paths.\<close>

definition year_fast :: "int \<Rightarrow> int" where
  "year_fast lcltime =
     (let seconds_1900 = u32 (lcltime + EPOCH_OFFSET_YEAR_1900);
          leap_years = u32 (seconds_1900 - SECONDS_FROM_JAN_1900_TO_MARCH_1900) div SECONDS_PER_4_YEAR_CYCLE
      in u32 (seconds_1900 - u32 (leap_years * SECONDS_PER_DAY)) div SECONDS_PER_NON_LEAP_YEAR)"

text \<open>The start of the year, the offsets of its quarters and the quarter; shared with \<open>DateTruncate\<close>.\<close>

definition quarter_fast :: "int \<Rightarrow> int \<times> int list \<times> nat" where
  "quarter_fast lcltime =
     (let seconds_1900 = u32 (lcltime + EPOCH_OFFSET_YEAR_1900);
          year = year_fast lcltime;
          base_year_leap_years = u32 (year - 1) div 4;
          base_year_seconds = u32 (u32 (year * SECONDS_PER_NON_LEAP_YEAR) + u32 (base_year_leap_years * SECONDS_PER_DAY));
          is_leap_year = (year mod 4 = 0 \<and> year \<noteq> 0);
          quarter_offsets = (if is_leap_year then cumulative_quarter_epoch_starts_leap_year else cumulative_quarter_epoch_starts);
          partial_year_seconds = seconds_1900 mod base_year_seconds;
          quarter = partial_year_seconds div (90 * SECONDS_PER_DAY);
          quarter = (if quarter \<le> 3 then quarter else 3);
          quarter = (if quarter_offsets ! nat quarter > partial_year_seconds then u32 (quarter - 1) else quarter)
      in (base_year_seconds, quarter_offsets, nat quarter))"

definition extract_quarter_fast :: "int \<Rightarrow> int" where
  "extract_quarter_fast lcltime = (let (b, offsets, quarter) = quarter_fast lcltime in int quarter + 1)"

definition extract_year_fast :: "int \<Rightarrow> int" where
  "extract_year_fast lcltime = year_fast lcltime + 1900"

lemma month_length_bounds:
  assumes "m < MONSPERYEAR"
  shows "28 \<le> month_lengths l ! m" and "month_lengths l ! m \<le> 31"
proof -
  have "m \<in> {0, 1, 2, 3, 4, 5, 6, 7, 8, 9, 10, 11}" using assms by (simp add: time_consts) arith
  then show "28 \<le> month_lengths l ! m" "month_lengths l ! m \<le> 31" by (auto simp: month_lengths_def)
qed

text \<open>The loop over the months; an index outside of the table is \<open>None\<close>.\<close>

function month_loop :: "int \<Rightarrow> nat \<Rightarrow> (int \<times> nat) option" where
  "month_loop days month =
     (if month \<ge> MONSPERYEAR then None
      else if days \<ge> month_lengths 1 ! month
      then month_loop (days - month_lengths 1 ! month) (if month + 1 \<ge> MONSPERYEAR then 0 else month + 1)
      else Some (days, month))"
  by pat_completeness auto

termination
proof (relation "measure (\<lambda>(days, month). nat days)")
  fix days month
  assume "\<not> MONSPERYEAR \<le> month" "month_lengths 1 ! month \<le> days"
  then show "((days - month_lengths 1 ! month, if MONSPERYEAR \<le> month + 1 then 0 else month + 1), days, month) \<in> measure (\<lambda>(days, month). nat days)"
    using month_length_bounds [of month 1] by auto
qed simp

declare month_loop.simps [simp del]

text \<open>The years of 400, 100, 4 and 1 year cycles since 1 March 2000, and the days that remain.\<close>

definition year_parts :: "int \<Rightarrow> int \<times> int \<times> int \<times> int \<times> int" where
  "year_parts days =
     (let years400 = days sdiv DAYS_PER_400_YEARS;
          days = days - years400 * DAYS_PER_400_YEARS;
          (days, years400) = (if days < 0 then (days + DAYS_PER_400_YEARS, years400 - 1) else (days, years400));
          years100 = days sdiv DAYS_PER_100_YEARS;
          years100 = (if years100 = 4 then years100 - 1 else years100);
          days = days - years100 * DAYS_PER_100_YEARS;
          years4 = days sdiv DAYS_PER_4_YEARS;
          days = days - years4 * DAYS_PER_4_YEARS;
          remainingyears = days sdiv DAYS_PER_YEAR;
          remainingyears = (if remainingyears = 4 then remainingyears - 1 else remainingyears);
          days = days - remainingyears * DAYS_PER_YEAR
      in (years400, years100, years4, remainingyears, days))"

definition gmtime_r_newlib :: "int \<Rightarrow> tm option" where
  "gmtime_r_newlib lcltime =
     (let (days, rem) = days_and_rem lcltime;
          hour = rem sdiv SECSPERHOUR;
          rem = rem smod SECSPERHOUR;
          min = rem sdiv SECSPERMIN;
          sec = rem smod SECSPERMIN;
          weekday = week_day days;
          (years400, years100, years4, remainingyears, days) = year_parts days;
          year = ADJUSTED_EPOCH_YEAR + years400 * 400 + years100 * 100 + years4 * 4 + remainingyears;
          yearleap = of_bool (remainingyears = 0 \<and> (years4 \<noteq> 0 \<or> years100 = 0));
          yearday = days + DAYS_IN_JANUARY + DAYS_IN_FEBRUARY + yearleap;
          (yearday, year) = (if yearday \<ge> DAYS_PER_YEAR + yearleap then (yearday - (DAYS_PER_YEAR + yearleap), year + 1) else (yearday, year))
      in do {
        (days, month) \<leftarrow> month_loop days 2;
        Some \<lparr>tm_sec = sec, tm_min = min, tm_hour = hour, tm_mday = days + 1, tm_mon = int month, tm_year = year - YEAR_BASE,
          tm_wday = weekday, tm_yday = yearday, tm_isdst = 0\<rparr>
      })"

text \<open>The second switch of \<open>ExtractFromTime\<close>.\<close>

definition extract_gmtime :: "ExtractField \<Rightarrow> int \<Rightarrow> int option" where
  "extract_gmtime field timeval =
     do {
       tm_struct \<leftarrow> gmtime_r_newlib timeval;
       case field of
         kYEAR \<Rightarrow> Some (1900 + tm_year tm_struct)
       | kQUARTER \<Rightarrow> Some (tm_mon tm_struct sdiv 3 + 1)
       | kMONTH \<Rightarrow> Some (tm_mon tm_struct + 1)
       | kDAY \<Rightarrow> Some (tm_mday tm_struct)
       | kDOY \<Rightarrow> Some (tm_yday tm_struct + 1)
       | kWEEK \<Rightarrow>
           (let doy = tm_yday tm_struct; dow = extract_dow timeval + 1; week = doy sdiv 7 + 1
            in Some (if dow > doy smod 7 then week else week + 1))
       | _ \<Rightarrow> None
     }"

definition in_fast_range :: "int \<Rightarrow> bool" where
  "in_fast_range timeval \<longleftrightarrow> timeval \<ge> 0 \<and> timeval \<le> UINT32_MAX - EPOCH_OFFSET_YEAR_1900"

definition ExtractFromTime :: "ExtractField \<Rightarrow> int \<Rightarrow> int option" where
  "ExtractFromTime field timeval =
     (case field of
        kEPOCH \<Rightarrow> Some timeval
      | kQUARTERDAY \<Rightarrow> Some (extract_quarterday timeval)
      | kHOUR \<Rightarrow> Some (extract_hour timeval)
      | kMINUTE \<Rightarrow> Some (extract_minute timeval)
      | kSECOND \<Rightarrow> Some (extract_second timeval)
      | kDOW \<Rightarrow> Some (extract_dow timeval)
      | kISODOW \<Rightarrow> (let dow = extract_dow timeval in Some (if dow = 0 then 7 else dow))
      | kMONTH \<Rightarrow> if in_fast_range timeval then Some (extract_month_fast timeval) else extract_gmtime field timeval
      | kQUARTER \<Rightarrow> if in_fast_range timeval then Some (extract_quarter_fast timeval) else extract_gmtime field timeval
      | kYEAR \<Rightarrow> if in_fast_range timeval then Some (extract_year_fast timeval) else extract_gmtime field timeval
      | _ \<Rightarrow> extract_gmtime field timeval)"

definition ExtractFromTimeNullable :: "ExtractField \<Rightarrow> int \<Rightarrow> int \<Rightarrow> int option" where
  "ExtractFromTimeNullable field timeval null_val =
     (if timeval = null_val then Some null_val else ExtractFromTime field timeval)"

section \<open>The proleptic Gregorian calendar\<close>

definition leap :: "int \<Rightarrow> bool" where
  "leap y \<longleftrightarrow> y mod 4 = 0 \<and> (y mod 100 \<noteq> 0 \<or> y mod 400 = 0)"

text \<open>The days from 1 January 1970 to 1 January of a year, and to the first of a month.\<close>

definition year_start :: "int \<Rightarrow> int" where
  "year_start y = 365 * (y - 1970) + (y - 1) div 4 - (y - 1) div 100 + (y - 1) div 400 - 477"

definition month_start :: "bool \<Rightarrow> nat \<Rightarrow> int" where
  "month_start l m = sum_list (take m (month_lengths (of_bool l)))"

definition civil :: "int \<Rightarrow> nat \<Rightarrow> int \<Rightarrow> int" where
  "civil y m d = year_start y + month_start (leap y) m + d - 1"

definition valid_date :: "int \<Rightarrow> nat \<Rightarrow> int \<Rightarrow> bool" where
  "valid_date y m d \<longleftrightarrow> m < 12 \<and> 1 \<le> d \<and> d \<le> month_lengths (of_bool (leap y)) ! m"

lemma year_start_Suc: "year_start (y + 1) = year_start y + (if leap y then 366 else 365)"
proof -
  have d: "y div k = (y - 1) div k + (if y mod k = 0 then 1 else 0)" if "1 < k" for k :: int
  proof -
    define q r where "q = (y - 1) div k" and "r = (y - 1) mod k"
    have y: "y = k * q + (r + 1)" and r: "0 \<le> r" "r < k" using that by (auto simp: q_def r_def algebra_simps)
    show ?thesis
    proof (cases "r + 1 < k")
      case True
      then show ?thesis using r y unfolding q_def [symmetric] by simp
    next
      case False
      then have "y = k * (q + 1)" using y r by (simp add: algebra_simps)
      then show ?thesis using that unfolding q_def [symmetric] by simp
    qed
  qed
  have c: "y mod 100 = 0" if "y mod 400 = 0" using that mod_mod_cancel [of 100 400 y] by simp
  have c': "y mod 4 = 0" if "y mod 100 = 0" using that mod_mod_cancel [of 4 100 y] by simp
  have y: "y + 1 - 1 = y" by simp
  show ?thesis
    unfolding year_start_def leap_def y d [of 4, simplified] d [of 100, simplified] d [of 400, simplified]
    using c c' by (cases "y mod 4 = 0"; cases "y mod 100 = 0"; cases "y mod 400 = 0") simp_all
qed

text \<open>The years of a cycle that begins on 1 March: the start of March, and whether the February at its end is leap.\<close>

lemma march_start:
  fixes a b c r :: int
  assumes "0 \<le> b" "b \<le> 3" "0 \<le> c" "c \<le> 24" "0 \<le> r" "r \<le> 3"
  defines "y \<equiv> 2000 + a * 400 + b * 100 + c * 4 + r"
  shows "leap y \<longleftrightarrow> r = 0 \<and> (c \<noteq> 0 \<or> b = 0)"
    and "year_start y + 59 + of_bool (leap y) = 11017 + 146097 * a + 36524 * b + 1461 * c + 365 * r"
proof -
  have e: "y = (500 + 100 * a + 25 * b + c) * 4 + r" "y = (20 + 4 * a + b) * 100 + (4 * c + r)" "y = (5 + a) * 400 + (100 * b + 4 * c + r)"
    by (simp_all add: y_def)
  have m4: "y mod 4 = r" unfolding e(1) mod_mult_self3 using assms(1-6) by simp
  have m100: "y mod 100 = 4 * c + r" unfolding e(2) mod_mult_self3 using assms(1-6) by simp
  have m400: "y mod 400 = 100 * b + 4 * c + r" unfolding e(3) mod_mult_self3 using assms(1-6) by simp
  show l: "leap y \<longleftrightarrow> r = 0 \<and> (c \<noteq> 0 \<or> b = 0)" using assms(1-6) unfolding leap_def m4 m100 m400 by auto
  have "(y - 1) div 4 = 500 + 100 * a + 25 * b + c + (r - 1) div 4"
    "(y - 1) div 100 = 20 + 4 * a + b + (4 * c + r - 1) div 100"
    "(y - 1) div 400 = 5 + a + (100 * b + 4 * c + r - 1) div 400"
  proof -
    have "y - 1 = (r - 1) + (500 + 100 * a + 25 * b + c) * 4" "y - 1 = (4 * c + r - 1) + (20 + 4 * a + b) * 100"
      "y - 1 = (100 * b + 4 * c + r - 1) + (5 + a) * 400" using e by simp_all
    note d = this
    show "(y - 1) div 4 = 500 + 100 * a + 25 * b + c + (r - 1) div 4" unfolding d(1) by (rule div_mult_self1) simp
    show "(y - 1) div 100 = 20 + 4 * a + b + (4 * c + r - 1) div 100" unfolding d(2) by (rule div_mult_self1) simp
    show "(y - 1) div 400 = 5 + a + (100 * b + 4 * c + r - 1) div 400" unfolding d(3) by (rule div_mult_self1) simp
  qed
  moreover have "(r - 1) div 4 = (if r = 0 then -1 else 0)" "(4 * c + r - 1) div 100 = (if c = 0 \<and> r = 0 then -1 else 0)"
    "(100 * b + 4 * c + r - 1) div 400 = (if b = 0 \<and> c = 0 \<and> r = 0 then -1 else 0)"
    using assms(1-6) by (auto simp: div_pos_pos_trivial div_eq_minus1)
  ultimately show "year_start y + 59 + of_bool (leap y) = 11017 + 146097 * a + 36524 * b + 1461 * c + 365 * r"
    unfolding year_start_def l using y_def by auto
qed

lemma month_loop_March:
  assumes "0 \<le> days" and "days \<le> 365"
  shows "\<exists>k m. month_loop days 2 = Some (k, m) \<and> m < 12 \<and> 0 \<le> k \<and> k < month_lengths 1 ! m \<and>
    (2 \<le> m \<and> days = month_start False m - 59 + k \<or> m < 2 \<and> days = 306 + month_start False m + k)"
proof -
  consider "days < 31" | "31 \<le> days" "days < 61" | "61 \<le> days" "days < 92" | "92 \<le> days" "days < 122" | "122 \<le> days" "days < 153"
    | "153 \<le> days" "days < 184" | "184 \<le> days" "days < 214" | "214 \<le> days" "days < 245" | "245 \<le> days" "days < 275"
    | "275 \<le> days" "days < 306" | "306 \<le> days" "days < 337" | "337 \<le> days" using assms by linarith
  then show ?thesis
    by cases (use assms in \<open>simp_all add: month_loop.simps time_consts month_lengths_def month_start_def eval_nat_numeral\<close>)
qed

section \<open>Correctness of the slow path\<close>

text \<open>Euclidean form of the truncating operations.\<close>

lemma sdiv_eq:
  assumes "0 < (k :: int)"
  shows "t sdiv k = (if t < 0 \<and> t mod k \<noteq> 0 then t div k + 1 else t div k)"
  using assms zdiv_zminus1_eq_if [of k t] by (auto simp: signed_divide_int_def sgn_if)

lemma smod_eq:
  assumes "0 < (k :: int)"
  shows "t smod k = (if t < 0 \<and> t mod k \<noteq> 0 then t mod k - k else t mod k)"
  using assms zmod_zminus1_eq_if [of t k] by (auto simp: signed_modulo_int_def sgn_if)

lemmas trunc_eq = sdiv_eq smod_eq

lemma days_and_rem_eq: "days_and_rem t = (t div 86400 - 11017, t mod 86400)"
  using pos_mod_bound [of 86400 t] pos_mod_sign [of 86400 t] by (auto simp: days_and_rem_def time_consts trunc_eq Let_def)

lemma week_day_eq: "week_day days = (3 + days) mod 7"
  using pos_mod_bound [of 7 "3 + days"] pos_mod_sign [of 7 "3 + days"] by (auto simp: week_day_def time_consts trunc_eq Let_def)

lemma sdiv_nonneg: "0 \<le> a \<Longrightarrow> 0 < b \<Longrightarrow> a sdiv b = a div (b :: int)"
  by (simp add: sdiv_eq)

lemma year_parts_spec:
  obtains a b c r k where "year_parts D = (a, b, c, r, k)" and "0 \<le> b" "b \<le> 3" "0 \<le> c" "c \<le> 24" "0 \<le> r" "r \<le> 3"
    and "0 \<le> k" "k \<le> 364 + of_bool (r = 3 \<and> (c \<noteq> 24 \<or> b = 3))" and "D = 146097 * a + 36524 * b + 1461 * c + 365 * r + k"
proof -
  define n where "n = D mod 146097"
  have n: "0 \<le> n" "n < 146097" by (simp_all add: n_def)
  define y where "y = D sdiv 146097"
  define d where "d = D - y * 146097"
  have "D - D div 146097 * 146097 = n" by (simp add: minus_div_mult_eq_mod n_def)
  then have cyc: "(if d < 0 then (d + 146097, y - 1) else (d, y)) = (n, D div 146097)"
    using n by (auto simp: d_def y_def sdiv_eq algebra_simps)
  define b where "b = (if n sdiv 36524 = 4 then n sdiv 36524 - 1 else n sdiv 36524)"
  have q: "n sdiv 36524 = n div 36524" "0 \<le> n div 36524" "n div 36524 \<le> 4" using n by (simp_all add: sdiv_nonneg)
  then have b: "0 \<le> b" "b \<le> 3" by (auto simp: b_def)
  define n1 where "n1 = n - b * 36524"
  have n1: "0 \<le> n1" "n1 < 36524 + of_bool (b = 3)" using n q unfolding n1_def b_def by auto
  define c where "c = n1 sdiv 1461"
  have c1: "c = n1 div 1461" using n1(1) by (simp add: c_def sdiv_nonneg)
  have "n1 \<le> 36524" using n1(2) by (cases "b = 3") simp_all
  then have c: "0 \<le> c" "c \<le> 24" using n1(1) unfolding c1 by linarith+
  define n2 where "n2 = n1 - c * 1461"
  have n2: "0 \<le> n2" "n2 < 1461" by (simp_all add: n2_def c1 minus_div_mult_eq_mod)
  define r where "r = (if n2 sdiv 365 = 4 then n2 sdiv 365 - 1 else n2 sdiv 365)"
  have q2: "n2 sdiv 365 = n2 div 365" "0 \<le> n2 div 365" "n2 div 365 \<le> 4" using n2 by (simp_all add: sdiv_nonneg)
  then have r: "0 \<le> r" "r \<le> 3" by (auto simp: r_def)
  have k0: "0 \<le> n2 - r * 365" "n2 - r * 365 \<le> 364 + of_bool (r = 3)" using n2 q2 unfolding r_def by auto
  have "n2 - r * 365 \<le> 364 + of_bool (b = 3)" if "r = 3" "c = 24" using n1(2) that by (simp add: n2_def)
  moreover define kk where "kk = n2 - r * 365"
  ultimately have "kk \<le> 364 + of_bool (b = 3)" if "r = 3" "c = 24" using that by simp
  then have k: "0 \<le> n2 - r * 365" "n2 - r * 365 \<le> 364 + of_bool (r = 3 \<and> (c \<noteq> 24 \<or> b = 3))"
    using k0 unfolding kk_def [symmetric] by (cases "r = 3"; cases "c = 24"; simp)+
  have "year_parts D = (D div 146097, b, c, r, n2 - r * 365)"
    unfolding year_parts_def time_consts Let_def y_def [symmetric] d_def [symmetric] cyc
    by (simp add: b_def [symmetric] n1_def [symmetric] c_def [symmetric] n2_def [symmetric]) (auto simp: r_def)
  moreover have "D = 146097 * (D div 146097) + 36524 * b + 1461 * c + 365 * r + (n2 - r * 365)"
    by (simp add: n2_def n1_def n_def minus_mult_div_eq_mod [symmetric])
  ultimately show ?thesis using that b c r k by blast
qed

lemma leap_after_cycle:
  fixes a b c :: int
  assumes "0 \<le> b" "b \<le> 3" "0 \<le> c" "c \<le> 24" "c \<noteq> 24 \<or> b = 3"
  shows "leap (2000 + a * 400 + b * 100 + c * 4 + 3 + 1)"
proof (cases "c = 24")
  case False
  then show ?thesis using march_start(1) [of b "c + 1" 0 a] assms by (simp add: algebra_simps)
next
  case True
  then show ?thesis using march_start(1) [of 0 0 0 "a + 1"] assms by (simp add: algebra_simps)
qed

lemma month_start_leap: "2 \<le> m \<Longrightarrow> m \<le> 12 \<Longrightarrow> month_start l m = month_start False m + of_bool l"
  and month_start_early: "m < 2 \<Longrightarrow> month_start l m = (if m = 0 then 0 else 31)"
proof -
  assume "2 \<le> m" "m \<le> 12"
  then have "m \<in> {2, 3, 4, 5, 6, 7, 8, 9, 10, 11, 12}" by simp arith
  then show "month_start l m = month_start False m + of_bool l" by (auto simp: month_start_def month_lengths_def eval_nat_numeral)
next
  assume "m < 2"
  then have "m = 0 \<or> m = 1" by arith
  then show "month_start l m = (if m = 0 then 0 else 31)" by (auto simp: month_start_def month_lengths_def)
qed

lemma month_start_bounds: "2 \<le> m \<Longrightarrow> m < 12 \<Longrightarrow> month_start False m + month_lengths 1 ! m \<le> 365"
proof -
  assume "2 \<le> m" "m < 12"
  then have "m \<in> {2, 3, 4, 5, 6, 7, 8, 9, 10, 11}" by simp arith
  then show ?thesis by (auto simp: month_start_def month_lengths_def eval_nat_numeral)
qed

lemma month_lengths_late: "2 \<le> m \<Longrightarrow> m < 12 \<Longrightarrow> month_lengths l ! m = month_lengths 1 ! m"
proof -
  assume "2 \<le> m" "m < 12"
  then have "m \<in> {2, 3, 4, 5, 6, 7, 8, 9, 10, 11}" by simp arith
  then show ?thesis by (auto simp: month_lengths_def)
qed

text \<open>The date of the days since 1 January 1970.\<close>

lemma gmtime_date:
  fixes t :: int
  defines "d \<equiv> t div 86400" and "s \<equiv> t mod 86400"
  obtains y m k where "gmtime_r_newlib t = Some \<lparr>tm_sec = s mod 3600 mod 60, tm_min = s mod 3600 div 60, tm_hour = s div 3600,
      tm_mday = k + 1, tm_mon = int m, tm_year = y - 1900, tm_wday = (d + 4) mod 7, tm_yday = month_start (leap y) m + k, tm_isdst = 0\<rparr>"
    and "valid_date y m (k + 1)" and "civil y m (k + 1) = d"
proof -
  obtain a b c r k where parts: "year_parts (d - 11017) = (a, b, c, r, k)"
    and bcr: "0 \<le> b" "b \<le> 3" "0 \<le> c" "c \<le> 24" "0 \<le> r" "r \<le> 3"
    and k: "0 \<le> k" "k \<le> 364 + of_bool (r = 3 \<and> (c \<noteq> 24 \<or> b = 3))" and D: "d - 11017 = 146097 * a + 36524 * b + 1461 * c + 365 * r + k"
    by (rule year_parts_spec)
  define y where "y = 2000 + a * 400 + b * 100 + c * 4 + r"
  note start = march_start [OF bcr, of a, folded y_def]
  have "k \<le> 365" using k(2) by (rule order_trans) simp
  then obtain j m where jm: "month_loop k 2 = Some (j, m)" "m < 12" "0 \<le> j" "j < month_lengths 1 ! m"
    "2 \<le> m \<and> k = month_start False m - 59 + j \<or> m < 2 \<and> k = 306 + month_start False m + j"
    using month_loop_March [OF k(1)] by blast
  have s: "0 \<le> s" "0 \<le> s mod 3600" by (simp_all add: s_def)
  have run: "gmtime_r_newlib t = Some \<lparr>tm_sec = s mod 3600 mod 60, tm_min = s mod 3600 div 60, tm_hour = s div 3600, tm_mday = j + 1, tm_mon = int m,
        tm_year = (if 306 \<le> k then y + 1 else y) - 1900, tm_wday = (d + 4) mod 7,
        tm_yday = (if 306 \<le> k then k - 306 else k + 59 + of_bool (leap y)), tm_isdst = 0\<rparr>"
  proof -
    have "(3 + (d - 11017)) mod 7 = (d + 4) mod 7" by presburger
    moreover have "s sdiv 3600 = s div 3600" "s smod 3600 = s mod 3600" "s mod 3600 sdiv 60 = s mod 3600 div 60"
      "s mod 3600 smod 60 = s mod 3600 mod 60" using s by (simp_all add: trunc_eq)
    ultimately show ?thesis
      unfolding gmtime_r_newlib_def days_and_rem_eq d_def [symmetric] s_def [symmetric]
      by (simp add: parts jm(1) week_day_eq time_consts start(1) y_def [symmetric] Let_def)
  qed
  show ?thesis
  proof (cases "2 \<le> m")
    case True
    then have "k < 306" using jm month_start_bounds [of m] by auto
    moreover have "civil y m (j + 1) = d" "k + 59 + of_bool (leap y) = month_start (leap y) m + j"
      using start(2) D jm(2,5) True month_start_leap [of m "leap y"] by (auto simp: civil_def)
    moreover have "valid_date y m (j + 1)" using jm(2-4) month_lengths_late [OF True jm(2), of 0] by (auto simp: valid_date_def)
    ultimately show ?thesis using run by (intro that [of j m y]) simp_all
  next
    case False
    then have k': "306 \<le> k" "k - 306 = month_start (leap (y + 1)) m + j" using jm month_start_early [of m] by auto
    have "civil (y + 1) m (j + 1) = d"
      using start(2) D k'(2) unfolding civil_def year_start_Suc by (auto split: if_splits)
    moreover have "valid_date (y + 1) m (j + 1)"
    proof (cases "m = 1")
      case True
      then have "j \<le> 27 + of_bool (r = 3 \<and> (c \<noteq> 24 \<or> b = 3))" using k(2) jm(5) month_start_early [of m False] by simp
      moreover have "leap (y + 1)" if "r = 3 \<and> (c \<noteq> 24 \<or> b = 3)" using leap_after_cycle [OF bcr(1-4), of a] that by (simp add: y_def)
      ultimately have "j \<le> 27 + of_bool (leap (y + 1))" by (cases "r = 3 \<and> (c \<noteq> 24 \<or> b = 3)") (auto simp: of_bool_def split: if_splits)
      then show ?thesis using True jm(3) by (auto simp: valid_date_def month_lengths_def)
    next
      case m: False
      then have "m = 0" using False by simp
      then show ?thesis using jm(3,4) by (simp add: valid_date_def month_lengths_def)
    qed
    ultimately show ?thesis using run k' by (intro that [of j m "y + 1"]) simp_all
  qed
qed


section \<open>Dates are unique\<close>

lemma year_start_mono: "y < z \<Longrightarrow> year_start (y + 1) \<le> year_start z"
proof -
  assume "y < z"
  then have "y + 1 \<le> z" by simp
  then show ?thesis
    by (induction z rule: int_ge_induct) (auto simp: year_start_Suc)
qed

lemma year_unique:
  assumes "year_start y \<le> d" "d < year_start (y + 1)" "year_start z \<le> d" "d < year_start (z + 1)"
  shows "y = z"
  using assms year_start_mono [of y z] year_start_mono [of z y] by linarith

lemma month_start_Suc: "m < 12 \<Longrightarrow> month_start l (Suc m) = month_start l m + month_lengths (of_bool l) ! m"
  by (simp add: month_start_def take_Suc_conv_app_nth month_lengths_def)

lemma month_start_mono: "m < n \<Longrightarrow> n \<le> 12 \<Longrightarrow> month_start l (Suc m) \<le> month_start l n"
proof (induction n)
  case (Suc n)
  have "month_start l n \<le> month_start l (Suc n)"
    using month_start_Suc [of n l] month_length_bounds [of n "of_bool l"] Suc.prems by (simp add: time_consts)
  then show ?case using Suc by (cases "m = n") auto
qed simp

lemma month_start_12: "month_start l 12 = (if l then 366 else 365)"
  by (simp add: month_start_def month_lengths_def eval_nat_numeral)

lemma month_start_nonneg: "m \<le> 12 \<Longrightarrow> 0 \<le> month_start l m"
  using month_start_mono [of 0 m l] month_start_Suc [of 0 l] month_length_bounds [of 0 "of_bool l"]
  by (cases m) (auto simp: month_start_def time_consts)

lemma civil_year:
  assumes "valid_date y m d"
  shows "year_start y \<le> civil y m d" and "civil y m d < year_start (y + 1)"
proof -
  have m: "m < 12" "1 \<le> d" "d \<le> month_lengths (of_bool (leap y)) ! m" using assms by (auto simp: valid_date_def)
  have "month_start (leap y) (Suc m) \<le> month_start (leap y) 12" using month_start_mono [of m 12] m(1) by simp
  then show "civil y m d < year_start (y + 1)" using m month_start_Suc [OF m(1)] unfolding civil_def year_start_Suc month_start_12 by auto
  show "year_start y \<le> civil y m d" using m month_start_nonneg [of m "leap y"] by (simp add: civil_def)
qed

lemma month_unique:
  assumes "m < 12" "month_start l m \<le> d" "d < month_start l (Suc m)" "n < 12" "month_start l n \<le> d" "d < month_start l (Suc n)"
  shows "m = n"
  using assms month_start_mono [of m n l] month_start_mono [of n m l] by (cases m n rule: linorder_cases) auto

lemma civil_unique:
  assumes "valid_date y m d" "valid_date y' m' d'" "civil y m d = civil y' m' d'"
  shows "y = y' \<and> m = m' \<and> d = d'"
proof -
  have y: "y = y'" using civil_year [OF assms(1)] civil_year [OF assms(2)] assms(3) by (intro year_unique [of y "civil y m d"]) simp_all
  moreover have m: "m = m'"
    using assms month_start_Suc [of m "leap y"] month_start_Suc [of m' "leap y"] unfolding y
    by (intro month_unique [of m "leap y'" "month_start (leap y') m + d - 1"]) (auto simp: valid_date_def civil_def)
  ultimately show ?thesis using assms(3) by (simp add: civil_def)
qed

end
