(* ===== verification/ExtractFast.thy ===== *)
theory ExtractFast
  imports ExtractTime
begin

text \<open>
  The fast paths of \<open>EXTRACT\<close> (\<open>extract_month_fast\<close>, \<open>extract_quarter_fast\<close> and \<open>extract_year_fast\<close> of
  \<open>QueryEngine/ExtractFromTime.cpp\<close>) against the calendar computation of \<open>gmtime_r_newlib\<close>, for every time
  whose seconds since 1900 fit in 32 bits.
\<close>

section \<open>The fast paths\<close>

lemma u32_id: "0 \<le> x \<Longrightarrow> x < 4294967296 \<Longrightarrow> u32 x = x"
  by (simp add: u32_def)

text \<open>The days since 1 January 1900 of a time in the range of the fast paths.\<close>

lemma fast_days:
  assumes "in_fast_range t"
  defines "s \<equiv> t + 2208988800" and "n \<equiv> t div 86400 + 25567"
  shows "u32 (t + EPOCH_OFFSET_YEAR_1900) = s" and "s div 86400 = n" and "25567 \<le> n" and "n < 49711" and "0 \<le> s" "s < 4294967296"
    and "u32 (s - 5097600) = s - 5097600"
proof -
  have t: "0 \<le> t" "t \<le> 2085978495" using assms(1) by (simp_all add: in_fast_range_def time_consts)
  then show s: "0 \<le> s" "s < 4294967296" by (simp_all add: s_def)
  show "u32 (t + EPOCH_OFFSET_YEAR_1900) = s" using s by (simp add: time_consts s_def u32_id)
  show "u32 (s - 5097600) = s - 5097600" using s t by (intro u32_id) (simp_all add: s_def)
  have "s = t + 25567 * 86400" by (simp add: s_def)
  then show "s div 86400 = n" by (simp add: n_def)
  show "25567 \<le> n" using t by (simp add: n_def)
  have "t div 86400 < 24144" using t by simp
  then show "n < 49711" by (simp add: n_def)
qed

lemma div_days: "0 < k \<Longrightarrow> (s - 86400 * j) div (86400 * k) = (s div 86400 - j) div (k :: int)"
  by (metis add.commute diff_conv_add_uminus div_mult2_eq' div_mult_self2 minus_mult_right mult_minus_right zdiv_zmult2_eq less_imp_le zero_neq_numeral)

text \<open>Between 1901 and 2100 every fourth year is leap.\<close>

lemma year_start_1900:
  assumes "1 \<le> Y" "Y \<le> 200"
  shows "year_start (1900 + Y) = 365 * Y + (Y - 1) div 4 - 25567"
proof -
  have "(1900 + Y - 1) div 100 - (1900 + Y - 1) div 400 = 15"
  proof (cases "Y \<le> 100")
    case True
    then have "(1900 + Y - 1) div 100 = 19" "(1900 + Y - 1) div 400 = 4" using assms by linarith+
    then show ?thesis by simp
  next
    case False
    then have "(1900 + Y - 1) div 100 = 20" "(1900 + Y - 1) div 400 = 5" using assms by linarith+
    then show ?thesis by simp
  qed
  moreover have "(1900 + Y - 1) div 4 = 475 + (Y - 1) div 4" by linarith
  ultimately show ?thesis by (simp add: year_start_def)
qed

lemma leap_1900:
  assumes "1 \<le> Y" "Y < 200"
  shows "leap (1900 + Y) \<longleftrightarrow> Y mod 4 = 0"
proof -
  have "(1900 + Y) mod 4 = Y mod 4" by presburger
  moreover have "(1900 + Y) mod 400 = 0" if z: "(1900 + Y) mod 100 = 0"
  proof -
    obtain k where "1900 + Y = 100 * k" using z by (meson dvdE mod_0_imp_dvd)
    then have "Y = 100" using assms by presburger
    then show ?thesis by simp
  qed
  ultimately show ?thesis unfolding leap_def by auto
qed

lemma year_fast_spec:
  assumes "in_fast_range t"
  shows "year_start (1900 + year_fast t) \<le> t div 86400 \<and> t div 86400 < year_start (1900 + year_fast t + 1) \<and> 70 \<le> year_fast t \<and> year_fast t < 137"
proof -
  define s n where "s = t + 2208988800" and "n = t div 86400 + 25567"
  note f = fast_days [OF assms, folded s_def n_def]
  define L where "L = (n - 59) div 1461"
  define p where "p = (n - 59) mod 1461"
  have p: "0 \<le> p" "p < 1461" "n = 1461 * L + p + 59" by (simp_all add: p_def L_def)
  have L: "17 \<le> L" "L \<le> 33" using f(3,4) by (simp_all add: L_def)
  have "(s - 5097600) div 126230400 = L" using div_days [of 1461 s 59] f(2) by (simp add: L_def)
  then have "year_fast t = u32 (s - u32 (L * 86400)) div 31536000"
    using f(1,7) by (simp add: year_fast_def Let_def time_consts)
  also have "\<dots> = (s - 86400 * L) div (86400 * 365)"
  proof -
    have "u32 (L * 86400) = 86400 * L" using L by (subst u32_id) simp_all
    moreover have "u32 (s - 86400 * L) = s - 86400 * L"
    proof (rule u32_id)
      have "s \<ge> 2208988800" using assms by (simp add: s_def in_fast_range_def)
      then show "0 \<le> s - 86400 * L" using L by simp
      show "s - 86400 * L < 4294967296" using f(6) L by simp
    qed
    ultimately show ?thesis by simp
  qed
  also have "\<dots> = (n - L) div 365" using div_days [of 365 s L] f(2) by simp
  finally have y: "year_fast t = (n - L) div 365" .
  define q where "q = (p + 59) div 365"
  have "n - L = 365 * (4 * L) + (p + 59)" using p(3) by simp
  then have y4: "year_fast t = 4 * L + q" unfolding y q_def by simp
  have q: "0 \<le> q" "q \<le> 4" "365 * q \<le> p + 59" "p + 59 < 365 * q + 365" using p(1,2) unfolding q_def by linarith+
  have "n - L < 50005" using f(4) L by linarith
  moreover have "25550 \<le> n - L" using f(3) L p by (cases "L = 17") simp_all
  ultimately have Y: "70 \<le> year_fast t" "year_fast t < 137" unfolding y by linarith+
  have lo: "(year_fast t - 1) div 4 = L - of_bool (q = 0)" and hi: "(year_fast t + 1 - 1) div 4 = L + of_bool (q = 4)"
    using q(1,2) unfolding y4 by (auto simp: of_bool_def)
  have "year_start (1900 + year_fast t) = 365 * year_fast t + (L - of_bool (q = 0)) - 25567"
    using year_start_1900 [of "year_fast t"] Y unfolding lo by simp
  moreover have "year_start (1900 + (year_fast t + 1)) = 365 * (year_fast t + 1) + (L + of_bool (q = 4)) - 25567"
    using year_start_1900 [of "year_fast t + 1"] Y unfolding hi by simp
  moreover have "t div 86400 = 1461 * L + p + 59 - 25567" using p(3) by (simp add: n_def)
  ultimately show ?thesis
    using q p(1,2) Y unfolding y4 by (cases "q = 0"; cases "q = 4") (simp_all add: add.assoc)
qed

text \<open>The months of the year that begins in March.\<close>

definition march_starts :: "int list" where
  "march_starts = [0, 31, 61, 92, 122, 153, 184, 214, 245, 275, 306, 337]"

lemma cumulative_march: "M < 12 \<Longrightarrow> cumulative_month_epoch_starts ! M = 86400 * march_starts ! M"
proof -
  assume "M < 12"
  then have "M \<in> {0, 1, 2, 3, 4, 5, 6, 7, 8, 9, 10, 11}" by simp arith
  then show ?thesis by (auto simp: cumulative_month_epoch_starts_def march_starts_def)
qed

lemma march_guess:
  fixes k :: int
  assumes "0 \<le> k" "k \<le> 365"
  defines "e \<equiv> (if k div 30 \<le> 11 then k div 30 else 11)"
  defines "M \<equiv> nat (if march_starts ! nat e > k then e - 1 else e)"
  shows "M < 12 \<and> march_starts ! M \<le> k \<and> (M < 11 \<longrightarrow> k < march_starts ! Suc M) \<and> nat e < 12 \<and> 0 \<le> e \<and> (march_starts ! nat e > k \<longrightarrow> 1 \<le> e)"
proof -
  have "0 \<le> k div 30" "k div 30 \<le> 12" using assms(1,2) by linarith+
  moreover have "x \<in> {0, 1, 2, 3, 4, 5, 6, 7, 8, 9, 10, 11, 12}" if "0 \<le> x" "x \<le> 12" for x :: int using that by simp presburger
  ultimately have "k div 30 \<in> {0, 1, 2, 3, 4, 5, 6, 7, 8, 9, 10, 11, 12}" by blast
  moreover have "30 * (k div 30) \<le> k" "k < 30 * (k div 30) + 30" by linarith+
  ultimately show ?thesis unfolding M_def e_def by (auto simp: march_starts_def)
qed

lemma march_month_start:
  assumes "M < 12"
  shows "month_start l ((M + 2) mod 12) = (if M < 10 then march_starts ! M + 59 + of_bool l else march_starts ! M - 306)"
    and "M < 11 \<Longrightarrow> march_starts ! Suc M = march_starts ! M + month_lengths 1 ! ((M + 2) mod 12)"
proof -
  have "M \<in> {0, 1, 2, 3, 4, 5, 6, 7, 8, 9, 10, 11}" using assms by simp arith
  then show "month_start l ((M + 2) mod 12) = (if M < 10 then march_starts ! M + 59 + of_bool l else march_starts ! M - 306)"
    "M < 11 \<Longrightarrow> march_starts ! Suc M = march_starts ! M + month_lengths 1 ! ((M + 2) mod 12)"
    by (elim insertE emptyE; simp add: march_starts_def month_start_def month_lengths_def)+
qed

lemma secs_days:
  fixes r :: int
  assumes "0 \<le> r" "r < 86400"
  shows "0 \<le> j \<Longrightarrow> (86400 * k + r) div (86400 * j) = k div j" and "86400 * m > 86400 * k + r \<longleftrightarrow> m > k"
proof -
  have "(86400 * k + r) div 86400 = k" using assms by simp
  then show "(86400 * k + r) div (86400 * j) = k div j" if "0 \<le> j" using zdiv_zmult2_eq [OF that, of "86400 * k + r" 86400] by simp
  show "86400 * m > 86400 * k + r \<longleftrightarrow> m > k" using assms by linarith
qed

lemma month_fast_spec:
  assumes "in_fast_range t"
  obtains L g k M where "month_fast t = (t + 2203891200, 31536000 * g, M)" and "M < 12" and "17 \<le> L" "L \<le> 33" "0 \<le> g" "g \<le> 3"
    and "march_starts ! M \<le> k" "M < 11 \<longrightarrow> k < march_starts ! Suc M" "0 \<le> k" "k \<le> 364 + of_bool (g = 3)"
    and "t div 86400 = 1461 * L + 365 * g + k - 25508" "(t + 2203891200) div 126230400 = L"
proof -
  define s n where "s = t + 2208988800" and "n = t div 86400 + 25567"
  note f = fast_days [OF assms, folded s_def n_def]
  define L p rem where "L = (n - 59) div 1461" and "p = (n - 59) mod 1461" and "rem = s mod 86400"
  have p: "0 \<le> p" "p < 1461" "n = 1461 * L + p + 59" and rem: "0 \<le> rem" "rem < 86400" by (simp_all add: p_def L_def rem_def)
  have L: "17 \<le> L" "L \<le> 33" using f(3,4) by (simp_all add: L_def)
  have sm: "s - 5097600 = 126230400 * L + (86400 * p + rem)"
  proof -
    have "s = 86400 * n + rem" using f(2) by (simp add: rem_def) (metis mult_div_mod_eq)
    then show ?thesis using p(3) by simp
  qed
  have c: "(s - 5097600) mod 126230400 = 86400 * p + rem" "(s - 5097600) div 126230400 = L"
    unfolding sm using p rem by simp_all
  define g where "g = (if 1460 \<le> p then 3 else p div 365)"
  have g: "0 \<le> g" "g \<le> 3" "p div 365 \<le> 4" "0 \<le> p div 365" using p(1,2) by (auto simp: g_def)
  have k: "0 \<le> p - 365 * g" "p - 365 * g \<le> 364 + of_bool (g = 3)" using p(1,2) by (auto simp: g_def of_bool_def)
  define k where "k = p - 365 * g"
  have k365: "k \<le> 365" using k(2) unfolding k_def by (rule order_trans) simp
  have ys: "(if 126230400 - 86400 \<le> 86400 * p + rem then u32 (u32 (p div 365 * 31536000) - 31536000) else u32 (p div 365 * 31536000)) = 31536000 * g"
  proof -
    have e: "u32 (p div 365 * 31536000) = p div 365 * 31536000" using g by (intro u32_id) simp_all
    have "126230400 - 86400 \<le> 86400 * p + rem \<longleftrightarrow> 1460 \<le> p" using rem by linarith
    moreover have "p div 365 = 4" if "1460 \<le> p" using that p(2) by linarith
    ultimately show ?thesis unfolding e by (auto simp: g_def u32_id)
  qed
  have yd: "(86400 * p + rem) div 31536000 = p div 365" using secs_days(1) [OF rem, where k = p and j = 365] by simp
  have past: "u32 (86400 * p + rem - 31536000 * g) = 86400 * k + rem"
    using k rem k365 unfolding k_def [symmetric] by (subst u32_id) (simp_all add: k_def algebra_simps)
  define e where "e = (if k div 30 \<le> 11 then k div 30 else 11)"
  define M where "M = nat (if march_starts ! nat e > k then e - 1 else e)"
  have "0 \<le> k" using k(1) by (simp add: k_def)
  note guess = march_guess [OF this k365, folded e_def, folded M_def]
  have kd: "(86400 * k + rem) div (30 * 86400) = k div 30" using secs_days(1) [OF rem, where k = k and j = 30] by simp
  have cmp: "cumulative_month_epoch_starts ! nat e > 86400 * k + rem \<longleftrightarrow> march_starts ! nat e > k"
    using secs_days(2) [OF rem] cumulative_march [of "nat e"] guess by simp
  have u: "nat (if march_starts ! nat e > k then u32 (e - 1) else e) = M"
  proof (cases "march_starts ! nat e > k")
    case True
    then have "0 \<le> e - 1" "e - 1 < 4294967296" using guess by (simp_all add: e_def)
    then show ?thesis using True by (simp add: M_def u32_id)
  qed (simp add: M_def)
  have s': "u32 (t + EPOCH_OFFSET_YEAR_1900 - SECONDS_FROM_JAN_1900_TO_MARCH_1900) = s - 5097600"
    using f(7) by (simp add: time_consts s_def)
  have "month_fast t = (s - 5097600, 31536000 * g, M)"
    unfolding month_fast_def Let_def s' unfolding time_consts c(1) yd ys past kd e_def [symmetric] cmp u by (rule refl)
  moreover have "t div 86400 = 1461 * L + 365 * g + k - 25508" using p(3) by (simp add: n_def k_def)
  moreover have "s - 5097600 = t + 2203891200" by (simp add: s_def)
  ultimately show ?thesis using that [of g M L k] guess L g k c(2) unfolding k_def [symmetric] by simp
qed

text \<open>The date the fast path computes, counted from March.\<close>

lemma month_fast_date:
  assumes "in_fast_range t"
  obtains y L g M j where "month_fast t = (t + 2203891200, 31536000 * g, M)" and "M < 12" and "valid_date y ((M + 2) mod 12) (j + 1)"
    and "civil y ((M + 2) mod 12) (j + 1) = t div 86400"
    and "126230400 * ((t + 2203891200) div 126230400) + 31536000 * g + cumulative_month_epoch_starts ! M - 2203891200 = 86400 * civil y ((M + 2) mod 12) 1"
proof -
  obtain L g k M where f: "month_fast t = (t + 2203891200, 31536000 * g, M)" "M < 12" "17 \<le> L" "L \<le> 33" "0 \<le> g" "g \<le> 3"
    "march_starts ! M \<le> k" "M < 11 \<longrightarrow> k < march_starts ! Suc M" "0 \<le> k" "k \<le> 364 + of_bool (g = 3)"
    "t div 86400 = 1461 * L + 365 * g + k - 25508" "(t + 2203891200) div 126230400 = L"
    by (rule month_fast_spec [OF assms])
  define Y where "Y = 4 * L + g"
  define y where "y = (if M < 10 then 1900 + Y else 1900 + Y + 1)"
  define m where "m = (M + 2) mod 12"
  have Y: "68 \<le> Y" "Y \<le> 135" "Y div 4 = L" "Y mod 4 = g" using f(3-6) by (simp_all add: Y_def)
  have leapY: "leap (1900 + Y) \<longleftrightarrow> g = 0" and leapY1: "leap (1900 + (Y + 1)) \<longleftrightarrow> g = 3"
  proof -
    show "leap (1900 + Y) \<longleftrightarrow> g = 0" using leap_1900 [of Y] Y by simp
    have "(Y + 1) mod 4 = 0 \<longleftrightarrow> g = 3" using Y(4) f(5,6) by presburger
    then show "leap (1900 + (Y + 1)) \<longleftrightarrow> g = 3" using leap_1900 [of "Y + 1"] Y by simp
  qed
  have ys: "year_start (1900 + Y) + 59 + of_bool (leap (1900 + Y)) = 1461 * L + 365 * g - 25508"
  proof -
    have "(Y - 1) div 4 + of_bool (g = 0) = L" using f(5,6) unfolding Y_def by (auto simp: of_bool_def)
    then show ?thesis using year_start_1900 [of Y] Y unfolding leapY by (simp add: Y_def)
  qed
  have start: "civil y m 1 = 1461 * L + 365 * g - 25508 + march_starts ! M"
  proof (cases "M < 10")
    case True
    then show ?thesis using ys march_month_start(1) [OF f(2), of "leap y"] by (simp add: civil_def y_def m_def)
  next
    case False
    have "year_start (1900 + Y + 1) = year_start (1900 + Y) + 365 + of_bool (leap (1900 + Y))" using year_start_Suc [of "1900 + Y"] by simp
    then show ?thesis using False ys march_month_start(1) [OF f(2), of "leap y"] by (simp add: civil_def y_def m_def)
  qed
  define j where "j = k - march_starts ! M"
  have civ: "civil y m (j + 1) = t div 86400" using start f(11) by (simp add: civil_def j_def)
  have "j + 1 \<le> month_lengths (of_bool (leap y)) ! m"
  proof (cases "M < 11")
    case True
    then have "j < month_lengths 1 ! m" using f(8) march_month_start(2) [OF f(2) True] by (simp add: j_def m_def)
    moreover have "month_lengths 1 ! m = month_lengths (of_bool (leap y)) ! m"
    proof (cases "M < 10")
      case True
      then show ?thesis using month_lengths_late [of m "of_bool (leap y)"] by (simp add: m_def)
    next
      case False
      then have "M = 10" using \<open>M < 11\<close> by simp
      then have "m = 0" by (simp add: m_def)
      then show ?thesis by (simp add: month_lengths_def)
    qed
    ultimately show ?thesis by simp
  next
    case False
    then have M: "M = 11" using f(2) by simp
    then have m: "m = 1" "y = 1900 + (Y + 1)" by (simp_all add: m_def y_def)
    have "march_starts ! M = 337" by (simp add: M march_starts_def)
    then have "j \<le> 27 + of_bool (g = 3)" using f(10) by (simp add: j_def)
    then show ?thesis unfolding m leapY1 by (cases "g = 3") (simp_all add: month_lengths_def)
  qed
  then have "valid_date y m (j + 1)" using f(7) by (simp add: valid_date_def m_def j_def)
  then show ?thesis
    using that [of g M y j] f(1,2,12) civ start cumulative_march [OF f(2)] unfolding m_def by simp
qed

lemma extract_month_fast_correct:
  assumes "in_fast_range t"
  shows "extract_gmtime kMONTH t = Some (extract_month_fast t)"
proof -
  obtain y L g M j where f: "month_fast t = (t + 2203891200, 31536000 * g, M)" "valid_date y ((M + 2) mod 12) (j + 1)"
    "civil y ((M + 2) mod 12) (j + 1) = t div 86400"
    by (rule month_fast_date [OF assms])
  obtain y' m k r where g: "gmtime_r_newlib t = Some r" "tm_mon r = int m" "valid_date y' m (k + 1)" "civil y' m (k + 1) = t div 86400"
    by (rule gmtime_date [of t]) fastforce
  have "m = (M + 2) mod 12" using civil_unique [OF g(3) f(2)] f(3) g(4) by simp
  then show ?thesis using f(1) g(1,2) by (simp add: extract_gmtime_def extract_month_fast_def zmod_int add.commute)
qed

lemma extract_year_fast_correct:
  assumes "in_fast_range t"
  shows "extract_gmtime kYEAR t = Some (extract_year_fast t)"
proof -
  obtain y m k r where g: "gmtime_r_newlib t = Some r" "tm_year r = y - 1900" "valid_date y m (k + 1)" "civil y m (k + 1) = t div 86400"
    by (rule gmtime_date [of t]) fastforce
  have "y = 1900 + year_fast t"
    using civil_year [OF g(3)] g(4) year_fast_spec [OF assms] by (intro year_unique [of y "t div 86400"]) simp_all
  then show ?thesis using g(1,2) by (simp add: extract_gmtime_def extract_year_fast_def)
qed

definition quarter_starts :: "bool \<Rightarrow> int list" where
  "quarter_starts l = (if l then [0, 91, 182, 274] else [0, 90, 181, 273])"

lemma quarter_starts_eq: "Q < 4 \<Longrightarrow> quarter_starts l ! Q = month_start l (3 * Q)"
  and cumulative_quarter: "Q < 4 \<Longrightarrow> (if l then cumulative_quarter_epoch_starts_leap_year else cumulative_quarter_epoch_starts) ! Q = 86400 * quarter_starts l ! Q"
proof -
  assume "Q < 4"
  then have "Q \<in> {0, 1, 2, 3}" by simp arith
  then show "quarter_starts l ! Q = month_start l (3 * Q)"
    "(if l then cumulative_quarter_epoch_starts_leap_year else cumulative_quarter_epoch_starts) ! Q = 86400 * quarter_starts l ! Q"
    by (auto simp: quarter_starts_def month_start_def month_lengths_def cumulative_quarter_epoch_starts_def cumulative_quarter_epoch_starts_leap_year_def)
qed

lemma quarter_guess:
  fixes k :: int
  assumes "0 \<le> k" "k \<le> 364 + of_bool l"
  defines "e \<equiv> (if k div 90 \<le> 3 then k div 90 else 3)"
  defines "Q \<equiv> nat (if quarter_starts l ! nat e > k then e - 1 else e)"
  shows "Q < 4 \<and> quarter_starts l ! Q \<le> k \<and> (Q < 3 \<longrightarrow> k < quarter_starts l ! Suc Q) \<and> nat e < 4 \<and> 0 \<le> e \<and> (quarter_starts l ! nat e > k \<longrightarrow> 1 \<le> e)"
proof -
  have "k \<le> 365" using assms(2) by (cases l) simp_all
  then have "0 \<le> k div 90" "k div 90 \<le> 4" using assms(1) by linarith+
  moreover have "x \<in> {0, 1, 2, 3, 4}" if "0 \<le> x" "x \<le> 4" for x :: int using that by simp presburger
  ultimately have "k div 90 \<in> {0, 1, 2, 3, 4}" by blast
  moreover have "90 * (k div 90) \<le> k" "k < 90 * (k div 90) + 90" by linarith+
  moreover define x where "x = k div 90"
  ultimately have "x \<in> {0, 1, 2, 3, 4}" "90 * x \<le> k" "k < 90 * x + 90" by simp_all
  then show ?thesis unfolding Q_def e_def x_def [symmetric] using assms(2) by (cases l) (auto simp: quarter_starts_def)
qed

lemma quarter_of_month:
  assumes "m < 12" "month_start l m \<le> k" "k < month_start l (Suc m)" and "Q < 4" "month_start l (3 * Q) \<le> k" "Q < 3 \<longrightarrow> k < month_start l (3 * Suc Q)"
  shows "m div 3 = Q"
proof -
  have "3 * Q \<le> m" using month_start_mono [of m "3 * Q" l] assms by (cases "m < 3 * Q") auto
  moreover have "m < 3 * Q + 3"
  proof (cases "Q < 3")
    case True
    show ?thesis
    proof (rule ccontr)
      assume "\<not> m < 3 * Q + 3"
      then have "month_start l (3 * Suc Q) \<le> month_start l m"
        using month_start_mono [of "3 * Q + 2" m l] assms(1) by (simp add: eval_nat_numeral)
      then show False using assms(2,6) True by simp
    qed
  qed (use assms(1,4) in simp)
  ultimately show ?thesis by simp
qed

lemma quarter_fast_spec:
  assumes "in_fast_range t"
  defines "Y \<equiv> year_fast t"
  obtains Q where "quarter_fast t = (86400 * (year_start (1900 + Y) + 25567),
      (if leap (1900 + Y) then cumulative_quarter_epoch_starts_leap_year else cumulative_quarter_epoch_starts), Q)"
    and "Q < 4" and "month_start (leap (1900 + Y)) (3 * Q) \<le> t div 86400 - year_start (1900 + Y)"
    and "Q < 3 \<longrightarrow> t div 86400 - year_start (1900 + Y) < month_start (leap (1900 + Y)) (3 * Suc Q)"
proof -
  define s n where "s = t + 2208988800" and "n = t div 86400 + 25567"
  note f = fast_days [OF assms(1), folded s_def n_def]
  have Y: "70 \<le> Y" "Y < 137" "year_start (1900 + Y) \<le> t div 86400" "t div 86400 < year_start (1900 + Y + 1)"
    using year_fast_spec [OF assms(1)] by (simp_all add: Y_def)
  define base where "base = year_start (1900 + Y) + 25567"
  have base: "base = 365 * Y + (Y - 1) div 4" using year_start_1900 [of Y] Y by (simp add: base_def)
  have lp: "leap (1900 + Y) \<longleftrightarrow> Y mod 4 = 0" using leap_1900 [of Y] Y by simp
  have "17 \<le> (Y - 1) div 4" "(Y - 1) div 4 \<le> 33" using Y(1,2) by linarith+
  then have u: "u32 (u32 (Y * 31536000) + u32 (u32 (Y - 1) div 4 * 86400)) = 86400 * base"
    using Y(1,2) by (simp add: u32_id base)
  define k rem where "k = n - base" and "rem = s mod 86400"
  have rem: "0 \<le> rem" "rem < 86400" by (simp_all add: rem_def)
  have k: "0 \<le> k" "k \<le> 364 + of_bool (leap (1900 + Y))"
    using Y(3,4) unfolding year_start_Suc by (auto simp: k_def n_def base_def split: if_splits)
  have k365: "k \<le> 365" using k(2) by (rule order_trans) simp
  have s: "s = 86400 * base + (86400 * k + rem)"
  proof -
    have "s = 86400 * n + rem" using f(2) by (simp add: rem_def) (metis mult_div_mod_eq)
    then show ?thesis by (simp add: k_def algebra_simps)
  qed
  have "25550 \<le> base" using Y(1) \<open>17 \<le> (Y - 1) div 4\<close> unfolding base by simp
  then have part: "s mod (86400 * base) = 86400 * k + rem"
    unfolding s using k(1) rem k365 by simp
  define e where "e = (if k div 90 \<le> 3 then k div 90 else 3)"
  define Q where "Q = nat (if quarter_starts (leap (1900 + Y)) ! nat e > k then e - 1 else e)"
  note guess = quarter_guess [OF k, folded e_def, folded Q_def]
  let ?off = "if leap (1900 + Y) then cumulative_quarter_epoch_starts_leap_year else cumulative_quarter_epoch_starts"
  have kd: "(86400 * k + rem) div (90 * 86400) = k div 90" using secs_days(1) [OF rem, where k = k and j = 90] by simp
  have cmp: "?off ! nat e > 86400 * k + rem \<longleftrightarrow> quarter_starts (leap (1900 + Y)) ! nat e > k"
    using secs_days(2) [OF rem] cumulative_quarter [of "nat e" "leap (1900 + Y)"] guess by simp
  have u': "nat (if quarter_starts (leap (1900 + Y)) ! nat e > k then u32 (e - 1) else e) = Q"
  proof (cases "quarter_starts (leap (1900 + Y)) ! nat e > k")
    case True
    then have "0 \<le> e - 1" "e - 1 < 4294967296" using guess by (simp_all add: e_def)
    then show ?thesis using True by (simp add: Q_def u32_id)
  qed (simp add: Q_def)
  have off: "(if Y mod 4 = 0 \<and> Y \<noteq> 0 then cumulative_quarter_epoch_starts_leap_year else cumulative_quarter_epoch_starts) = ?off"
    using Y(1) lp by simp
  have "quarter_fast t = (86400 * base, ?off, Q)"
    unfolding quarter_fast_def Let_def f(1) Y_def [symmetric] unfolding time_consts u part kd e_def [symmetric] off cmp u' by (rule refl)
  moreover have "k = t div 86400 - year_start (1900 + Y)" by (simp add: k_def n_def base_def)
  ultimately show ?thesis
    using that [of Q] guess quarter_starts_eq [of Q "leap (1900 + Y)"] quarter_starts_eq [of "Suc Q" "leap (1900 + Y)"]
    by (auto simp: base_def)
qed

lemma extract_quarter_fast_correct:
  assumes "in_fast_range t"
  shows "extract_gmtime kQUARTER t = Some (extract_quarter_fast t)"
proof -
  obtain y m k r where g: "gmtime_r_newlib t = Some r" "tm_mon r = int m" "valid_date y m (k + 1)" "civil y m (k + 1) = t div 86400"
    by (rule gmtime_date [of t]) fastforce
  have y: "1900 + year_fast t = y"
    using civil_year [OF g(3)] g(4) year_fast_spec [OF assms] by (intro year_unique [of _ "t div 86400"]) simp_all
  obtain Q where q: "quarter_fast t = (86400 * (year_start y + 25567),
      (if leap y then cumulative_quarter_epoch_starts_leap_year else cumulative_quarter_epoch_starts), Q)" "Q < 4"
    "month_start (leap y) (3 * Q) \<le> t div 86400 - year_start y" "Q < 3 \<longrightarrow> t div 86400 - year_start y < month_start (leap y) (3 * Suc Q)"
    by (rule quarter_fast_spec [OF assms, unfolded y])
  have "m div 3 = Q"
    using g(3,4) month_start_Suc [of m "leap y"]
    by (intro quarter_of_month [of m "leap y" "t div 86400 - year_start y", OF _ _ _ q(2-4)]) (auto simp: valid_date_def civil_def)
  then show ?thesis using g(1,2) q(1) by (simp add: extract_gmtime_def extract_quarter_fast_def sdiv_nonneg zdiv_int)
qed

text \<open>
  C22. The fast paths of \<open>EXTRACT\<close> for the year, the quarter and the month, which work on unsigned
  32-bit seconds since 1900, agree with the calendar computation on their whole range.
\<close>

theorem ExtractFromTime_fast_path:
  assumes "field \<in> {kYEAR, kQUARTER, kMONTH}"
  shows "ExtractFromTime field t = extract_gmtime field t"
  using assms extract_year_fast_correct [of t] extract_quarter_fast_correct [of t] extract_month_fast_correct [of t]
  by (auto simp: ExtractFromTime_def)

theorem ExtractFromTime_fast_path_witness: "ExtractFromTime kQUARTER 951782400 = extract_gmtime kQUARTER 951782400"
  by (rule ExtractFromTime_fast_path) simp

text \<open>
  C39. \<open>EXTRACT(SECOND)\<close> and \<open>EXTRACT(QUARTERDAY)\<close> truncate towards zero: for a time before 1970 that is
  not on a full minute the second is negative, and the quarter of the day can be below 1.
\<close>

theorem extract_second_negative:
  assumes "t < 0" and "t mod 60 \<noteq> 0"
  shows "ExtractFromTime kSECOND t = Some (t mod 60 - 60) \<and> t mod 60 - 60 < 0"
  using assms by (simp add: ExtractFromTime_def extract_second_def time_consts smod_eq)

theorem extract_second_negative_witness: "ExtractFromTime kSECOND (-1) = Some (-1)"
  using extract_second_negative [of "-1"] by simp

end
