(* ===== verification/RelAlg.thy ===== *)
theory RelAlg
  imports Rex
begin

text \<open>
  Relational algebra nodes (\<open>QueryEngine/RelAlgAbstractInterpreter.h\<close> and \<open>.cpp\<close>). The nodes are shared
  and mutable: they live in a store indexed by addresses, with their identifier, their inputs and the
  fields of their class. \<open>RelMultiJoin\<close> and \<open>RelLeftDeepInnerJoin\<close> are made by later passes of the
  planner and do not occur in the trees considered here.
\<close>

section \<open>Nodes and their store\<close>

record TableDescriptor =
  tableId :: int
  tableName :: string

text \<open>A target of a compound is one of its scalar sources (\<open>Inl\<close>) or one of its aggregates (\<open>Inr\<close>).\<close>

datatype RelKind =
  RelScan TableDescriptor "string list"
| RelProject "RexScalar list" "string list"
| RelAggregate nat "RexAgg list" "string list"
| RelJoin RexScalar JoinType
| RelFilter RexScalar
| RelCompound RexScalar "(nat + nat) list" nat "RexAgg list" "string list" bool "RexScalar list"
| RelSort "(nat \<times> bool \<times> bool) list" nat nat
| RelLogicalValues "string list"

record RelAlgNode =
  node_id :: nat
  inputs :: "node_ptr list"
  kind :: RelKind

record ra_store =
  node_at :: "node_ptr \<rightharpoonup> RelAlgNode"
  next_ptr :: node_ptr
  crt_id :: nat

definition getId :: "ra_store \<Rightarrow> node_ptr \<Rightarrow> nat option" where
  "getId h n = map_option node_id (node_at h n)"

definition getInput :: "ra_store \<Rightarrow> node_ptr \<Rightarrow> nat \<Rightarrow> node_ptr option" where
  "getInput h n i = do { nd \<leftarrow> node_at h n; if i < length (inputs nd) then Some (inputs nd ! i) else None }"

definition inputCount :: "ra_store \<Rightarrow> node_ptr \<Rightarrow> nat option" where
  "inputCount h n = map_option (\<lambda>nd. length (inputs nd)) (node_at h n)"

definition new_node :: "RelKind \<Rightarrow> node_ptr list \<Rightarrow> ra_store \<Rightarrow> node_ptr \<times> ra_store" where
  "new_node k ins h =
     (next_ptr h, h\<lparr>node_at := (node_at h)(next_ptr h \<mapsto> \<lparr>node_id = crt_id h, inputs = ins, kind = k\<rparr>),
        next_ptr := next_ptr h + 1, crt_id := crt_id h + 1\<rparr>)"

definition set_kind :: "node_ptr \<Rightarrow> RelKind \<Rightarrow> ra_store \<Rightarrow> ra_store option" where
  "set_kind n k h = do { nd \<leftarrow> node_at h n; Some (h\<lparr>node_at := (node_at h)(n \<mapsto> nd\<lparr>kind := k\<rparr>)\<rparr>) }"

section \<open>Tests of the class\<close>

definition is_scan :: "ra_store \<Rightarrow> node_ptr \<Rightarrow> bool" where
  "is_scan h n = (case node_at h n of Some nd \<Rightarrow> (case kind nd of RelScan td fs \<Rightarrow> True | _ \<Rightarrow> False) | None \<Rightarrow> False)"

definition is_join :: "ra_store \<Rightarrow> node_ptr \<Rightarrow> bool" where
  "is_join h n = (case node_at h n of Some nd \<Rightarrow> (case kind nd of RelJoin c j \<Rightarrow> True | _ \<Rightarrow> False) | None \<Rightarrow> False)"

definition is_aggregate :: "ra_store \<Rightarrow> node_ptr \<Rightarrow> bool" where
  "is_aggregate h n = (case node_at h n of Some nd \<Rightarrow> (case kind nd of RelAggregate g as fs \<Rightarrow> True | _ \<Rightarrow> False) | None \<Rightarrow> False)"

definition is_project :: "ra_store \<Rightarrow> node_ptr \<Rightarrow> bool" where
  "is_project h n = (case node_at h n of Some nd \<Rightarrow> (case kind nd of RelProject es fs \<Rightarrow> True | _ \<Rightarrow> False) | None \<Rightarrow> False)"

section \<open>Replacing an input\<close>

fun replace_first :: "'a \<Rightarrow> 'a \<Rightarrow> 'a list \<Rightarrow> 'a list" where
  "replace_first x y [] = []"
| "replace_first x y (z # zs) = (if z = x then y # zs else z # replace_first x y zs)"

definition replaceInput :: "node_ptr \<Rightarrow> node_ptr \<Rightarrow> node_ptr \<Rightarrow> ra_store \<Rightarrow> ra_store option" where
  "replaceInput n old new h =
     do {
       nd \<leftarrow> node_at h n;
       let nd = nd\<lparr>inputs := replace_first old new (inputs nd)\<rparr>;
       k \<leftarrow> (case kind nd of
           RelProject es fs \<Rightarrow> do { es \<leftarrow> rebind_list old new es; Some (RelProject es fs) }
         | RelJoin c j \<Rightarrow> if c = RexNull then Some (RelJoin c j) else do { c \<leftarrow> rebind old new c; Some (RelJoin c j) }
         | RelFilter c \<Rightarrow> do { c \<leftarrow> rebind old new c; Some (RelFilter c) }
         | RelCompound f ts g as fs a ss \<Rightarrow> do {
             ss \<leftarrow> rebind_list old new ss;
             f \<leftarrow> (if f = RexNull then Some RexNull else rebind old new f);
             Some (RelCompound f ts g as fs a ss) }
         | k \<Rightarrow> Some k);
       Some (h\<lparr>node_at := (node_at h)(n \<mapsto> nd\<lparr>kind := k\<rparr>)\<rparr>)
     }"

section \<open>Well-formed stores\<close>

text \<open>The inputs of a node are nodes, and no node is below itself.\<close>

definition input_rel :: "ra_store \<Rightarrow> (node_ptr \<times> node_ptr) set" where
  "input_rel h = {(m, n). \<exists>nd. node_at h n = Some nd \<and> m \<in> set (inputs nd)}"

fun arity_ok :: "RelKind \<Rightarrow> nat \<Rightarrow> bool" where
  "arity_ok (RelScan td fs) n \<longleftrightarrow> n = 0"
| "arity_ok (RelJoin c j) n \<longleftrightarrow> n = 2"
| "arity_ok (RelLogicalValues fs) n \<longleftrightarrow> n = 0"
| "arity_ok _ n \<longleftrightarrow> n = 1"

definition store_ok :: "ra_store \<Rightarrow> bool" where
  "store_ok h \<longleftrightarrow> (\<exists>rank :: node_ptr \<Rightarrow> nat. \<forall>n nd. node_at h n = Some nd \<longrightarrow> (\<forall>m\<in>set (inputs nd). rank m < rank n)) \<and>
     (\<forall>n nd. node_at h n = Some nd \<longrightarrow> n < next_ptr h \<and> set (inputs nd) \<subseteq> dom (node_at h) \<and> arity_ok (kind nd) (length (inputs nd)))"

lemma store_okD:
  assumes "store_ok h" "node_at h n = Some nd"
  shows "n < next_ptr h" "set (inputs nd) \<subseteq> dom (node_at h)" "arity_ok (kind nd) (length (inputs nd))"
  using assms unfolding store_ok_def by blast+

lemma store_wf: "store_ok h \<Longrightarrow> wf (input_rel h)"
proof -
  assume "store_ok h"
  then obtain rank :: "node_ptr \<Rightarrow> nat" where "\<And>n nd m. node_at h n = Some nd \<Longrightarrow> m \<in> set (inputs nd) \<Longrightarrow> rank m < rank n"
    unfolding store_ok_def by blast
  then have "input_rel h \<subseteq> measure rank" by (auto simp: input_rel_def)
  then show "wf (input_rel h)" using wf_measure wf_subset by blast
qed

lemma input_relI: "node_at h n = Some nd \<Longrightarrow> m \<in> set (inputs nd) \<Longrightarrow> (m, n) \<in> input_rel h"
  by (auto simp: input_rel_def)

text \<open>Reachability, from the node down.\<close>

lemma below_iff:
  assumes "node_at h n = Some nd"
  shows "(x, n) \<in> (input_rel h)\<^sup>* \<longleftrightarrow> x = n \<or> (\<exists>m\<in>set (inputs nd). (x, m) \<in> (input_rel h)\<^sup>*)"
proof
  assume "(x, n) \<in> (input_rel h)\<^sup>*"
  then show "x = n \<or> (\<exists>m\<in>set (inputs nd). (x, m) \<in> (input_rel h)\<^sup>*)"
    by (cases rule: rtranclE) (use assms in \<open>auto simp: input_rel_def\<close>)
qed (use assms in \<open>auto intro: rtrancl_into_rtrancl simp: input_rel_def\<close>)

end
