(* ===== verification/PushSchema.thy ===== *)
theory PushSchema
  imports RelAlg
begin

text \<open>
  The schema queries of \<open>class FilterPushDownSketch\<close> (\<open>QueryEngine/FilterPushDownSketch.cpp\<close>): for a node, the
  base tables below it with their column counts and the column names. The class keeps the schemas it
  has computed in \<open>schema_map_\<close>; the map is passed through every call, since the tree is rewritten while
  old entries are still in use.
\<close>

section \<open>Operations\<close>

type_synonym schema = "(nat \<times> nat) list \<times> string list"
type_synonym schema_cache = "node_ptr \<rightharpoonup> schema"
type_synonym column = "nat \<times> string"

partial_function (option) findBaseTableId :: "ra_store \<Rightarrow> node_ptr \<Rightarrow> nat option" where
  "findBaseTableId h n =
     do {
       nd \<leftarrow> node_at h n;
       case kind nd of
         RelScan td fs \<Rightarrow> Some (node_id nd)
       | _ \<Rightarrow> do { m \<leftarrow> getInput h n 0; findBaseTableId h m }
     }"

partial_function (option) buildSchemaFromSource :: "ra_store \<Rightarrow> node_ptr \<Rightarrow> schema option" where
  "buildSchemaFromSource h n =
     do {
       nd \<leftarrow> node_at h n;
       case kind nd of
         RelScan td fs \<Rightarrow> Some ([(node_id nd, length fs)], fs)
       | RelFilter c \<Rightarrow> do { m \<leftarrow> getInput h n 0; buildSchemaFromSource h m }
       | RelProject es fs \<Rightarrow> do { m \<leftarrow> getInput h n 0; t \<leftarrow> findBaseTableId h m; Some ([(t, length es)], fs) }
       | RelAggregate g as fs \<Rightarrow> do { m \<leftarrow> getInput h n 0; t \<leftarrow> findBaseTableId h m; Some ([(t, g + length as)], fs) }
       | RelSort c l off \<Rightarrow> do { m \<leftarrow> getInput h n 0; buildSchemaFromSource h m }
       | RelJoin c j \<Rightarrow> do {
           l \<leftarrow> getInput h n 0;
           (t_num_cols_lhs, schema_lhs) \<leftarrow> buildSchemaFromSource h l;
           r \<leftarrow> getInput h n 1;
           (t_num_cols_rhs, schema_rhs) \<leftarrow> buildSchemaFromSource h r;
           Some (t_num_cols_lhs @ t_num_cols_rhs, schema_lhs @ schema_rhs) }
       | RelCompound f ts g as fs a ss \<Rightarrow> do { m \<leftarrow> getInput h n 0; t \<leftarrow> findBaseTableId h m; Some ([(t, length ts)], fs) }
       | RelLogicalValues fs \<Rightarrow> None
     }"

definition getSchemaFromSource :: "ra_store \<Rightarrow> node_ptr \<Rightarrow> schema_cache \<Rightarrow> (schema \<times> schema_cache) option" where
  "getSchemaFromSource h n sm =
     (case sm n of
        Some s \<Rightarrow> Some (s, sm)
      | None \<Rightarrow> do { s \<leftarrow> buildSchemaFromSource h n; Some (s, sm(n \<mapsto> s)) })"

text \<open>The loop of \<open>findColumnNameByIndex\<close>; the tuple it fills is zero-initialised.\<close>

fun find_column :: "(nat \<times> nat) list \<Rightarrow> string list \<Rightarrow> nat \<Rightarrow> nat \<Rightarrow> (nat \<times> string \<times> nat) option" where
  "find_column [] names c_id num_cols_so_far = Some (0, '''', 0)"
| "find_column ((t, n) # ts) names c_id num_cols_so_far =
     (if c_id < num_cols_so_far + n then do { name \<leftarrow> list_read names c_id; Some (t, name, c_id - num_cols_so_far) }
      else find_column ts names c_id (num_cols_so_far + n))"

definition findColumnNameByIndex :: "ra_store \<Rightarrow> node_ptr \<Rightarrow> nat \<Rightarrow> schema_cache \<Rightarrow> ((nat \<times> string \<times> nat) \<times> schema_cache) option" where
  "findColumnNameByIndex h source c_id sm =
     do {
       ((t_num_cols, names), sm) \<leftarrow> getSchemaFromSource h source sm;
       if t_num_cols = [] then None else do { c_info \<leftarrow> find_column t_num_cols names c_id 0; Some (c_info, sm) }
     }"

text \<open>The loop of \<open>getColumnInfoFromScan\<close>; \<open>-1\<close> as an \<open>unsigned\<close> marks a column of another table.\<close>

fun column_of_scan :: "(nat \<times> nat) list \<Rightarrow> string list \<Rightarrow> nat \<Rightarrow> nat \<Rightarrow> nat \<Rightarrow> column option" where
  "column_of_scan [] names c_id scan_id num_cols_so_far = Some (4294967295, '''')"
| "column_of_scan ((t, n) # ts) names c_id scan_id num_cols_so_far =
     (if t = scan_id then
        if c_id < num_cols_so_far + n \<and> c_id \<ge> num_cols_so_far
        then do { name \<leftarrow> list_read names c_id; Some (c_id - num_cols_so_far, name) }
        else Some (4294967295, '''')
      else column_of_scan ts names c_id scan_id (num_cols_so_far + n))"

definition getColumnInfoFromScan :: "ra_store \<Rightarrow> node_ptr \<Rightarrow> nat \<Rightarrow> nat \<Rightarrow> schema_cache \<Rightarrow> (column \<times> schema_cache) option" where
  "getColumnInfoFromScan h source c_id scan_id sm =
     do {
       ((t_num_cols, names), sm) \<leftarrow> getSchemaFromSource h source sm;
       c_info \<leftarrow> column_of_scan t_num_cols names c_id scan_id 0;
       Some (c_info, sm)
     }"

text \<open>\<open>hasConnection\<close>: whether \<open>lhs\<close> is \<open>rhs\<close> or below it; the loop over the inputs from the \<open>i\<close>-th.\<close>

partial_function (option) hasConnection_from :: "ra_store \<Rightarrow> node_ptr \<Rightarrow> node_ptr \<Rightarrow> nat \<Rightarrow> bool option" where
  "hasConnection_from h lhs rhs i =
     do {
       nd \<leftarrow> node_at h rhs;
       if length (inputs nd) \<le> i then Some False
       else if lhs = inputs nd ! i then Some True
       else do {
         b \<leftarrow> hasConnection_from h lhs (inputs nd ! i) 0;
         if b then Some True else hasConnection_from h lhs rhs (i + 1)
       }
     }"

definition hasConnection :: "ra_store \<Rightarrow> node_ptr \<Rightarrow> node_ptr \<Rightarrow> bool option" where
  "hasConnection h lhs rhs = (if lhs = rhs then Some True else hasConnection_from h lhs rhs 0)"

section \<open>Reachability\<close>

declare findBaseTableId.simps [code] buildSchemaFromSource.simps [code] hasConnection_from.simps [code]

text \<open>\<open>hasConnection\<close> returns on every acyclic plan and decides whether the first node is below the second.\<close>

lemma hasConnection_from_correct:
  assumes "store_ok h" "node_at h n = Some nd"
  shows "hasConnection_from h x n i = Some (\<exists>m\<in>set (drop i (inputs nd)). (x, m) \<in> (input_rel h)\<^sup>*)"
  using assms(2)
proof (induction n arbitrary: nd i rule: wf_induct_rule [OF store_wf [OF assms(1)]])
  case (1 n)
  show ?case
  proof (induction "length (inputs nd) - i" arbitrary: i)
    case 0
    then show ?case using 1(2) by (subst hasConnection_from.simps) simp
  next
    case (Suc k)
    define m where "m = inputs nd ! i"
    have i: "i < length (inputs nd)" using Suc(2) by simp
    then have m: "m \<in> set (inputs nd)" "drop i (inputs nd) = m # drop (Suc i) (inputs nd)" by (simp_all add: m_def Cons_nth_drop_Suc)
    then obtain md where md: "node_at h m = Some md" using store_okD(2) [OF assms(1) 1(2)] by auto
    have below: "hasConnection_from h x m 0 = Some (\<exists>l\<in>set (inputs md). (x, l) \<in> (input_rel h)\<^sup>*)"
      using 1(1) [OF input_relI [OF 1(2) m(1)] md, of 0] by simp
    have rest: "hasConnection_from h x n (Suc i) = Some (\<exists>m\<in>set (drop (Suc i) (inputs nd)). (x, m) \<in> (input_rel h)\<^sup>*)"
      using Suc(1) [of "Suc i"] Suc(2) by simp
    have "hasConnection_from h x n i = Some (x = m \<or> (\<exists>l\<in>set (inputs md). (x, l) \<in> (input_rel h)\<^sup>*) \<or> (\<exists>m\<in>set (drop (Suc i) (inputs nd)). (x, m) \<in> (input_rel h)\<^sup>*))"
      using i by (subst hasConnection_from.simps) (simp add: 1(2) m_def [symmetric] below rest)
    then show ?case using m(2) below_iff [OF md, of x] by simp
  qed
qed

lemma hasConnection_decides:
  assumes "store_ok h" "n \<in> dom (node_at h)"
  shows "hasConnection h x n = Some ((x, n) \<in> (input_rel h)\<^sup>*)"
  using hasConnection_from_correct [OF assms(1), of n _ x 0] assms(2) below_iff [of h n _ x] by (auto simp: hasConnection_def)

end
