(* ===== verification/PushRex.thy ===== *)
theory PushRex
  imports PushSchema
begin

text \<open>
  The expression rewriting of \<open>class FilterPushDownSketch\<close> (\<open>QueryEngine/FilterPushDownSketch.cpp\<close>): the
  predicates and columns of one table are collected from the filters and projections above the joins,
  and after the push-down those expressions are rewritten for the narrower table. The vector
  \<open>cols_to_project\<close> and the map \<open>schema_map_\<close> are threaded through the calls; a failed \<open>CHECK\<close> or an
  access out of range is \<^const>\<open>None\<close> and a null result is \<open>RexNull\<close>.
\<close>

section \<open>Collecting columns\<close>

text \<open>
  \<open>std::lower_bound\<close> by the column number, then \<open>emplace\<close> unless the same entry is there; the vector is
  only ever filled by these calls and so is sorted by the column number.
\<close>

fun insert_column :: "column \<Rightarrow> column list \<Rightarrow> column list" where
  "insert_column c [] = [c]"
| "insert_column c (d # ds) = (if fst d < fst c then d # insert_column c ds else if d = c then d # ds else c # d # ds)"

definition add_column :: "ra_store \<Rightarrow> nat \<Rightarrow> node_ptr \<Rightarrow> nat \<Rightarrow> column list \<Rightarrow> schema_cache \<Rightarrow> (column list \<times> schema_cache) option" where
  "add_column h scan_id source c_id cols sm =
     do {
       (c_info, sm) \<leftarrow> getColumnInfoFromScan h source c_id scan_id sm;
       Some (if snd c_info \<noteq> '''' then insert_column c_info cols else cols, sm)
     }"

fun getProjectFromRex :: "ra_store \<Rightarrow> nat \<Rightarrow> RexScalar \<Rightarrow> column list \<Rightarrow> schema_cache \<Rightarrow> (column list \<times> schema_cache) option"
  and getProjectFromRexes :: "ra_store \<Rightarrow> nat \<Rightarrow> RexScalar list \<Rightarrow> column list \<Rightarrow> schema_cache \<Rightarrow> (column list \<times> schema_cache) option"
  and getProjectFromBranches :: "ra_store \<Rightarrow> nat \<Rightarrow> RexBranch list \<Rightarrow> column list \<Rightarrow> schema_cache \<Rightarrow> (column list \<times> schema_cache) option" where
  "getProjectFromRex h scan_id (RexInput s i) cols sm = add_column h scan_id s i cols sm"
| "getProjectFromRex h scan_id (RexOperator op es ti) cols sm = getProjectFromRexes h scan_id es cols sm"
| "getProjectFromRex h scan_id (RexFunctionOperator name es ti) cols sm = getProjectFromRexes h scan_id es cols sm"
| "getProjectFromRex h scan_id (RexCase bs e) cols sm =
     do { (cols, sm) \<leftarrow> getProjectFromBranches h scan_id bs cols sm; getProjectFromRex h scan_id e cols sm }"
| "getProjectFromRex h scan_id (RexLiteral l) cols sm = Some (cols, sm)"
| "getProjectFromRex h scan_id (RexRef i) cols sm = Some (cols, sm)"
| "getProjectFromRex h scan_id (RexSubQuery q) cols sm = Some (cols, sm)"
| "getProjectFromRex h scan_id RexNull cols sm = Some (cols, sm)"
| "getProjectFromRexes h scan_id [] cols sm = Some (cols, sm)"
| "getProjectFromRexes h scan_id (e # es) cols sm =
     do { (cols, sm) \<leftarrow> getProjectFromRex h scan_id e cols sm; getProjectFromRexes h scan_id es cols sm }"
| "getProjectFromBranches h scan_id [] cols sm = Some (cols, sm)"
| "getProjectFromBranches h scan_id (When w t # bs) cols sm =
     do {
       (cols, sm) \<leftarrow> getProjectFromRex h scan_id w cols sm;
       (cols, sm) \<leftarrow> getProjectFromRex h scan_id t cols sm;
       getProjectFromBranches h scan_id bs cols sm
     }"

section \<open>The predicate of a table\<close>

fun findFilterAndProjectFromFuncOper ::
    "ra_store \<Rightarrow> node_ptr \<Rightarrow> nat \<Rightarrow> RexScalar \<Rightarrow> column list \<Rightarrow> schema_cache \<Rightarrow> (RexScalar \<times> column list \<times> schema_cache) option"
  and func_operands ::
    "ra_store \<Rightarrow> node_ptr \<Rightarrow> nat \<Rightarrow> RexScalar list \<Rightarrow> column list \<Rightarrow> schema_cache \<Rightarrow> (RexScalar list \<times> column list \<times> schema_cache) option" where
  "findFilterAndProjectFromFuncOper h scan scan_id (RexInput s i) tmp sm =
     do {
       (c_info, sm) \<leftarrow> getColumnInfoFromScan h s i scan_id sm;
       Some (if snd c_info \<noteq> '''' then (RexInput scan (fst c_info), tmp @ [c_info], sm) else (RexNull, tmp, sm))
     }"
| "findFilterAndProjectFromFuncOper h scan scan_id (RexLiteral l) tmp sm =
     do { l \<leftarrow> literal_deepCopy l; Some (RexLiteral l, tmp, sm) }"
| "findFilterAndProjectFromFuncOper h scan scan_id (RexFunctionOperator name es ti) tmp sm =
     do {
       (operands_new, tmp, sm) \<leftarrow> func_operands h scan scan_id es tmp sm;
       Some (if length operands_new \<noteq> length es then RexNull else RexFunctionOperator name operands_new ti, tmp, sm)
     }"
| "findFilterAndProjectFromFuncOper h scan scan_id _ tmp sm = None"
| "func_operands h scan scan_id [] tmp sm = Some ([], tmp, sm)"
| "func_operands h scan scan_id (e # es) tmp sm =
     do {
       (e_new, tmp, sm) \<leftarrow> findFilterAndProjectFromFuncOper h scan scan_id e tmp sm;
       (es_new, tmp, sm) \<leftarrow> func_operands h scan scan_id es tmp sm;
       Some (if e_new = RexNull then es_new else e_new # es_new, tmp, sm)
     }"

text \<open>
  The scan of the operands of an operator: whether two of them are columns of different tables, and
  the columns of the given table. A previous identifier 0 means that there is none.
\<close>

fun scan_operands :: "ra_store \<Rightarrow> nat \<Rightarrow> RexScalar list \<Rightarrow> nat \<Rightarrow> bool \<Rightarrow> column list \<Rightarrow> schema_cache \<Rightarrow> (bool \<times> column list \<times> schema_cache) option" where
  "scan_operands h scan_id [] t_id_prev joint tmp sm = Some (joint, tmp, sm)"
| "scan_operands h scan_id (RexInput s i # es) t_id_prev joint tmp sm =
     do {
       ((t_id, name, col), sm) \<leftarrow> findColumnNameByIndex h s i sm;
       (c_info, sm) \<leftarrow> getColumnInfoFromScan h s i scan_id sm;
       scan_operands h scan_id es (if t_id_prev = 0 then t_id else t_id_prev) (joint \<or> t_id_prev \<noteq> 0 \<and> t_id_prev \<noteq> t_id)
         (if snd c_info \<noteq> '''' then tmp @ [c_info] else tmp) sm
     }"
| "scan_operands h scan_id (e # es) t_id_prev joint tmp sm = scan_operands h scan_id es t_id_prev joint tmp sm"

text \<open>The result of an operator from those operands that are left.\<close>

definition rebuild_operator :: "SQLOps \<Rightarrow> RexScalar list \<Rightarrow> SQLTypeInfo \<Rightarrow> RexScalar" where
  "rebuild_operator op operands_new ti =
     (case operands_new of
        [] \<Rightarrow> RexNull
      | [e] \<Rightarrow>
          if op = kNOT \<or> op = kISNOTNULL \<or> op = kISNULL then RexOperator op [e] ti
          else if is_operator e \<or> is_case e then e
          else RexNull
      | _ \<Rightarrow> RexOperator op operands_new ti)"

function (sequential) findFilterAndProjectFromRex ::
    "ra_store \<Rightarrow> node_ptr \<Rightarrow> nat \<Rightarrow> RexScalar \<Rightarrow> column list \<Rightarrow> schema_cache \<Rightarrow> (RexScalar \<times> column list \<times> schema_cache) option"
  and find_operands ::
    "ra_store \<Rightarrow> node_ptr \<Rightarrow> nat \<Rightarrow> RexScalar list \<Rightarrow> column list \<Rightarrow> schema_cache \<Rightarrow> (RexScalar list \<times> column list \<times> schema_cache) option"
  and find_branches ::
    "ra_store \<Rightarrow> node_ptr \<Rightarrow> nat \<Rightarrow> RexBranch list \<Rightarrow> column list \<Rightarrow> schema_cache \<Rightarrow> (RexBranch list \<times> column list \<times> schema_cache) option" where
  "findFilterAndProjectFromRex h scan scan_id (RexInput s i) cols sm =
     do {
       (c_info, sm) \<leftarrow> getColumnInfoFromScan h s i scan_id sm;
       Some (if snd c_info \<noteq> '''' then RexInput scan (fst c_info) else RexNull, cols, sm)
     }"
| "findFilterAndProjectFromRex h scan scan_id (RexLiteral l) cols sm = do { l \<leftarrow> literal_deepCopy l; Some (RexLiteral l, cols, sm) }"
| "findFilterAndProjectFromRex h scan scan_id (RexFunctionOperator name es ti) cols sm =
     do {
       (operands_new, tmp, sm) \<leftarrow> func_operands h scan scan_id es [] sm;
       Some (if length operands_new \<noteq> length es then (RexNull, fold insert_column tmp cols, sm)
             else (RexFunctionOperator name operands_new ti, cols, sm))
     }"
| "findFilterAndProjectFromRex h scan scan_id (RexOperator op es ti) cols sm =
     do {
       (joint, tmp, sm) \<leftarrow> (if length es \<ge> 2 then scan_operands h scan_id es 0 False [] sm else Some (False, [], sm));
       if joint then Some (RexNull, fold insert_column tmp cols, sm)
       else do {
         (operands_new, cols, sm) \<leftarrow> find_operands h scan scan_id es cols sm;
         Some (rebuild_operator op operands_new ti, cols, sm)
       }
     }"
| "findFilterAndProjectFromRex h scan scan_id (RexCase bs e) cols sm =
     do {
       (bs_new, cols, sm) \<leftarrow> find_branches h scan scan_id bs cols sm;
       if bs_new = [] then Some (RexNull, cols, sm)
       else do {
         (e_new, cols, sm) \<leftarrow> findFilterAndProjectFromRex h scan scan_id e cols sm;
         Some (if e_new = RexNull then RexNull else RexCase bs_new e_new, cols, sm)
       }
     }"
| "findFilterAndProjectFromRex h scan scan_id (RexRef i) cols sm = Some (RexRef i, cols, sm)"
| "findFilterAndProjectFromRex h scan scan_id (RexSubQuery q) cols sm = Some (RexNull, cols, sm)"
| "findFilterAndProjectFromRex h scan scan_id RexNull cols sm = None"
| "find_operands h scan scan_id [] cols sm = Some ([], cols, sm)"
| "find_operands h scan scan_id (e # es) cols sm =
     do {
       (e_new, cols, sm) \<leftarrow> findFilterAndProjectFromRex h scan scan_id e cols sm;
       (es_new, cols, sm) \<leftarrow> find_operands h scan scan_id es cols sm;
       Some (if e_new = RexNull then es_new else e_new # es_new, cols, sm)
     }"
| "find_branches h scan scan_id [] cols sm = Some ([], cols, sm)"
| "find_branches h scan scan_id (When w t # bs) cols sm =
     do {
       (w_new, cols, sm) \<leftarrow> findFilterAndProjectFromRex h scan scan_id w cols sm;
       (t_new, cols, sm) \<leftarrow> findFilterAndProjectFromRex h scan scan_id t cols sm;
       (bs_new, cols, sm) \<leftarrow> find_branches h scan scan_id bs cols sm;
       Some (if w_new \<noteq> RexNull \<and> t_new \<noteq> RexNull then When w_new t_new # bs_new else bs_new, cols, sm)
     }"
  by pat_completeness auto
termination
  by (relation "measure (case_sum (\<lambda>(h, s, i, e, c, m). size e) (case_sum (\<lambda>(h, s, i, es, c, m). size_list size es) (\<lambda>(h, s, i, bs, c, m). size_list size bs)))")
    auto

text \<open>The loop of \<open>findFilterAndProject\<close> over the nodes from the root down to the topmost join.\<close>

fun find_from_root ::
  "ra_store \<Rightarrow> node_ptr \<Rightarrow> nat \<Rightarrow> node_ptr list \<Rightarrow> RexScalar \<Rightarrow> column list \<Rightarrow> schema_cache \<Rightarrow> (RexScalar \<times> column list \<times> schema_cache) option" where
  "find_from_root h scan scan_id [] filter_expr_new cols sm = Some (filter_expr_new, cols, sm)"
| "find_from_root h scan scan_id (n # ns) filter_expr_new cols sm =
     do {
       nd \<leftarrow> node_at h n;
       case kind nd of
         RelProject es fs \<Rightarrow> do {
           m \<leftarrow> getInput h n 0;
           (cols, sm) \<leftarrow> (if is_aggregate h m \<or> is_project h m then Some (cols, sm) else getProjectFromRexes h scan_id es cols sm);
           find_from_root h scan scan_id ns filter_expr_new cols sm }
       | RelFilter c \<Rightarrow> do {
           (filter_expr_new, cols, sm) \<leftarrow> findFilterAndProjectFromRex h scan scan_id c cols sm;
           find_from_root h scan scan_id ns filter_expr_new cols sm }
       | RelJoin c j \<Rightarrow> Some (filter_expr_new, cols, sm)
       | _ \<Rightarrow> find_from_root h scan scan_id ns filter_expr_new cols sm
     }"

definition findFilterAndProject ::
  "ra_store \<Rightarrow> node_ptr list \<Rightarrow> nat \<Rightarrow> column list \<Rightarrow> schema_cache \<Rightarrow> (RexScalar \<times> column list \<times> schema_cache) option" where
  "findFilterAndProject h nodes scan_idx cols sm =
     do {
       scan \<leftarrow> list_read nodes scan_idx;
       scan_id \<leftarrow> getId h scan;
       find_from_root h scan scan_id (rev nodes) RexNull cols sm
     }"

end
