(* ===== verification/PushBuild.thy ===== *)
theory PushBuild
  imports PushRex
begin

text \<open>
  Rewriting the expressions above the joins after a push-down: \<open>buildNewProjectExpr\<close>, \<open>buildNewFilterExpr\<close>,
  \<open>replaceEmptyFilterSource\<close>, \<open>removeEmptyFilter\<close> and \<open>updatePostJoinExprs\<close> of
  \<open>QueryEngine/FilterPushDownSketch.cpp\<close>. The column of an input is found with the schema of the time before
  the push-down, which is still in \<open>schema_map_\<close>.
\<close>

section \<open>The new index of a column\<close>

fun column_position :: "nat \<Rightarrow> column list \<Rightarrow> nat option" where
  "column_position c [] = None"
| "column_position c (d # ds) = (if fst d = c then Some 0 else map_option Suc (column_position c ds))"

text \<open>
  The loop over the tables of the schema: a column of the table itself has its position among the
  kept columns, or is missing there; a column of a later table moves by \<open>num_modifier\<close>; the loop may
  also end without a table.
\<close>

datatype reindex = Missing | Own nat | Other nat | NoTable

fun new_index :: "nat \<Rightarrow> column list \<Rightarrow> nat \<Rightarrow> (nat \<times> nat) list \<Rightarrow> nat \<Rightarrow> int \<Rightarrow> reindex" where
  "new_index scan_id cols c_id [] num_cols_so_far num_modifier = NoTable"
| "new_index scan_id cols c_id ((t, n) # ts) num_cols_so_far num_modifier =
     (if c_id < num_cols_so_far + n then
        if t = scan_id then
          (case column_position (c_id - num_cols_so_far) cols of None \<Rightarrow> Missing | Some p \<Rightarrow> Own (p + num_cols_so_far))
        else Other (nat (int c_id - num_modifier))
      else new_index scan_id cols c_id ts (num_cols_so_far + n) (if t = scan_id then int n - int (length cols) else num_modifier))"

text \<open>Whether the source of an input is above or below the rewritten input of \<open>node_output\<close>.\<close>

definition connected_source :: "ra_store \<Rightarrow> node_ptr \<Rightarrow> node_ptr \<Rightarrow> bool option" where
  "connected_source h new_input source =
     do { b \<leftarrow> hasConnection h new_input source; if b then Some True else hasConnection h source new_input }"

section \<open>Projections\<close>

definition project_input :: "ra_store \<Rightarrow> nat \<Rightarrow> node_ptr \<Rightarrow> nat \<Rightarrow> column list \<Rightarrow> node_ptr \<Rightarrow> nat \<Rightarrow> schema_cache \<Rightarrow> (RexScalar \<times> schema_cache) option" where
  "project_input h scan_id node_output input_idx cols source c_id sm =
     do {
       new_input \<leftarrow> getInput h node_output input_idx;
       b \<leftarrow> connected_source h new_input source;
       if \<not> b then Some (RexInput source c_id, sm)
       else do {
         ((t_num_cols, names), sm) \<leftarrow> getSchemaFromSource h source sm;
         case new_index scan_id cols c_id t_num_cols 0 0 of
           Own c_id_new \<Rightarrow> do {
             below \<leftarrow> getInput h new_input 0;
             Some (RexInput (if below = source then new_input else source) c_id_new, sm) }
         | Other c_id_new \<Rightarrow> Some (RexInput source c_id_new, sm)
         | Missing \<Rightarrow> None
         | NoTable \<Rightarrow> None
       }
     }"

function (sequential) buildNewProjectExpr ::
    "ra_store \<Rightarrow> nat \<Rightarrow> node_ptr \<Rightarrow> nat \<Rightarrow> column list \<Rightarrow> RexScalar \<Rightarrow> schema_cache \<Rightarrow> (RexScalar \<times> schema_cache) option"
  and project_operands ::
    "ra_store \<Rightarrow> nat \<Rightarrow> node_ptr \<Rightarrow> nat \<Rightarrow> column list \<Rightarrow> RexScalar list \<Rightarrow> schema_cache \<Rightarrow> (RexScalar list \<times> schema_cache) option"
  and project_branches ::
    "ra_store \<Rightarrow> nat \<Rightarrow> node_ptr \<Rightarrow> nat \<Rightarrow> column list \<Rightarrow> RexBranch list \<Rightarrow> schema_cache \<Rightarrow> (RexBranch list \<times> schema_cache) option" where
  "buildNewProjectExpr h scan_id out k cols (RexInput s i) sm = project_input h scan_id out k cols s i sm"
| "buildNewProjectExpr h scan_id out k cols (RexLiteral l) sm = do { l \<leftarrow> literal_deepCopy l; Some (RexLiteral l, sm) }"
| "buildNewProjectExpr h scan_id out k cols (RexFunctionOperator name es ti) sm =
     do { (es, sm) \<leftarrow> project_operands h scan_id out k cols es sm; Some (RexFunctionOperator name es ti, sm) }"
| "buildNewProjectExpr h scan_id out k cols (RexOperator op es ti) sm =
     do { (es, sm) \<leftarrow> project_operands h scan_id out k cols es sm; Some (RexOperator op es ti, sm) }"
| "buildNewProjectExpr h scan_id out k cols (RexCase bs e) sm =
     do {
       (bs, sm) \<leftarrow> project_branches h scan_id out k cols bs sm;
       (e, sm) \<leftarrow> buildNewProjectExpr h scan_id out k cols e sm;
       Some (RexCase bs e, sm)
     }"
| "buildNewProjectExpr h scan_id out k cols (RexRef i) sm = Some (RexRef i, sm)"
| "buildNewProjectExpr h scan_id out k cols (RexSubQuery q) sm = Some (RexNull, sm)"
| "buildNewProjectExpr h scan_id out k cols RexNull sm = None"
| "project_operands h scan_id out k cols [] sm = Some ([], sm)"
| "project_operands h scan_id out k cols (e # es) sm =
     do {
       (e, sm) \<leftarrow> buildNewProjectExpr h scan_id out k cols e sm;
       (es, sm) \<leftarrow> project_operands h scan_id out k cols es sm;
       Some (e # es, sm)
     }"
| "project_branches h scan_id out k cols [] sm = Some ([], sm)"
| "project_branches h scan_id out k cols (When w t # bs) sm =
     do {
       (w, sm) \<leftarrow> buildNewProjectExpr h scan_id out k cols w sm;
       (t, sm) \<leftarrow> buildNewProjectExpr h scan_id out k cols t sm;
       (bs, sm) \<leftarrow> project_branches h scan_id out k cols bs sm;
       Some (When w t # bs, sm)
     }"
  by pat_completeness auto
termination
  by (relation "measure (case_sum (\<lambda>(h, s, n, i, c, e, m). size e)
    (case_sum (\<lambda>(h, s, n, i, c, es, m). size_list size es) (\<lambda>(h, s, n, i, c, bs, m). size_list size bs)))") auto

section \<open>Filters\<close>

definition filter_input :: "ra_store \<Rightarrow> nat \<Rightarrow> node_ptr \<Rightarrow> nat \<Rightarrow> column list \<Rightarrow> node_ptr \<Rightarrow> nat \<Rightarrow> schema_cache \<Rightarrow> (RexScalar \<times> schema_cache) option" where
  "filter_input h scan_id node_output input_idx cols source c_id sm =
     do {
       new_input \<leftarrow> getInput h node_output input_idx;
       b \<leftarrow> connected_source h new_input source;
       if \<not> b then Some (RexInput source c_id, sm)
       else do {
         ((t_num_cols, names), sm) \<leftarrow> getSchemaFromSource h source sm;
         case new_index scan_id cols c_id t_num_cols 0 0 of
           Own c_id_new \<Rightarrow> do {
             below \<leftarrow> getInput h new_input 0;
             below_id \<leftarrow> getId h below;
             source_id \<leftarrow> getId h source;
             Some (RexInput (if below_id = source_id then new_input else source) c_id_new, sm) }
         | Other c_id_new \<Rightarrow> Some (RexInput source c_id_new, sm)
         | Missing \<Rightarrow> Some (RexNull, sm)
         | NoTable \<Rightarrow> Some (RexNull, sm)
       }
     }"

function (sequential) buildNewFilterExpr ::
    "ra_store \<Rightarrow> nat \<Rightarrow> node_ptr \<Rightarrow> nat \<Rightarrow> column list \<Rightarrow> RexScalar \<Rightarrow> schema_cache \<Rightarrow> (RexScalar \<times> schema_cache) option"
  and filter_operands ::
    "ra_store \<Rightarrow> nat \<Rightarrow> node_ptr \<Rightarrow> nat \<Rightarrow> column list \<Rightarrow> RexScalar list \<Rightarrow> schema_cache \<Rightarrow> (RexScalar list \<times> schema_cache) option"
  and filter_branches ::
    "ra_store \<Rightarrow> nat \<Rightarrow> node_ptr \<Rightarrow> nat \<Rightarrow> column list \<Rightarrow> RexBranch list \<Rightarrow> schema_cache \<Rightarrow> (RexBranch list \<times> schema_cache) option" where
  "buildNewFilterExpr h scan_id out k cols (RexInput s i) sm = filter_input h scan_id out k cols s i sm"
| "buildNewFilterExpr h scan_id out k cols (RexLiteral l) sm = do { l \<leftarrow> literal_deepCopy l; Some (RexLiteral l, sm) }"
| "buildNewFilterExpr h scan_id out k cols (RexFunctionOperator name es ti) sm =
     do {
       (operands_new, sm) \<leftarrow> filter_operands h scan_id out k cols es sm;
       Some (if length es = length operands_new then RexFunctionOperator name operands_new ti else RexNull, sm)
     }"
| "buildNewFilterExpr h scan_id out k cols (RexOperator op es ti) sm =
     do {
       (joint, tmp, sm) \<leftarrow> (if length es \<ge> 2 then scan_operands h scan_id es 0 False [] sm else Some (False, [], sm));
       if \<not> joint \<and> tmp \<noteq> [] then Some (RexNull, sm)
       else do {
         (operands_new, sm) \<leftarrow> filter_operands h scan_id out k cols es sm;
         Some (rebuild_operator op operands_new ti, sm)
       }
     }"
| "buildNewFilterExpr h scan_id out k cols (RexCase bs e) sm =
     do {
       (bs, sm) \<leftarrow> filter_branches h scan_id out k cols bs sm;
       (e, sm) \<leftarrow> buildNewFilterExpr h scan_id out k cols e sm;
       Some (RexCase bs e, sm)
     }"
| "buildNewFilterExpr h scan_id out k cols (RexRef i) sm = Some (RexRef i, sm)"
| "buildNewFilterExpr h scan_id out k cols (RexSubQuery q) sm = Some (RexNull, sm)"
| "buildNewFilterExpr h scan_id out k cols RexNull sm = None"
| "filter_operands h scan_id out k cols [] sm = Some ([], sm)"
| "filter_operands h scan_id out k cols (e # es) sm =
     do {
       (e_new, sm) \<leftarrow> buildNewFilterExpr h scan_id out k cols e sm;
       (es_new, sm) \<leftarrow> filter_operands h scan_id out k cols es sm;
       Some (if e_new = RexNull then es_new else e_new # es_new, sm)
     }"
| "filter_branches h scan_id out k cols [] sm = Some ([], sm)"
| "filter_branches h scan_id out k cols (When w t # bs) sm =
     do {
       (w, sm) \<leftarrow> buildNewFilterExpr h scan_id out k cols w sm;
       (t, sm) \<leftarrow> buildNewFilterExpr h scan_id out k cols t sm;
       (bs, sm) \<leftarrow> filter_branches h scan_id out k cols bs sm;
       Some (When w t # bs, sm)
     }"
  by pat_completeness auto
termination
  by (relation "measure (case_sum (\<lambda>(h, s, n, i, c, e, m). size e)
    (case_sum (\<lambda>(h, s, n, i, c, es, m). size_list size es) (\<lambda>(h, s, n, i, c, bs, m). size_list size bs)))") auto

section \<open>Empty filters\<close>

fun replaceEmptyFilterSource :: "node_ptr \<Rightarrow> node_ptr \<Rightarrow> RexScalar \<Rightarrow> RexScalar option"
  and replace_sources :: "node_ptr \<Rightarrow> node_ptr \<Rightarrow> RexScalar list \<Rightarrow> RexScalar list option"
  and replace_branch_sources :: "node_ptr \<Rightarrow> node_ptr \<Rightarrow> RexBranch list \<Rightarrow> RexBranch list option" where
  "replaceEmptyFilterSource old new (RexInput s i) = Some (if s = old then RexInput new i else RexNull)"
| "replaceEmptyFilterSource old new (RexLiteral l) = do { l \<leftarrow> literal_deepCopy l; Some (RexLiteral l) }"
| "replaceEmptyFilterSource old new (RexOperator op es ti) = do { es \<leftarrow> replace_sources old new es; Some (RexOperator op es ti) }"
| "replaceEmptyFilterSource old new (RexFunctionOperator name es ti) =
     do { es \<leftarrow> replace_sources old new es; Some (RexFunctionOperator name es ti) }"
| "replaceEmptyFilterSource old new (RexCase bs e) =
     do { bs \<leftarrow> replace_branch_sources old new bs; e \<leftarrow> replaceEmptyFilterSource old new e; Some (RexCase bs e) }"
| "replaceEmptyFilterSource old new (RexRef i) = Some (RexRef i)"
| "replaceEmptyFilterSource old new (RexSubQuery q) = Some RexNull"
| "replaceEmptyFilterSource old new RexNull = None"
| "replace_sources old new [] = Some []"
| "replace_sources old new (e # es) = do { e \<leftarrow> replaceEmptyFilterSource old new e; es \<leftarrow> replace_sources old new es; Some (e # es) }"
| "replace_branch_sources old new [] = Some []"
| "replace_branch_sources old new (When w t # bs) =
     do { w \<leftarrow> replaceEmptyFilterSource old new w; t \<leftarrow> replaceEmptyFilterSource old new t; bs \<leftarrow> replace_branch_sources old new bs; Some (When w t # bs) }"

text \<open>
  The search for the projection over the filter, from the last node down; \<open>nodes.erase(it_nodes.base() - 2)\<close>
  erases the node before the projection.
\<close>

definition erase_at :: "nat \<Rightarrow> 'a list \<Rightarrow> 'a list option" where
  "erase_at i xs = (if i < length xs then Some (take i xs @ drop (i + 1) xs) else None)"

fun removeEmptyFilter_from :: "nat \<Rightarrow> node_ptr \<Rightarrow> node_ptr list \<Rightarrow> ra_store \<Rightarrow> (node_ptr list \<times> ra_store) option" where
  "removeEmptyFilter_from 0 flt nodes h = Some (nodes, h)"
| "removeEmptyFilter_from (Suc p) flt nodes h =
     do {
       n \<leftarrow> list_read nodes p;
       nd \<leftarrow> node_at h n;
       case kind nd of
         RelProject es fs \<Rightarrow> do {
           m \<leftarrow> getInput h n 0;
           if m = flt then do {
             below \<leftarrow> getInput h flt 0;
             es \<leftarrow> replace_sources flt below es;
             h \<leftarrow> set_kind n (RelProject es fs) h;
             h \<leftarrow> replaceInput n m below h;
             nodes \<leftarrow> (if p = 0 then None else erase_at (p - 1) nodes);
             Some (nodes, h)
           } else removeEmptyFilter_from p flt nodes h }
       | _ \<Rightarrow> removeEmptyFilter_from p flt nodes h
     }"

definition removeEmptyFilter :: "node_ptr \<Rightarrow> node_ptr list \<Rightarrow> ra_store \<Rightarrow> (node_ptr list \<times> ra_store) option" where
  "removeEmptyFilter flt nodes h = removeEmptyFilter_from (length nodes) flt nodes h"

section \<open>The nodes above the joins\<close>

text \<open>
  The loop from the last node down to the topmost join. \<open>getAndReleaseCondition\<close> leaves a null condition
  in the filter until the new one is set. Erasing the filter from the vector invalidates the iterator
  of this loop; the model continues, as the contiguous storage does, at the position before it.
\<close>

fun update_from :: "nat \<Rightarrow> nat \<Rightarrow> nat \<Rightarrow> nat \<Rightarrow> column list \<Rightarrow> node_ptr list \<Rightarrow> ra_store \<Rightarrow> schema_cache \<Rightarrow> (node_ptr list \<times> ra_store \<times> schema_cache) option" where
  "update_from 0 scan_idx output_idx input_idx cols nodes h sm = Some (nodes, h, sm)"
| "update_from (Suc p) scan_idx output_idx input_idx cols nodes h sm =
     do {
       n \<leftarrow> list_read nodes p;
       nd \<leftarrow> node_at h n;
       case kind nd of
         RelProject es fs \<Rightarrow> do {
           m \<leftarrow> getInput h n 0;
           if is_aggregate h m \<or> is_project h m then update_from p scan_idx output_idx input_idx cols nodes h sm
           else do {
             scan \<leftarrow> list_read nodes scan_idx;
             scan_id \<leftarrow> getId h scan;
             out \<leftarrow> list_read nodes output_idx;
             (es, sm) \<leftarrow> project_operands h scan_id out input_idx cols es sm;
             h \<leftarrow> set_kind n (RelProject es fs) h;
             update_from p scan_idx output_idx input_idx cols nodes h sm } }
       | RelFilter c \<Rightarrow> do {
           h \<leftarrow> set_kind n (RelFilter RexNull) h;
           scan \<leftarrow> list_read nodes scan_idx;
           scan_id \<leftarrow> getId h scan;
           out \<leftarrow> list_read nodes output_idx;
           (rex_new, sm) \<leftarrow> buildNewFilterExpr h scan_id out input_idx cols c sm;
           if rex_new \<noteq> RexNull then do {
             h \<leftarrow> set_kind n (RelFilter rex_new) h;
             update_from p scan_idx output_idx input_idx cols nodes h sm
           } else do {
             (nodes, h) \<leftarrow> removeEmptyFilter n nodes h;
             update_from p scan_idx output_idx input_idx cols nodes h sm } }
       | RelJoin c j \<Rightarrow> Some (nodes, h, sm)
       | _ \<Rightarrow> update_from p scan_idx output_idx input_idx cols nodes h sm
     }"

definition updatePostJoinExprs ::
  "nat \<Rightarrow> nat \<Rightarrow> nat \<Rightarrow> column list \<Rightarrow> node_ptr list \<Rightarrow> ra_store \<Rightarrow> schema_cache \<Rightarrow> (node_ptr list \<times> ra_store \<times> schema_cache) option" where
  "updatePostJoinExprs scan_idx output_idx input_idx cols nodes h sm = update_from (length nodes) scan_idx output_idx input_idx cols nodes h sm"

end
