(* ===== verification/PushSem.thy ===== *)
theory PushSem
  imports PushBuild
begin

text \<open>
  A semantics of scalar expressions, and the behaviour of the column lookups of the push-down: the
  schema queries find the base table and the column that an input denotes, and the rewritten index of
  an input denotes the same column in the narrower rows. Operators and literals are interpreted by
  arbitrary functions.
\<close>

section \<open>Evaluation\<close>

record 'v sem =
  s_lit :: "literal_info \<Rightarrow> 'v"
  s_op :: "SQLOps \<Rightarrow> 'v list \<Rightarrow> 'v"
  s_fun :: "string \<Rightarrow> 'v list \<Rightarrow> 'v"
  s_ref :: "nat \<Rightarrow> 'v"
  s_query :: "node_ptr \<Rightarrow> 'v"
  s_null :: 'v
  s_true :: "'v \<Rightarrow> bool"

text \<open>The environment gives the value of a column of a node.\<close>

fun eval :: "'v sem \<Rightarrow> (node_ptr \<Rightarrow> nat \<Rightarrow> 'v) \<Rightarrow> RexScalar \<Rightarrow> 'v"
  and evals :: "'v sem \<Rightarrow> (node_ptr \<Rightarrow> nat \<Rightarrow> 'v) \<Rightarrow> RexScalar list \<Rightarrow> 'v list"
  and eval_case :: "'v sem \<Rightarrow> (node_ptr \<Rightarrow> nat \<Rightarrow> 'v) \<Rightarrow> RexBranch list \<Rightarrow> 'v \<Rightarrow> 'v" where
  "eval S env RexNull = s_null S"
| "eval S env (RexInput s i) = env s i"
| "eval S env (RexLiteral l) = s_lit S l"
| "eval S env (RexOperator op es ti) = s_op S op (evals S env es)"
| "eval S env (RexFunctionOperator name es ti) = s_fun S name (evals S env es)"
| "eval S env (RexCase bs e) = eval_case S env bs (eval S env e)"
| "eval S env (RexRef i) = s_ref S i"
| "eval S env (RexSubQuery q) = s_query S q"
| "evals S env [] = []"
| "evals S env (e # es) = eval S env e # evals S env es"
| "eval_case S env [] v = v"
| "eval_case S env (When w t # bs) v = (if s_true S (eval S env w) then eval S env t else eval_case S env bs v)"

text \<open>A missing condition holds.\<close>

definition satisfied :: "'v sem \<Rightarrow> (node_ptr \<Rightarrow> nat \<Rightarrow> 'v) \<Rightarrow> RexScalar \<Rightarrow> bool" where
  "satisfied S env e \<longleftrightarrow> e = RexNull \<or> s_true S (eval S env e)"

lemma evals_map: "evals S env es = map (eval S env) es"
  by (induction es) auto

section \<open>Columns of a schema\<close>

text \<open>The table and the column of an index.\<close>

fun locate :: "(nat \<times> nat) list \<Rightarrow> nat \<Rightarrow> (nat \<times> nat) option" where
  "locate [] i = None"
| "locate ((t, n) # ts) i = (if i < n then Some (t, i) else locate ts (i - n))"

definition schema_wf :: "schema \<Rightarrow> bool" where
  "schema_wf sc \<longleftrightarrow> distinct (map fst (fst sc)) \<and> 0 \<notin> fst ` set (fst sc) \<and> length (snd sc) = sum_list (map snd (fst sc)) \<and> '''' \<notin> set (snd sc)"

lemma locate_Some_iff: "i < sum_list (map snd ts) \<longleftrightarrow> (\<exists>t c. locate ts i = Some (t, c))"
proof (induction ts i rule: locate.induct)
  case (2 t n ts i)
  then show ?case by (cases "i < n") auto
qed simp

lemma locate_table: "locate ts i = Some (t, c) \<Longrightarrow> t \<in> fst ` set ts"
  by (induction ts i rule: locate.induct) (auto split: if_splits)

lemma locate_append: "locate (xs @ ys) i = (if i < sum_list (map snd xs) then locate xs i else locate ys (i - sum_list (map snd xs)))"
  by (induction xs i rule: locate.induct) auto

lemma find_column_locate:
  assumes "locate ts i = Some (t, c)" and "length names = k + sum_list (map snd ts)"
  shows "find_column ts names (k + i) k = Some (t, names ! (k + i), c)"
  using assms
proof (induction ts i arbitrary: k rule: locate.induct)
  case (2 u n ts i)
  show ?case
  proof (cases "i < n")
    case True
    then show ?thesis using 2 by (simp add: list_read_def)
  next
    case False
    then show ?thesis using 2(1) [of "k + n"] 2(2,3) by (simp add: add.assoc)
  qed
qed simp

lemma column_of_scan_before: "c < k \<Longrightarrow> column_of_scan ts names c scan_id k = Some (4294967295, '''')"
  by (induction ts names c scan_id k rule: column_of_scan.induct) auto

lemma column_of_scan_locate:
  assumes "locate ts i = Some (t, c)" and "length names = k + sum_list (map snd ts)" and "distinct (map fst ts)"
  shows "column_of_scan ts names (k + i) scan_id k = Some (if t = scan_id then (c, names ! (k + i)) else (4294967295, ''''))"
  using assms
proof (induction ts i arbitrary: k rule: locate.induct)
  case (2 u n ts i)
  show ?case
  proof (cases "i < n")
    case True
    then show ?thesis using 2 by (auto simp: list_read_def column_of_scan_before)
  next
    case False
    then have "u \<noteq> t" using 2(2,4) locate_table [of ts "i - n" t c] by auto
    then show ?thesis using False 2(1) [of "k + n"] 2(2-4) by (auto simp: add.assoc)
  qed
qed simp

section \<open>The new index\<close>

definition narrow :: "nat \<Rightarrow> nat \<Rightarrow> (nat \<times> nat) list \<Rightarrow> (nat \<times> nat) list" where
  "narrow scan_id w ts = map (\<lambda>(t, n). (t, if t = scan_id then w else n)) ts"

lemma narrow_simps [simp]: "narrow scan_id w [] = []" "narrow scan_id w ((t, n) # ts) = (t, if t = scan_id then w else n) # narrow scan_id w ts"
  by (simp_all add: narrow_def)

lemma narrow_absent: "scan_id \<notin> fst ` set ts \<Longrightarrow> narrow scan_id w ts = ts"
  by (induction ts) auto

lemma column_position_less: "column_position c cols = Some p \<Longrightarrow> p < length cols \<and> fst (cols ! p) = c"
  by (induction cols arbitrary: p) (auto split: if_splits)

lemma column_position_None: "column_position c cols = None \<longleftrightarrow> c \<notin> fst ` set cols"
  by (induction cols) auto

lemma new_index_after:
  assumes "locate ts i = Some (t, c)" and "scan_id \<notin> fst ` set ts" and "m \<le> int k"
  shows "new_index scan_id cols (k + i) ts k m = Other (nat (int (k + i) - m))"
  using assms
proof (induction ts i arbitrary: k rule: locate.induct)
  case (2 u n ts i)
  show ?case
  proof (cases "i < n")
    case False
    then show ?thesis using 2(1) [of "k + n"] 2(2-4) by (auto simp: add.assoc)
  qed (use 2 in auto)
qed simp

text \<open>The index found by the loop is the place of the same column in the narrowed schema.\<close>

lemma new_index_locate:
  assumes "locate ts i = Some (t, c)" and "distinct (map fst ts)"
  shows "if t = scan_id then
           (case column_position c cols of
              None \<Rightarrow> new_index scan_id cols (k + i) ts k 0 = Missing
            | Some p \<Rightarrow> \<exists>j. new_index scan_id cols (k + i) ts k 0 = Own (k + j) \<and> locate (narrow scan_id (length cols) ts) j = Some (t, p))
         else \<exists>j. new_index scan_id cols (k + i) ts k 0 = Other (k + j) \<and> locate (narrow scan_id (length cols) ts) j = Some (t, c)"
  using assms
proof (induction ts i arbitrary: k rule: locate.induct)
  case (2 u n ts i)
  consider "i < n" | "\<not> i < n" "u = scan_id" | "\<not> i < n" "u \<noteq> scan_id" by blast
  then show ?case
  proof cases
    case 1
    then have "u = t" "i = c" using 2(2) by auto
    moreover have "nat (int k + int c) = k + c" by simp
    ultimately show ?thesis using 1 column_position_less [of c cols]
      by (cases "t = scan_id"; cases "column_position c cols") (auto intro: exI [of _ c])
  next
    case 2: 2
    have loc: "locate ts (i - n) = Some (t, c)" and dist: "scan_id \<notin> fst ` set ts" using 2(1,2) "2.prems" by auto
    then have "t \<noteq> scan_id" using locate_table [OF loc] by auto
    moreover have "new_index scan_id cols (k + i) ((u, n) # ts) k 0 = Other (k + (i - n + length cols))"
      using new_index_after [OF loc dist, of "int n - int (length cols)" "k + n" cols] 2(1,2) by (simp add: add.assoc)
    moreover have "locate (narrow scan_id (length cols) ((u, n) # ts)) (i - n + length cols) = Some (t, c)"
      using loc 2(2) narrow_absent [OF dist] by simp
    ultimately show ?thesis by auto
  next
    case 3
    have loc: "locate ts (i - n) = Some (t, c)" using 3 "2.prems" by simp
    note IH = "2.IH" [OF 3(1) loc, of "k + n"]
    have step: "new_index scan_id cols (k + i) ((u, n) # ts) k 0 = new_index scan_id cols (k + n + (i - n)) ts (k + n) 0" using 3 by simp
    have shift: "locate (narrow scan_id (length cols) ((u, n) # ts)) (n + j) = locate (narrow scan_id (length cols) ts) j" for j using 3 by simp
    show ?thesis
    proof (cases "t = scan_id")
      case True
      show ?thesis
      proof (cases "column_position c cols")
        case None
        then show ?thesis using IH True "2.prems" unfolding step by simp
      next
        case (Some p)
        then obtain j where "new_index scan_id cols (k + n + (i - n)) ts (k + n) 0 = Own (k + n + j)" "locate (narrow scan_id (length cols) ts) j = Some (t, p)"
          using IH True "2.prems" by auto
        then show ?thesis unfolding step using True Some shift [of j] by (auto simp: add.assoc intro!: exI [of _ "n + j"])
      qed
    next
      case False
      then obtain j where "new_index scan_id cols (k + n + (i - n)) ts (k + n) 0 = Other (k + n + j)" "locate (narrow scan_id (length cols) ts) j = Some (t, c)"
        using IH "2.prems" by auto
      then show ?thesis unfolding step using False shift [of j] by (auto simp: add.assoc intro!: exI [of _ "n + j"])
    qed
  qed
qed simp

end
