(* ===== verification/PushFind.thy ===== *)
theory PushFind
  imports PushSem
begin

text \<open>
  What \<open>findFilterAndProjectFromRex\<close> extracts from a conjunction of predicates on single tables and
  conditions that join two tables: the conjunction of the predicates on the given table. Inside the
  locale the schemas of the sources are fixed; the cache \<open>schema_map_\<close> only ever holds them.
\<close>

section \<open>Classes of conditions\<close>

fun sources :: "RexScalar \<Rightarrow> node_ptr set"
  and sources_list :: "RexScalar list \<Rightarrow> node_ptr set"
  and sources_branches :: "RexBranch list \<Rightarrow> node_ptr set" where
  "sources RexNull = {}"
| "sources (RexInput s i) = {s}"
| "sources (RexLiteral l) = {}"
| "sources (RexOperator op es ti) = sources_list es"
| "sources (RexFunctionOperator name es ti) = sources_list es"
| "sources (RexCase bs e) = sources_branches bs \<union> sources e"
| "sources (RexRef i) = {}"
| "sources (RexSubQuery q) = {}"
| "sources_list [] = {}"
| "sources_list (e # es) = sources e \<union> sources_list es"
| "sources_branches [] = {}"
| "sources_branches (When w t # bs) = sources w \<union> sources t \<union> sources_branches bs"

text \<open>The base table and column of an input, from the schemas of the sources.\<close>

type_synonym locator = "node_ptr \<Rightarrow> nat \<Rightarrow> (nat \<times> nat) option"

definition input_of :: "(node_ptr \<Rightarrow> schema) \<Rightarrow> node_ptr set \<Rightarrow> locator" where
  "input_of sch srcs s i = (if s \<in> srcs then locate (fst (sch s)) i else None)"

text \<open>A column of the table, or a literal.\<close>

fun operand_on :: "locator \<Rightarrow> nat \<Rightarrow> RexScalar \<Rightarrow> bool" where
  "operand_on L t (RexInput s i) \<longleftrightarrow> (\<exists>c. L s i = Some (t, c))"
| "operand_on L t (RexLiteral l) \<longleftrightarrow> literal_ok l"
| "operand_on L t _ \<longleftrightarrow> False"

fun is_input :: "RexScalar \<Rightarrow> bool" where
  "is_input (RexInput s i) \<longleftrightarrow> True"
| "is_input _ \<longleftrightarrow> False"

text \<open>Comparisons of one table, and operators over them.\<close>

inductive pure_on :: "locator \<Rightarrow> nat \<Rightarrow> RexScalar \<Rightarrow> bool" for L t where
  pure_atom: "op \<notin> {kNOT, kISNULL, kISNOTNULL} \<Longrightarrow> operand_on L t a \<Longrightarrow> operand_on L t b \<Longrightarrow> is_input a \<or> is_input b \<Longrightarrow> pure_on L t (RexOperator op [a, b] ti)"
| pure_not: "pure_on L t e \<Longrightarrow> pure_on L t (RexOperator kNOT [e] ti)"
| pure_op: "2 \<le> length es \<Longrightarrow> (\<And>e. e \<in> set es \<Longrightarrow> pure_on L t e) \<Longrightarrow> pure_on L t (RexOperator op es ti)"

text \<open>Also null tests and functions of one table.\<close>

inductive simple_on :: "locator \<Rightarrow> nat \<Rightarrow> RexScalar \<Rightarrow> bool" for L t where
  simple_pure: "pure_on L t e \<Longrightarrow> simple_on L t e"
| simple_null: "op = kISNULL \<or> op = kISNOTNULL \<Longrightarrow> L s i = Some (t, c) \<Longrightarrow> simple_on L t (RexOperator op [RexInput s i] ti)"
| simple_fun: "(\<And>e. e \<in> set es \<Longrightarrow> operand_on L t e) \<Longrightarrow> \<exists>e\<in>set es. is_input e \<Longrightarrow> simple_on L t (RexFunctionOperator name es ti)"

text \<open>Conjunctions of simple predicates and of conditions over columns of two tables.\<close>

inductive conjunctive :: "locator \<Rightarrow> RexScalar \<Rightarrow> bool" for L where
  conj_simple: "simple_on L t e \<Longrightarrow> conjunctive L e"
| conj_join: "L s i = Some (t, c) \<Longrightarrow> L s' i' = Some (t', c') \<Longrightarrow> t \<noteq> t' \<Longrightarrow> conjunctive L (RexOperator op [RexInput s i, RexInput s' i'] ti)"
| conj_and: "2 \<le> length es \<Longrightarrow> (\<And>e. e \<in> set es \<Longrightarrow> conjunctive L e) \<Longrightarrow> conjunctive L (RexOperator kAND es ti)"

lemma simple_operator: "simple_on L t e \<Longrightarrow> is_operator e"
  by (induction rule: simple_on.induct) (auto elim: pure_on.cases)

lemma conjunctive_operator: "conjunctive L e \<Longrightarrow> is_operator e"
  by (induction rule: conjunctive.induct) (auto simp: simple_operator)

lemma operator_not_null: "is_operator e \<Longrightarrow> e \<noteq> RexNull"
  by (cases e) auto

lemma sources_list_set: "sources_list es = \<Union> (sources ` set es)"
  by (induction es) auto

lemma scan_operands_skip:
  "(\<And>e. e \<in> set es \<Longrightarrow> \<not> is_input e) \<Longrightarrow> scan_operands h scan_id es p j tmp sm = Some (j, tmp, sm)"
proof (induction es arbitrary: tmp)
  case (Cons e es)
  then have "\<not> is_input e" "scan_operands h scan_id es p j tmp sm = Some (j, tmp, sm)" by simp_all
  then show ?case by (cases e) auto
qed simp

lemma operator_not_input: "is_operator e \<Longrightarrow> \<not> is_input e"
  by (cases e) auto

lemma rebuild_null:
  assumes "op \<notin> {kNOT, kISNULL, kISNOTNULL}" and "fs = [] \<or> (\<exists>r. fs = [r] \<and> \<not> is_operator r \<and> \<not> is_case r)"
  shows "rebuild_operator op fs ti = RexNull"
  using assms by (auto simp: rebuild_operator_def)

lemma rebuild_many: "2 \<le> length fs \<Longrightarrow> rebuild_operator op fs ti = RexOperator op fs ti"
  by (cases fs rule: remdups_adj.cases) (auto simp: rebuild_operator_def)

section \<open>The sorted columns\<close>

lemma insert_column_set: "fst ` set (insert_column c cols) = insert (fst c) (fst ` set cols)"
  by (induction cols) auto

lemma fold_insert_column_set: "fst ` set (fold insert_column cs cols) = fst ` set cs \<union> fst ` set cols"
  by (induction cs arbitrary: cols) (auto simp: insert_column_set)

section \<open>The schemas\<close>

definition cache_ok :: "(node_ptr \<Rightarrow> schema) \<Rightarrow> node_ptr set \<Rightarrow> ra_store \<Rightarrow> schema_cache \<Rightarrow> bool" where
  "cache_ok sch srcs h sm \<longleftrightarrow>
     (\<forall>s\<in>srcs. case sm s of Some sc \<Rightarrow> sc = sch s | None \<Rightarrow> buildSchemaFromSource h s = Some (sch s))"

locale schemas =
  fixes sch :: "node_ptr \<Rightarrow> schema" and srcs :: "node_ptr set" and h :: ra_store
  assumes wf: "s \<in> srcs \<Longrightarrow> schema_wf (sch s)"
begin

text \<open>A later cache of the same run.\<close>

definition later :: "schema_cache \<Rightarrow> schema_cache \<Rightarrow> bool" where
  "later sm sm' \<longleftrightarrow> cache_ok sch srcs h sm' \<and> dom sm \<subseteq> dom sm'"

lemma later_refl: "cache_ok sch srcs h sm \<Longrightarrow> later sm sm"
  by (simp add: later_def)

lemma later_trans: "later sm sm1 \<Longrightarrow> later sm1 sm2 \<Longrightarrow> later sm sm2"
  by (auto simp: later_def)

lemma later_dom: "later sm sm' \<Longrightarrow> A \<subseteq> dom sm \<Longrightarrow> A \<subseteq> dom sm'"
  unfolding later_def by (meson order_trans)

lemma later_ok: "later sm sm' \<Longrightarrow> cache_ok sch srcs h sm'"
  by (simp add: later_def)

lemma getSchema_ok:
  assumes "s \<in> srcs" "cache_ok sch srcs h sm"
  shows "getSchemaFromSource h s sm = Some (sch s, sm(s \<mapsto> sch s)) \<and> later sm (sm(s \<mapsto> sch s))"
proof (cases "sm s")
  case None
  then show ?thesis using assms by (auto simp: getSchemaFromSource_def cache_ok_def later_def split: option.splits)
next
  case (Some sc)
  then have "sc = sch s" using assms by (auto simp: cache_ok_def)
  then have "sm(s \<mapsto> sch s) = sm" using Some by (simp add: map_upd_triv)
  then show ?thesis using Some assms(2) \<open>sc = sch s\<close> by (simp add: getSchemaFromSource_def later_def)
qed

abbreviation L :: locator where "L \<equiv> input_of sch srcs"

lemma L_D: "L s i = Some (t, c) \<Longrightarrow> s \<in> srcs \<and> locate (fst (sch s)) i = Some (t, c)"
  by (simp add: input_of_def split: if_splits)

lemma L_length: "L s i = Some (t, c) \<Longrightarrow> i < length (snd (sch s))"
  using L_D [of s i t c] wf [of s] locate_Some_iff [of i "fst (sch s)"] by (auto simp: schema_wf_def)

lemma L_nonzero: "L s i = Some (t, c) \<Longrightarrow> t \<noteq> 0"
  using L_D [of s i t c] wf [of s] locate_table [of "fst (sch s)" i t c] by (metis schema_wf_def)

lemma findColumn_ok:
  assumes "L s i = Some (t, c)" "cache_ok sch srcs h sm"
  shows "findColumnNameByIndex h s i sm = Some ((t, snd (sch s) ! i, c), sm(s \<mapsto> sch s)) \<and> later sm (sm(s \<mapsto> sch s))"
proof -
  have s: "s \<in> srcs" "locate (fst (sch s)) i = Some (t, c)" using L_D [OF assms(1)] by auto
  then have "fst (sch s) \<noteq> []" by (cases "fst (sch s)") auto
  moreover have "find_column (fst (sch s)) (snd (sch s)) i 0 = Some (t, snd (sch s) ! i, c)"
    using find_column_locate [OF s(2), of "snd (sch s)" 0] wf [OF s(1)] by (simp add: schema_wf_def)
  ultimately show ?thesis
    using getSchema_ok [OF s(1) assms(2)] by (cases "sch s") (simp add: findColumnNameByIndex_def)
qed

definition col_info :: "node_ptr \<Rightarrow> nat \<Rightarrow> nat \<Rightarrow> nat \<Rightarrow> nat \<Rightarrow> column" where
  "col_info s i t c scan_id = (if t = scan_id then (c, snd (sch s) ! i) else (4294967295, ''''))"

lemma col_info_name: "L s i = Some (t, c) \<Longrightarrow> snd (col_info s i t c scan_id) \<noteq> '''' \<longleftrightarrow> t = scan_id"
  using L_length [of s i t c] wf [of s] L_D [of s i t c] by (auto simp: col_info_def schema_wf_def in_set_conv_nth)

lemma getColumnInfo_ok:
  assumes "L s i = Some (t, c)" "cache_ok sch srcs h sm"
  shows "getColumnInfoFromScan h s i scan_id sm = Some (col_info s i t c scan_id, sm(s \<mapsto> sch s)) \<and> later sm (sm(s \<mapsto> sch s))"
proof -
  have s: "s \<in> srcs" "locate (fst (sch s)) i = Some (t, c)" using L_D [OF assms(1)] by auto
  have "column_of_scan (fst (sch s)) (snd (sch s)) i scan_id 0 = Some (col_info s i t c scan_id)"
    using column_of_scan_locate [OF s(2), of "snd (sch s)" 0] wf [OF s(1)] by (simp add: schema_wf_def col_info_def)
  then show ?thesis
    using getSchema_ok [OF s(1) assms(2)] by (cases "sch s") (simp add: getColumnInfoFromScan_def)
qed

text \<open>One input in the scan of the operands.\<close>

lemma scan_operands_input:
  assumes "L s i = Some (t, c)" "cache_ok sch srcs h sm"
  shows "scan_operands h scan_id (RexInput s i # es) p j tmp sm =
      scan_operands h scan_id es (if p = 0 then t else p) (j \<or> p \<noteq> 0 \<and> p \<noteq> t)
        (if t = scan_id then tmp @ [col_info s i t c scan_id] else tmp) (sm(s \<mapsto> sch s))"
    and "later sm (sm(s \<mapsto> sch s))"
proof -
  have f: "findColumnNameByIndex h s i sm = Some ((t, snd (sch s) ! i, c), sm(s \<mapsto> sch s)) \<and> later sm (sm(s \<mapsto> sch s))"
    by (rule findColumn_ok [OF assms])
  then have "cache_ok sch srcs h (sm(s \<mapsto> sch s))" using later_ok by blast
  note g = getColumnInfo_ok [OF assms(1) this, of scan_id]
  show "scan_operands h scan_id (RexInput s i # es) p j tmp sm =
      scan_operands h scan_id es (if p = 0 then t else p) (j \<or> p \<noteq> 0 \<and> p \<noteq> t)
        (if t = scan_id then tmp @ [col_info s i t c scan_id] else tmp) (sm(s \<mapsto> sch s))"
    using f g col_info_name [OF assms(1), of scan_id] by simp
  show "later sm (sm(s \<mapsto> sch s))" using f by simp
qed

text \<open>Operands of one table: no join, and columns exactly when it is the given table.\<close>

lemma scan_operands_on:
  assumes "\<And>e. e \<in> set es \<Longrightarrow> operand_on L t e" "cache_ok sch srcs h sm" "p = 0 \<or> p = t"
  shows "\<exists>tmp' sm'. scan_operands h scan_id es p False tmp sm = Some (False, tmp', sm') \<and> later sm sm' \<and>
    (t \<noteq> scan_id \<longrightarrow> tmp' = tmp) \<and> (t = scan_id \<and> (\<exists>e\<in>set es. is_input e) \<or> tmp \<noteq> [] \<longrightarrow> tmp' \<noteq> []) \<and> sources_list es \<subseteq> dom sm'"
  using assms
proof (induction es arbitrary: p tmp sm)
  case Nil
  then show ?case by (simp add: later_refl)
next
  case (Cons e es)
  have on: "operand_on L t e" using Cons.prems(1) by simp
  show ?case
  proof (cases e)
    case (RexInput s i)
    then obtain c where c: "L s i = Some (t, c)" using on by auto
    define tmp1 where "tmp1 = (if t = scan_id then tmp @ [col_info s i t c scan_id] else tmp)"
    define sm1 where "sm1 = sm(s \<mapsto> sch s)"
    have l1: "later sm sm1" unfolding sm1_def by (rule scan_operands_input(2) [OF c Cons.prems(2)])
    have p: "(if p = 0 then t else p) = t" "(False \<or> p \<noteq> 0 \<and> p \<noteq> t) = False" using Cons.prems(3) by auto
    have one: "scan_operands h scan_id (RexInput s i # es) p False tmp sm = scan_operands h scan_id es t False tmp1 sm1"
      by (simp only: scan_operands_input(1) [OF c Cons.prems(2)] p tmp1_def sm1_def)
    have "\<exists>tmp' sm'. scan_operands h scan_id es t False tmp1 sm1 = Some (False, tmp', sm') \<and> later sm1 sm' \<and>
        (t \<noteq> scan_id \<longrightarrow> tmp' = tmp1) \<and> (t = scan_id \<and> (\<exists>e\<in>set es. is_input e) \<or> tmp1 \<noteq> [] \<longrightarrow> tmp' \<noteq> []) \<and> sources_list es \<subseteq> dom sm'"
      using Cons.prems(1) by (intro Cons.IH later_ok [OF l1]) simp_all
    then obtain tmp' sm' where r: "scan_operands h scan_id es t False tmp1 sm1 = Some (False, tmp', sm')" "later sm1 sm'"
      "t \<noteq> scan_id \<longrightarrow> tmp' = tmp1" "t = scan_id \<and> (\<exists>e\<in>set es. is_input e) \<or> tmp1 \<noteq> [] \<longrightarrow> tmp' \<noteq> []" "sources_list es \<subseteq> dom sm'"
      by blast
    have "s \<in> dom sm'" using r(2) by (auto simp: later_def sm1_def)
    moreover have "tmp1 \<noteq> [] \<longleftrightarrow> t = scan_id \<or> tmp \<noteq> []" "t \<noteq> scan_id \<longrightarrow> tmp1 = tmp" by (simp_all add: tmp1_def)
    ultimately have "(t \<noteq> scan_id \<longrightarrow> tmp' = tmp) \<and> (t = scan_id \<and> (\<exists>x\<in>set (e # es). is_input x) \<or> tmp \<noteq> [] \<longrightarrow> tmp' \<noteq> []) \<and>
        sources_list (e # es) \<subseteq> dom sm'"
      using r(3-5) RexInput by auto
    moreover have "scan_operands h scan_id (e # es) p False tmp sm = Some (False, tmp', sm')" by (simp only: RexInput one r(1))
    ultimately show ?thesis using later_trans [OF l1 r(2)] by blast
  next
    case (RexLiteral l)
    then show ?thesis using Cons.IH [of sm p tmp] Cons.prems by auto
  qed (use on in simp_all)
qed

text \<open>A condition over two tables is a join.\<close>

lemma scan_join:
  assumes "L s i = Some (t, c)" "L s' i' = Some (t', c')" "t \<noteq> t'" "cache_ok sch srcs h sm"
  shows "later sm (sm(s \<mapsto> sch s, s' \<mapsto> sch s'))"
    and "scan_operands h scan_id [RexInput s i, RexInput s' i'] 0 False [] sm =
      Some (True, (if t' = scan_id then (if t = scan_id then [col_info s i t c scan_id] else []) @ [col_info s' i' t' c' scan_id]
                   else if t = scan_id then [col_info s i t c scan_id] else []), sm(s \<mapsto> sch s, s' \<mapsto> sch s'))"
proof -
  define tmp1 sm1 where "tmp1 = (if t = scan_id then [col_info s i t c scan_id] else [])" and "sm1 = sm(s \<mapsto> sch s)"
  have l1: "later sm sm1" using scan_operands_input(2) [OF assms(1,4)] by (simp add: sm1_def)
  have l2: "later sm1 (sm1(s' \<mapsto> sch s'))" using scan_operands_input(2) [OF assms(2) later_ok [OF l1]] by simp
  show "later sm (sm(s \<mapsto> sch s, s' \<mapsto> sch s'))" using later_trans [OF l1 l2] by (simp add: sm1_def)
  have "scan_operands h scan_id [RexInput s i, RexInput s' i'] 0 False [] sm = scan_operands h scan_id [RexInput s' i'] t False tmp1 sm1"
    unfolding scan_operands_input(1) [OF assms(1,4)] by (simp only: tmp1_def sm1_def simp_thms if_True append_Nil not_True_eq_False)
  also have "\<dots> = Some (True, if t' = scan_id then tmp1 @ [col_info s' i' t' c' scan_id] else tmp1, sm1(s' \<mapsto> sch s'))"
    unfolding scan_operands_input(1) [OF assms(2) later_ok [OF l1]] using L_nonzero [OF assms(1)] assms(3) by simp
  finally show "scan_operands h scan_id [RexInput s i, RexInput s' i'] 0 False [] sm =
      Some (True, (if t' = scan_id then (if t = scan_id then [col_info s i t c scan_id] else []) @ [col_info s' i' t' c' scan_id]
                   else if t = scan_id then [col_info s i t c scan_id] else []), sm(s \<mapsto> sch s, s' \<mapsto> sch s'))"
    by (simp add: tmp1_def sm1_def)
qed

end

section \<open>Extraction\<close>

locale extraction = schemas sch srcs h for sch :: "node_ptr \<Rightarrow> schema" and srcs :: "node_ptr set" and h :: ra_store +
  fixes S :: "'v sem" and scan :: node_ptr and scan_id :: nat and val :: "nat \<Rightarrow> nat \<Rightarrow> 'v" and env envp :: "node_ptr \<Rightarrow> nat \<Rightarrow> 'v"
  assumes env: "input_of sch srcs s i = Some (t, c) \<Longrightarrow> env s i = val t c"
    and envp: "envp scan c = val scan_id c"
    and and_law: "s_true S (s_op S kAND vs) \<longleftrightarrow> (\<forall>v\<in>set vs. s_true S v)"
begin

abbreviation find :: "RexScalar \<Rightarrow> column list \<Rightarrow> schema_cache \<Rightarrow> (RexScalar \<times> column list \<times> schema_cache) option" where
  "find \<equiv> findFilterAndProjectFromRex h scan scan_id"

lemma find_operand:
  assumes "operand_on L t e" "cache_ok sch srcs h sm"
  shows "\<exists>r sm'. find e cols sm = Some (r, cols, sm') \<and> later sm sm' \<and> sources e \<subseteq> dom sm' \<and>
    (if is_input e \<and> t \<noteq> scan_id then r = RexNull else r \<noteq> RexNull \<and> \<not> is_operator r \<and> \<not> is_case r \<and> eval S envp r = eval S env e)"
proof (cases e)
  case (RexInput s i)
  then obtain c where c: "L s i = Some (t, c)" using assms(1) by auto
  show ?thesis
    using RexInput getColumnInfo_ok [OF c assms(2), of scan_id] col_info_name [OF c, of scan_id] env [OF c] envp [of c]
    by (auto simp: col_info_def)
next
  case (RexLiteral l)
  then show ?thesis using assms by (auto simp: later_refl)
qed (use assms in simp_all)

text \<open>The loop over the operands, for a property that later columns keep.\<close>

lemma find_operands_loop:
  assumes step: "\<And>e cols sm. e \<in> set es \<Longrightarrow> cache_ok sch srcs h sm \<Longrightarrow>
      \<exists>r cols' sm'. find e cols sm = Some (r, cols', sm') \<and> G cols cols' \<and> later sm sm' \<and> sources e \<subseteq> dom sm' \<and> Q e r cols'"
    and G: "\<And>c. G c c" "\<And>c d e. G c d \<Longrightarrow> G d e \<Longrightarrow> G c e" and Q: "\<And>e r c d. Q e r c \<Longrightarrow> G c d \<Longrightarrow> Q e r d"
    and sm: "cache_ok sch srcs h sm"
  shows "\<exists>rs cols' sm'. find_operands h scan scan_id es cols sm = Some (filter (\<lambda>r. r \<noteq> RexNull) rs, cols', sm') \<and> G cols cols' \<and> later sm sm' \<and>
    sources_list es \<subseteq> dom sm' \<and> list_all2 (\<lambda>e r. Q e r cols') es rs"
  using step sm
proof (induction es arbitrary: cols sm)
  case Nil
  then show ?case using G(1) by (auto simp: later_refl)
next
  case (Cons e es)
  obtain r cols1 sm1 where a: "find e cols sm = Some (r, cols1, sm1)" "G cols cols1" "later sm sm1" "sources e \<subseteq> dom sm1" "Q e r cols1"
    using Cons.prems(1) [of e sm cols] Cons.prems(2) by auto
  have "\<exists>rs cols' sm'. find_operands h scan scan_id es cols1 sm1 = Some (filter (\<lambda>r. r \<noteq> RexNull) rs, cols', sm') \<and> G cols1 cols' \<and> later sm1 sm' \<and>
      sources_list es \<subseteq> dom sm' \<and> list_all2 (\<lambda>e r. Q e r cols') es rs"
    using Cons.prems(1) by (intro Cons.IH later_ok [OF a(3)]) simp_all
  then obtain rs cols' sm' where b: "find_operands h scan scan_id es cols1 sm1 = Some (filter (\<lambda>r. r \<noteq> RexNull) rs, cols', sm')" "G cols1 cols'"
    "later sm1 sm'" "sources_list es \<subseteq> dom sm'" "list_all2 (\<lambda>e r. Q e r cols') es rs" by blast
  have "find_operands h scan scan_id (e # es) cols sm = Some (filter (\<lambda>r. r \<noteq> RexNull) (r # rs), cols', sm')" using a(1) b(1) by simp
  moreover have "sources_list (e # es) \<subseteq> dom sm'" using later_dom [OF b(3) a(4)] b(4) by simp
  moreover have "list_all2 (\<lambda>e r. Q e r cols') (e # es) (r # rs)" using b(5) Q [OF a(5) b(2)] by simp
  ultimately show ?case using G(2) [OF a(2) b(2)] later_trans [OF a(3) b(3)] by blast
qed

lemma list_all2_evals: "list_all2 (\<lambda>e r. r \<noteq> RexNull \<and> eval S e1 r = eval S e2 e) es rs \<Longrightarrow> evals S e1 rs = evals S e2 es \<and> filter (\<lambda>r. r \<noteq> RexNull) rs = rs"
  by (induction es rs rule: list_all2_induct) auto

lemma list_all2_null: "list_all2 (\<lambda>e r. r = RexNull) es rs \<Longrightarrow> filter (\<lambda>r. r \<noteq> RexNull) rs = []"
  by (induction es rs rule: list_all2_induct) auto

text \<open>Operands of one table without inputs that are operators or cases themselves.\<close>

lemma find_pure:
  assumes "pure_on L t e" "cache_ok sch srcs h sm"
  shows "\<exists>r sm'. find e cols sm = Some (r, cols, sm') \<and> later sm sm' \<and> sources e \<subseteq> dom sm' \<and>
    (if t = scan_id then is_operator r \<and> eval S envp r = eval S env e else r = RexNull)"
  using assms
proof (induction arbitrary: cols sm rule: pure_on.induct)
  case (pure_atom op a b ti)
  obtain tmp sm1 where s: "scan_operands h scan_id [a, b] 0 False [] sm = Some (False, tmp, sm1)" "later sm sm1"
    using scan_operands_on [of "[a, b]" t sm 0 scan_id "[]"] pure_atom by auto
  obtain r1 sm2 where r1: "find a cols sm1 = Some (r1, cols, sm2)" "later sm1 sm2" "sources a \<subseteq> dom sm2"
    "if is_input a \<and> t \<noteq> scan_id then r1 = RexNull else r1 \<noteq> RexNull \<and> \<not> is_operator r1 \<and> \<not> is_case r1 \<and> eval S envp r1 = eval S env a"
    using find_operand [OF pure_atom(2) later_ok [OF s(2)], of cols] by blast
  obtain r2 sm3 where r2: "find b cols sm2 = Some (r2, cols, sm3)" "later sm2 sm3" "sources b \<subseteq> dom sm3"
    "if is_input b \<and> t \<noteq> scan_id then r2 = RexNull else r2 \<noteq> RexNull \<and> \<not> is_operator r2 \<and> \<not> is_case r2 \<and> eval S envp r2 = eval S env b"
    using find_operand [OF pure_atom(3) later_ok [OF r1(2)], of cols] by blast
  have l: "later sm sm3" using s(2) r1(2) r2(2) by (blast intro: later_trans)
  have d: "sources_list [a, b] \<subseteq> dom sm3" using later_dom [OF r2(2) r1(3)] r2(3) by simp
  have run: "find (RexOperator op [a, b] ti) cols sm = Some (rebuild_operator op (filter (\<lambda>r. r \<noteq> RexNull) [r1, r2]) ti, cols, sm3)"
    using s(1) r1(1) r2(1) by simp
  show ?case
  proof (cases "t = scan_id")
    case True
    then show ?thesis using run l d r1(4) r2(4) by (simp add: rebuild_operator_def)
  next
    case False
    then have "filter (\<lambda>r. r \<noteq> RexNull) [r1, r2] = [] \<or> (\<exists>r. filter (\<lambda>r. r \<noteq> RexNull) [r1, r2] = [r] \<and> \<not> is_operator r \<and> \<not> is_case r)"
      using r1(4) r2(4) pure_atom(4) by (auto split: if_splits)
    then have "rebuild_operator op (filter (\<lambda>r. r \<noteq> RexNull) [r1, r2]) ti = RexNull" by (rule rebuild_null [OF pure_atom(1)])
    then show ?thesis using run l d False by simp
  qed
next
  case (pure_not e ti)
  obtain r sm' where r: "find e cols sm = Some (r, cols, sm')" "later sm sm'" "sources e \<subseteq> dom sm'"
    "if t = scan_id then is_operator r \<and> eval S envp r = eval S env e else r = RexNull"
    using pure_not.IH [OF pure_not.prems] by blast
  then show ?case using operator_not_null [of r] by (auto simp: rebuild_operator_def)
next
  case (pure_op es op ti)
  have skip: "scan_operands h scan_id es 0 False [] sm = Some (False, [], sm)"
    using pure_op(2) by (intro scan_operands_skip operator_not_input simple_operator [OF simple_pure])
  have "\<exists>rs cols' sm'. find_operands h scan scan_id es cols sm = Some (filter (\<lambda>r. r \<noteq> RexNull) rs, cols', sm') \<and> cols = cols' \<and> later sm sm' \<and>
    sources_list es \<subseteq> dom sm' \<and> list_all2 (\<lambda>e r. if t = scan_id then is_operator r \<and> eval S envp r = eval S env e else r = RexNull) es rs"
    using pure_op(3) by (intro find_operands_loop pure_op.prems) (auto split del: if_split)
  then obtain rs sm' where r: "find_operands h scan scan_id es cols sm = Some (filter (\<lambda>r. r \<noteq> RexNull) rs, cols, sm')" "later sm sm'"
    "sources_list es \<subseteq> dom sm'" "list_all2 (\<lambda>e r. if t = scan_id then is_operator r \<and> eval S envp r = eval S env e else r = RexNull) es rs"
    by blast
  have run: "find (RexOperator op es ti) cols sm = Some (rebuild_operator op (filter (\<lambda>r. r \<noteq> RexNull) rs) ti, cols, sm')"
    using pure_op(1) skip r(1) by simp
  show ?case
  proof (cases "t = scan_id")
    case True
    then have "list_all2 (\<lambda>e r. r \<noteq> RexNull \<and> eval S envp r = eval S env e) es rs"
      using r(4) by (auto elim!: list_all2_mono simp: operator_not_null)
    then have "evals S envp rs = evals S env es" "filter (\<lambda>r. r \<noteq> RexNull) rs = rs" "length rs = length es"
      by (auto dest: list_all2_evals list_all2_lengthD)
    then show ?thesis using run r(2,3) True pure_op(1) by (simp add: rebuild_many)
  next
    case False
    then have "list_all2 (\<lambda>e r. r = RexNull) es rs" using r(4) by (auto elim!: list_all2_mono)
    then show ?thesis using run r(2,3) False by (simp add: list_all2_null rebuild_operator_def)
  qed
qed

text \<open>The operands of a function.\<close>

lemma func_operands_on:
  assumes "\<And>e. e \<in> set es \<Longrightarrow> operand_on L t e" "cache_ok sch srcs h sm"
  shows "\<exists>rs tmp' sm'. func_operands h scan scan_id es tmp sm = Some (rs, tmp', sm') \<and> later sm sm' \<and> sources_list es \<subseteq> dom sm' \<and>
    (if t = scan_id then length rs = length es \<and> evals S envp rs = evals S env es
     else tmp' = tmp \<and> length rs \<le> length es \<and> ((\<exists>e\<in>set es. is_input e) \<longrightarrow> length rs < length es))"
  using assms
proof (induction es arbitrary: tmp sm)
  case Nil
  then show ?case by (auto simp: later_refl)
next
  case (Cons e es)
  have on: "operand_on L t e" using Cons.prems(1) by simp
  show ?case
  proof (cases e)
    case (RexInput s i)
    then obtain c where c: "L s i = Some (t, c)" using on by auto
    define tmp1 sm1 where "tmp1 = (if t = scan_id then tmp @ [col_info s i t c scan_id] else tmp)" and "sm1 = sm(s \<mapsto> sch s)"
    have g: "getColumnInfoFromScan h s i scan_id sm = Some (col_info s i t c scan_id, sm1)" and l1: "later sm sm1"
      using getColumnInfo_ok [OF c Cons.prems(2), of scan_id] by (simp_all add: sm1_def)
    have one: "findFilterAndProjectFromFuncOper h scan scan_id e tmp sm = Some (if t = scan_id then RexInput scan c else RexNull, tmp1, sm1)"
      using RexInput g col_info_name [OF c, of scan_id] by (simp add: tmp1_def col_info_def)
    obtain rs tmp' sm' where r: "func_operands h scan scan_id es tmp1 sm1 = Some (rs, tmp', sm')" "later sm1 sm'" "sources_list es \<subseteq> dom sm'"
      "if t = scan_id then length rs = length es \<and> evals S envp rs = evals S env es
       else tmp' = tmp1 \<and> length rs \<le> length es \<and> ((\<exists>e\<in>set es. is_input e) \<longrightarrow> length rs < length es)"
      using Cons.IH [OF Cons.prems(1) later_ok [OF l1], of tmp1] by (auto split del: if_split)
    have "later sm sm'" "s \<in> dom sm'" using later_trans [OF l1 r(2)] later_dom [OF r(2), of "{s}"] by (auto simp: sm1_def)
    then show ?thesis using one r RexInput env [OF c] envp [of c] by (auto simp: tmp1_def)
  next
    case (RexLiteral l)
    obtain rs tmp' sm' where r: "func_operands h scan scan_id es tmp sm = Some (rs, tmp', sm')" "later sm sm'" "sources_list es \<subseteq> dom sm'"
      "if t = scan_id then length rs = length es \<and> evals S envp rs = evals S env es
       else tmp' = tmp \<and> length rs \<le> length es \<and> ((\<exists>e\<in>set es. is_input e) \<longrightarrow> length rs < length es)"
      using Cons.IH [OF Cons.prems(1) Cons.prems(2), of tmp] by (auto split del: if_split)
    then show ?thesis using RexLiteral on by auto
  qed (use on in simp_all)
qed

lemma find_simple:
  assumes "simple_on L t e" "cache_ok sch srcs h sm"
  shows "\<exists>r sm'. find e cols sm = Some (r, cols, sm') \<and> later sm sm' \<and> sources e \<subseteq> dom sm' \<and>
    (if t = scan_id then is_operator r \<and> eval S envp r = eval S env e else r = RexNull)"
  using assms(1)
proof cases
  case simple_pure
  then show ?thesis by (rule find_pure [OF _ assms(2)])
next
  case (simple_null op s i c ti)
  have on: "operand_on L t (RexInput s i)" using simple_null(3) by auto
  obtain r sm' where r: "find (RexInput s i) cols sm = Some (r, cols, sm')" "later sm sm'" "sources (RexInput s i) \<subseteq> dom sm'"
    "if is_input (RexInput s i) \<and> t \<noteq> scan_id then r = RexNull
     else r \<noteq> RexNull \<and> \<not> is_operator r \<and> \<not> is_case r \<and> eval S envp r = eval S env (RexInput s i)"
    using find_operand [OF on assms(2), of cols] by blast
  have "find e cols sm = Some (rebuild_operator op (filter (\<lambda>r. r \<noteq> RexNull) [r]) ti, cols, sm')"
    using r(1) by (simp add: simple_null(1) del: findFilterAndProjectFromRex.simps(1))
  then show ?thesis using r(2-4) simple_null(1,2) by (auto simp: rebuild_operator_def)
next
  case (simple_fun es name ti)
  obtain rs tmp' sm' where r: "func_operands h scan scan_id es [] sm = Some (rs, tmp', sm')" "later sm sm'" "sources_list es \<subseteq> dom sm'"
    "if t = scan_id then length rs = length es \<and> evals S envp rs = evals S env es
     else tmp' = [] \<and> length rs \<le> length es \<and> ((\<exists>e\<in>set es. is_input e) \<longrightarrow> length rs < length es)"
    using func_operands_on [of es t sm "[]"] simple_fun(2) assms(2) by (auto split del: if_split)
  then show ?thesis using simple_fun(1,3) by auto
qed

text \<open>
  The parts of a conjunctive condition: the truth of the predicates on the table, the truth of the
  rest, and the columns of the table that join conditions use.
\<close>

inductive split_cond :: "RexScalar \<Rightarrow> bool \<Rightarrow> bool \<Rightarrow> nat set \<Rightarrow> bool" where
  split_own: "simple_on L scan_id e \<Longrightarrow> split_cond e (s_true S (eval S env e)) True {}"
| split_other: "simple_on L t e \<Longrightarrow> t \<noteq> scan_id \<Longrightarrow> split_cond e True (s_true S (eval S env e)) {}"
| split_join: "L s i = Some (t, c) \<Longrightarrow> L s' i' = Some (t', c') \<Longrightarrow> t \<noteq> t' \<Longrightarrow> e = RexOperator op [RexInput s i, RexInput s' i'] ti \<Longrightarrow>
    split_cond e True (s_true S (eval S env e)) ({x. t = scan_id \<and> x = c} \<union> {x. t' = scan_id \<and> x = c'})"
| split_and: "2 \<le> length es \<Longrightarrow> (\<And>e. e \<in> set es \<Longrightarrow> split_cond e (P e) (Q e) (N e)) \<Longrightarrow>
    split_cond (RexOperator kAND es ti) (\<forall>e\<in>set es. P e) (\<forall>e\<in>set es. Q e) (\<Union>e\<in>set es. N e)"

lemma conjunctive_split: "conjunctive L e \<Longrightarrow> \<exists>P Q N. split_cond e P Q N"
proof (induction rule: conjunctive.induct)
  case (conj_simple t e)
  then show ?case using split_own [of e] split_other [of t e] by (cases "t = scan_id") auto
next
  case (conj_join s i t c s' i' t' c' op ti)
  then show ?case using split_join [OF conj_join refl] by blast
next
  case (conj_and es ti)
  then obtain P Q N where "\<And>e. e \<in> set es \<Longrightarrow> split_cond e (P e) (Q e) (N e)" by metis
  then show ?case using split_and [OF conj_and(1), of P Q N ti] by blast
qed

lemma split_cond_meaning: "split_cond e P Q N \<Longrightarrow> s_true S (eval S env e) \<longleftrightarrow> P \<and> Q"
  by (induction rule: split_cond.induct) (auto simp: evals_map and_law)

lemma split_cond_operator: "split_cond e P Q N \<Longrightarrow> is_operator e"
  by (induction rule: split_cond.induct) (auto simp: simple_operator)

lemma find_conjunctive:
  assumes "split_cond e P Q N" "cache_ok sch srcs h sm"
  shows "\<exists>r cols' sm'. find e cols sm = Some (r, cols', sm') \<and> fst ` set cols \<subseteq> fst ` set cols' \<and> later sm sm' \<and> sources e \<subseteq> dom sm' \<and>
    (r = RexNull \<or> is_operator r) \<and> (satisfied S envp r \<longleftrightarrow> P) \<and> N \<subseteq> fst ` set cols'"
  using assms
proof (induction arbitrary: cols sm rule: split_cond.induct)
  case (split_own e)
  then show ?case using find_simple [of scan_id e sm cols] by (auto simp: satisfied_def operator_not_null)
next
  case (split_other t e)
  then show ?case using find_simple [of t e sm cols] by (auto simp: satisfied_def)
next
  case (split_join s i t c s' i' t' c' e op ti)
  define tmp1 sm1 where "tmp1 = (if t = scan_id then [col_info s i t c scan_id] else [])" and "sm1 = sm(s \<mapsto> sch s)"
  define tmp2 sm2 where "tmp2 = (if t' = scan_id then tmp1 @ [col_info s' i' t' c' scan_id] else tmp1)" and "sm2 = sm1(s' \<mapsto> sch s')"
  have l: "later sm sm2" and scan: "scan_operands h scan_id [RexInput s i, RexInput s' i'] 0 False [] sm = Some (True, tmp2, sm2)"
    using scan_join [OF split_join(1-3,5)] by (simp_all add: tmp2_def tmp1_def sm2_def sm1_def)
  have run: "find e cols sm = Some (RexNull, fold insert_column tmp2 cols, sm2)" using split_join(4) scan by simp
  have "sources e \<subseteq> dom sm2" using split_join(4) by (auto simp: sm2_def sm1_def)
  moreover have "{x. t = scan_id \<and> x = c} \<union> {x. t' = scan_id \<and> x = c'} \<subseteq> fst ` set tmp2" by (auto simp: tmp2_def tmp1_def col_info_def)
  ultimately show ?case using run l by (auto simp: satisfied_def fold_insert_column_set)
next
  case (split_and es P Q N ti)
  have skip: "scan_operands h scan_id es 0 False [] sm = Some (False, [], sm)"
    using split_and(2) by (intro scan_operands_skip operator_not_input split_cond_operator)
  have "\<exists>rs cols' sm'. find_operands h scan scan_id es cols sm = Some (filter (\<lambda>r. r \<noteq> RexNull) rs, cols', sm') \<and>
      fst ` set cols \<subseteq> fst ` set cols' \<and> later sm sm' \<and> sources_list es \<subseteq> dom sm' \<and>
      list_all2 (\<lambda>e r. (r = RexNull \<or> is_operator r) \<and> (satisfied S envp r \<longleftrightarrow> P e) \<and> N e \<subseteq> fst ` set cols') es rs"
  proof (rule find_operands_loop [where G = "\<lambda>c d. fst ` set c \<subseteq> fst ` set d"
        and Q = "\<lambda>e r cols. (r = RexNull \<or> is_operator r) \<and> (satisfied S envp r \<longleftrightarrow> P e) \<and> N e \<subseteq> fst ` set cols", OF _ _ _ _ split_and.prems])
    show "\<exists>r cols' sm'. find e cols sm = Some (r, cols', sm') \<and> fst ` set cols \<subseteq> fst ` set cols' \<and> later sm sm' \<and> sources e \<subseteq> dom sm' \<and>
        (r = RexNull \<or> is_operator r) \<and> (satisfied S envp r \<longleftrightarrow> P e) \<and> N e \<subseteq> fst ` set cols'" if "e \<in> set es" "cache_ok sch srcs h sm" for e cols sm
      by (rule split_and(3) [OF that])
  qed auto
  then obtain rs cols' sm' where r: "find_operands h scan scan_id es cols sm = Some (filter (\<lambda>r. r \<noteq> RexNull) rs, cols', sm')"
    "fst ` set cols \<subseteq> fst ` set cols'" "later sm sm'" "sources_list es \<subseteq> dom sm'"
    "list_all2 (\<lambda>e r. (r = RexNull \<or> is_operator r) \<and> (satisfied S envp r \<longleftrightarrow> P e) \<and> N e \<subseteq> fst ` set cols') es rs" by blast
  define fs where "fs = filter (\<lambda>r. r \<noteq> RexNull) rs"
  have run: "find (RexOperator kAND es ti) cols sm = Some (rebuild_operator kAND fs ti, cols', sm')"
    using split_and(1) skip r(1) by (simp add: fs_def)
  have ops: "\<forall>r\<in>set fs. is_operator r" and all: "(\<forall>r\<in>set fs. s_true S (eval S envp r)) \<longleftrightarrow> (\<forall>e\<in>set es. P e)" and N: "(\<Union>e\<in>set es. N e) \<subseteq> fst ` set cols'"
    using r(5) unfolding fs_def by (induction es rs rule: list_all2_induct) (auto simp: satisfied_def)
  have "(rebuild_operator kAND fs ti = RexNull \<or> is_operator (rebuild_operator kAND fs ti)) \<and>
      (satisfied S envp (rebuild_operator kAND fs ti) \<longleftrightarrow> (\<forall>e\<in>set es. P e))"
    unfolding all [symmetric] using ops
    by (cases fs rule: remdups_adj.cases) (auto simp: rebuild_operator_def satisfied_def and_law evals_map operator_not_null)
  then show ?case using run r(2-4) N by simp
qed

end

end
