(* ===== verification/PushRewrite.thy ===== *)
theory PushRewrite
  imports PushFind
begin

text \<open>
  What \<open>buildNewFilterExpr\<close> and \<open>buildNewProjectExpr\<close> make of the expressions above the joins once one
  table has been replaced by a narrower one: the rest of a conjunctive condition, and projections of
  the same value.
\<close>

section \<open>Expressions whose columns are kept\<close>

fun kept :: "locator \<Rightarrow> nat \<Rightarrow> nat set \<Rightarrow> RexScalar \<Rightarrow> bool"
  and kept_list :: "locator \<Rightarrow> nat \<Rightarrow> nat set \<Rightarrow> RexScalar list \<Rightarrow> bool"
  and kept_branches :: "locator \<Rightarrow> nat \<Rightarrow> nat set \<Rightarrow> RexBranch list \<Rightarrow> bool" where
  "kept L scan_id C RexNull \<longleftrightarrow> False"
| "kept L scan_id C (RexInput s i) \<longleftrightarrow> (\<exists>t c. L s i = Some (t, c) \<and> (t = scan_id \<longrightarrow> c \<in> C))"
| "kept L scan_id C (RexLiteral l) \<longleftrightarrow> literal_ok l"
| "kept L scan_id C (RexOperator op es ti) \<longleftrightarrow> kept_list L scan_id C es"
| "kept L scan_id C (RexFunctionOperator name es ti) \<longleftrightarrow> kept_list L scan_id C es"
| "kept L scan_id C (RexCase bs e) \<longleftrightarrow> kept_branches L scan_id C bs \<and> kept L scan_id C e"
| "kept L scan_id C (RexRef i) \<longleftrightarrow> True"
| "kept L scan_id C (RexSubQuery q) \<longleftrightarrow> False"
| "kept_list L scan_id C [] \<longleftrightarrow> True"
| "kept_list L scan_id C (e # es) \<longleftrightarrow> kept L scan_id C e \<and> kept_list L scan_id C es"
| "kept_branches L scan_id C [] \<longleftrightarrow> True"
| "kept_branches L scan_id C (When w t # bs) \<longleftrightarrow> kept L scan_id C w \<and> kept L scan_id C t \<and> kept_branches L scan_id C bs"

section \<open>Rewriting\<close>

locale rewriting = extraction sch srcs h S scan scan_id val env envp
  for sch :: "node_ptr \<Rightarrow> schema" and srcs :: "node_ptr set" and h :: ra_store and S :: "'v sem" and scan :: node_ptr and scan_id :: nat
    and val :: "nat \<Rightarrow> nat \<Rightarrow> 'v" and env envp :: "node_ptr \<Rightarrow> nat \<Rightarrow> 'v" +
  fixes env' :: "node_ptr \<Rightarrow> nat \<Rightarrow> 'v" and out :: node_ptr and k :: nat and new_input :: node_ptr and conn :: "node_ptr \<Rightarrow> bool" and cols :: "column list"
  assumes new_input: "getInput h out k = Some new_input"
    and conn: "s \<in> srcs \<Longrightarrow> connected_source h new_input s = Some (conn s)"
    and below: "getInput h new_input 0 = Some scan" "getId h scan = Some scan_id"
    and ids: "s \<in> srcs \<Longrightarrow> conn s \<Longrightarrow> \<exists>i. getId h s = Some i \<and> (i = scan_id \<longleftrightarrow> s = scan)"
    and scan_schema: "scan \<in> srcs \<Longrightarrow> \<exists>n. fst (sch scan) = [(scan_id, n)]"
    and apart: "s \<in> srcs \<Longrightarrow> \<not> conn s \<Longrightarrow> env' s i = env s i"
    and above: "s \<in> srcs \<Longrightarrow> conn s \<Longrightarrow> s \<noteq> scan \<Longrightarrow> locate (narrow scan_id (length cols) (fst (sch s))) j = Some (t, c) \<Longrightarrow>
      env' s j = val t (if t = scan_id then fst (cols ! c) else c)"
    and new_row: "p < length cols \<Longrightarrow> env' new_input p = val scan_id (fst (cols ! p))"
begin

text \<open>The index of an input: absent for a column that is not kept, else with the same value.\<close>

lemma index_ok:
  assumes "L s i = Some (t, c)" "conn s"
  shows "(case new_index scan_id cols i (fst (sch s)) 0 0 of
      Missing \<Rightarrow> t = scan_id \<and> c \<notin> fst ` set cols
    | Own j \<Rightarrow> t = scan_id \<and> env' (if s = scan then new_input else s) j = val t c
    | Other j \<Rightarrow> t \<noteq> scan_id \<and> env' s j = val t c
    | NoTable \<Rightarrow> False)"
proof -
  have s: "s \<in> srcs" "locate (fst (sch s)) i = Some (t, c)" using L_D [OF assms(1)] by auto
  have d: "distinct (map fst (fst (sch s)))" using wf [OF s(1)] by (simp add: schema_wf_def)
  note idx = new_index_locate [OF s(2) d, of scan_id cols 0]
  show ?thesis
  proof (cases "t = scan_id")
    case True
    show ?thesis
    proof (cases "column_position c cols")
      case None
      then show ?thesis using idx True column_position_None [of c cols] by simp
    next
      case (Some p)
      then obtain j where j: "new_index scan_id cols i (fst (sch s)) 0 0 = Own j" "locate (narrow scan_id (length cols) (fst (sch s))) j = Some (t, p)"
        using idx True by auto
      have p: "p < length cols" "fst (cols ! p) = c" using column_position_less [OF Some] by auto
      show ?thesis
      proof (cases "s = scan")
        case True
        then obtain n where "fst (sch s) = [(scan_id, n)]" using scan_schema s(1) by auto
        then have "j = p" using j(2) by (auto split: if_splits)
        then show ?thesis using j(1) True \<open>t = scan_id\<close> new_row [OF p(1)] p(2) by simp
      next
        case False
        then show ?thesis using j True above [OF s(1) assms(2) False j(2)] p(2) by simp
      qed
    qed
  next
    case False
    then obtain j where j: "new_index scan_id cols i (fst (sch s)) 0 0 = Other j" "locate (narrow scan_id (length cols) (fst (sch s))) j = Some (t, c)"
      using idx by auto
    have "s \<noteq> scan"
    proof
      assume "s = scan"
      then obtain n where "fst (sch s) = [(scan_id, n)]" using scan_schema s(1) by auto
      then show False using s(2) False by (auto split: if_splits)
    qed
    then show ?thesis using j False above [OF s(1) assms(2) _ j(2)] by simp
  qed
qed

definition same_value :: "RexScalar \<Rightarrow> RexScalar \<Rightarrow> bool" where
  "same_value e r \<longleftrightarrow> r \<noteq> RexNull \<and> eval S env' r = eval S env e"

lemma list_all2_same_value: "list_all2 same_value es rs \<Longrightarrow> evals S env' rs = evals S env es"
  by (induction es rs rule: list_all2_induct) (auto simp: same_value_def)

lemma filter_input_ok:
  assumes "L s i = Some (t, c)" "cache_ok sch srcs h sm"
  shows "\<exists>r sm'. filter_input h scan_id out k cols s i sm = Some (r, sm') \<and> later sm sm' \<and>
    (r = RexNull \<and> t = scan_id \<and> c \<notin> fst ` set cols \<or> same_value (RexInput s i) r)"
proof (cases "conn s")
  case True
  have s: "s \<in> srcs" using L_D [OF assms(1)] by simp
  obtain j where j: "getId h s = Some j" "j = scan_id \<longleftrightarrow> s = scan" using ids [OF s True] by blast
  obtain ts names where sch: "sch s = (ts, names)" by (cases "sch s")
  have g: "getSchemaFromSource h s sm = Some ((ts, names), sm(s \<mapsto> sch s))" and l: "later sm (sm(s \<mapsto> sch s))"
    using getSchema_ok [OF s assms(2)] sch by simp_all
  have j': "scan_id = j \<longleftrightarrow> s = scan" using j(2) by auto
  have "filter_input h scan_id out k cols s i sm =
      Some (case new_index scan_id cols i (fst (sch s)) 0 0 of Own j \<Rightarrow> RexInput (if s = scan then new_input else s) j
              | Other j \<Rightarrow> RexInput s j | _ \<Rightarrow> RexNull, sm(s \<mapsto> sch s))"
    by (cases "new_index scan_id cols i (fst (sch s)) 0 0") (simp_all add: filter_input_def new_input conn [OF s] True g sch below j(1) j')
  then show ?thesis
    using index_ok [OF assms(1) True] env [OF assms(1)] l
    by (cases "new_index scan_id cols i (fst (sch s)) 0 0") (simp_all add: same_value_def)
next
  case False
  have s: "s \<in> srcs" using L_D [OF assms(1)] by simp
  show ?thesis using False env [OF assms(1)] apart [OF s False, of i] assms(2)
    by (auto simp: filter_input_def new_input conn [OF s] same_value_def later_refl)
qed

lemma project_input_ok:
  assumes "L s i = Some (t, c)" "t = scan_id \<longrightarrow> c \<in> fst ` set cols" "cache_ok sch srcs h sm"
  shows "\<exists>r sm'. project_input h scan_id out k cols s i sm = Some (r, sm') \<and> later sm sm' \<and> same_value (RexInput s i) r"
proof (cases "conn s")
  case True
  have s: "s \<in> srcs" using L_D [OF assms(1)] by simp
  obtain ts names where sch: "sch s = (ts, names)" by (cases "sch s")
  have g: "getSchemaFromSource h s sm = Some ((ts, names), sm(s \<mapsto> sch s))" and l: "later sm (sm(s \<mapsto> sch s))"
    using getSchema_ok [OF s assms(3)] sch by simp_all
  show ?thesis
    using index_ok [OF assms(1) True] assms(2) env [OF assms(1)] l unfolding project_input_def
    by (cases "new_index scan_id cols i (fst (sch s)) 0 0") (auto simp: new_input conn [OF s] True g sch below same_value_def)
next
  case False
  have s: "s \<in> srcs" using L_D [OF assms(1)] by simp
  show ?thesis using False env [OF assms(1)] apart [OF s False, of i] assms(3)
    by (auto simp: project_input_def new_input conn [OF s] same_value_def later_refl)
qed

text \<open>Projections.\<close>

lemma project_ok:
  shows "kept L scan_id (fst ` set cols) e \<Longrightarrow> cache_ok sch srcs h sm \<Longrightarrow>
      \<exists>r sm'. buildNewProjectExpr h scan_id out k cols e sm = Some (r, sm') \<and> later sm sm' \<and> same_value e r"
    and "kept_list L scan_id (fst ` set cols) es \<Longrightarrow> cache_ok sch srcs h sm \<Longrightarrow>
      \<exists>rs sm'. project_operands h scan_id out k cols es sm = Some (rs, sm') \<and> later sm sm' \<and> list_all2 same_value es rs"
    and "kept_branches L scan_id (fst ` set cols) bs \<Longrightarrow> cache_ok sch srcs h sm \<Longrightarrow>
      \<exists>rs sm'. project_branches h scan_id out k cols bs sm = Some (rs, sm') \<and> later sm sm' \<and> (\<forall>v. eval_case S env' rs v = eval_case S env bs v)"
proof (induction e and es and bs arbitrary: sm and sm and sm rule: sources_sources_list_sources_branches.induct)
  case (2 s i)
  then obtain t c where "L s i = Some (t, c)" "t = scan_id \<longrightarrow> c \<in> fst ` set cols" by auto
  then show ?case using project_input_ok [of s i t c sm] 2(2) by simp
next
  case (3 l)
  then show ?case by (auto simp: same_value_def later_refl)
next
  case (4 op es ti)
  then show ?case using list_all2_same_value by (fastforce simp: same_value_def)
next
  case (5 name es ti)
  then show ?case using list_all2_same_value by (fastforce simp: same_value_def)
next
  case (6 bs e)
  obtain bs' sm1 where b: "project_branches h scan_id out k cols bs sm = Some (bs', sm1)" "later sm sm1" "\<forall>v. eval_case S env' bs' v = eval_case S env bs v"
    using 6(1) [of sm] 6(3,4) by auto
  obtain e' sm2 where "buildNewProjectExpr h scan_id out k cols e sm1 = Some (e', sm2)" "later sm1 sm2" "same_value e e'"
    using 6(2) [OF _ later_ok [OF b(2)]] 6(3) by auto
  then show ?case using b later_trans [OF b(2)] by (auto simp: same_value_def)
next
  case (10 e es)
  obtain e' sm1 where a: "buildNewProjectExpr h scan_id out k cols e sm = Some (e', sm1)" "later sm sm1" "same_value e e'"
    using 10(1) [of sm] 10(3,4) by auto
  obtain es' sm2 where "project_operands h scan_id out k cols es sm1 = Some (es', sm2)" "later sm1 sm2" "list_all2 same_value es es'"
    using 10(2) [OF _ later_ok [OF a(2)]] 10(3) by auto
  then show ?case using a later_trans [OF a(2)] by auto
next
  case (12 w t bs)
  obtain w' sm1 where a: "buildNewProjectExpr h scan_id out k cols w sm = Some (w', sm1)" "later sm sm1" "same_value w w'"
    using 12(1) [of sm] 12(4,5) by auto
  obtain t' sm2 where b: "buildNewProjectExpr h scan_id out k cols t sm1 = Some (t', sm2)" "later sm1 sm2" "same_value t t'"
    using 12(2) [OF _ later_ok [OF a(2)]] 12(4) by auto
  obtain bs' sm3 where c: "project_branches h scan_id out k cols bs sm2 = Some (bs', sm3)" "later sm2 sm3" "\<forall>v. eval_case S env' bs' v = eval_case S env bs v"
    using 12(3) [OF _ later_ok [OF b(2)]] 12(4) by auto
  have "later sm sm3" using a(2) b(2) c(2) by (blast intro: later_trans)
  then show ?case using a b c by (auto simp: same_value_def)
qed (auto simp: same_value_def later_refl)

text \<open>Filters.\<close>

abbreviation build :: "RexScalar \<Rightarrow> schema_cache \<Rightarrow> (RexScalar \<times> schema_cache) option" where
  "build \<equiv> buildNewFilterExpr h scan_id out k cols"

lemma build_operand:
  assumes "operand_on L t e" "cache_ok sch srcs h sm"
  shows "\<exists>r sm'. build e sm = Some (r, sm') \<and> later sm sm' \<and> (t = scan_id \<and> r = RexNull \<or> same_value e r)"
proof (cases e)
  case (RexInput s i)
  then show ?thesis using assms filter_input_ok [of s i t _ sm] by fastforce
next
  case (RexLiteral l)
  then show ?thesis using assms by (auto simp: same_value_def later_refl)
qed (use assms in simp_all)

lemma filter_operands_loop:
  assumes "\<And>e sm. e \<in> set es \<Longrightarrow> cache_ok sch srcs h sm \<Longrightarrow> \<exists>r sm'. build e sm = Some (r, sm') \<and> later sm sm' \<and> Q e r"
    and "cache_ok sch srcs h sm"
  shows "\<exists>rs sm'. filter_operands h scan_id out k cols es sm = Some (filter (\<lambda>r. r \<noteq> RexNull) rs, sm') \<and> later sm sm' \<and> list_all2 Q es rs"
  using assms
proof (induction es arbitrary: sm)
  case Nil
  then show ?case by (auto simp: later_refl)
next
  case (Cons e es)
  obtain r sm1 where a: "build e sm = Some (r, sm1)" "later sm sm1" "Q e r" using Cons.prems(1) [of e sm] Cons.prems(2) by auto
  have "\<exists>rs sm'. filter_operands h scan_id out k cols es sm1 = Some (filter (\<lambda>r. r \<noteq> RexNull) rs, sm') \<and> later sm1 sm' \<and> list_all2 Q es rs"
    using Cons.prems(1) by (intro Cons.IH later_ok [OF a(2)]) simp_all
  then obtain rs sm' where b: "filter_operands h scan_id out k cols es sm1 = Some (filter (\<lambda>r. r \<noteq> RexNull) rs, sm')" "later sm1 sm'" "list_all2 Q es rs"
    by blast
  have "filter_operands h scan_id out k cols (e # es) sm = Some (filter (\<lambda>r. r \<noteq> RexNull) (r # rs), sm')" using a(1) b(1) by simp
  moreover have "list_all2 Q (e # es) (r # rs)" using a(3) b(3) by simp
  ultimately show ?case using later_trans [OF a(2) b(2)] by blast
qed

lemma same_values_filter: "list_all2 same_value es rs \<Longrightarrow> filter (\<lambda>r. r \<noteq> RexNull) rs = rs \<and> length rs = length es"
  by (induction es rs rule: list_all2_induct) (auto simp: same_value_def)

lemma nulls_filter: "list_all2 (\<lambda>e r. r = RexNull) es rs \<Longrightarrow> filter (\<lambda>r. r \<noteq> RexNull) rs = []"
  by (induction es rs rule: list_all2_induct) auto

lemma same_value_operator: "list_all2 same_value es rs \<Longrightarrow> 2 \<le> length es \<Longrightarrow> same_value (RexOperator op es ti) (rebuild_operator op (filter (\<lambda>r. r \<noteq> RexNull) rs) ti)"
  using same_values_filter [of es rs] list_all2_same_value [of es rs] by (simp add: rebuild_many same_value_def)

text \<open>Predicates of the table itself disappear, those of another table are copied.\<close>

lemma build_pure:
  assumes "pure_on L t e" "cache_ok sch srcs h sm"
  shows "\<exists>r sm'. build e sm = Some (r, sm') \<and> later sm sm' \<and> (if t = scan_id then r = RexNull else same_value e r)"
  using assms
proof (induction arbitrary: sm rule: pure_on.induct)
  case (pure_atom op a b ti)
  have on: "operand_on L t e" if "e \<in> set [a, b]" for e using that pure_atom(2,3) by auto
  obtain tmp sm1 where s: "scan_operands h scan_id [a, b] 0 False [] sm = Some (False, tmp, sm1)" "later sm sm1"
      "t \<noteq> scan_id \<longrightarrow> tmp = []" "t = scan_id \<longrightarrow> tmp \<noteq> []"
    using scan_operands_on [of "[a, b]" t sm 0 scan_id "[]"] on pure_atom(4,5) by auto
  show ?case
  proof (cases "t = scan_id")
    case True
    then show ?thesis using s by simp
  next
    case False
    have "\<exists>rs sm'. filter_operands h scan_id out k cols [a, b] sm1 = Some (filter (\<lambda>r. r \<noteq> RexNull) rs, sm') \<and> later sm1 sm' \<and> list_all2 same_value [a, b] rs"
      using build_operand [OF on] False by (intro filter_operands_loop later_ok [OF s(2)]) blast
    then obtain rs sm' where r: "filter_operands h scan_id out k cols [a, b] sm1 = Some (filter (\<lambda>r. r \<noteq> RexNull) rs, sm')" "later sm1 sm'"
      "list_all2 same_value [a, b] rs" by blast
    have "build (RexOperator op [a, b] ti) sm = Some (rebuild_operator op (filter (\<lambda>r. r \<noteq> RexNull) rs) ti, sm')"
      using s(1,3) False r(1) by (simp del: filter_operands.simps)
    then show ?thesis using later_trans [OF s(2) r(2)] same_value_operator [OF r(3)] False by simp
  qed
next
  case (pure_not e ti)
  obtain r sm' where "build e sm = Some (r, sm')" "later sm sm'" "if t = scan_id then r = RexNull else same_value e r"
    using pure_not.IH [OF pure_not.prems] by blast
  then show ?case by (cases "t = scan_id") (auto simp: rebuild_operator_def same_value_def)
next
  case (pure_op es op ti)
  have skip: "scan_operands h scan_id es 0 False [] sm = Some (False, [], sm)"
    using pure_op(2) by (intro scan_operands_skip operator_not_input simple_operator [OF simple_pure])
  have "\<exists>rs sm'. filter_operands h scan_id out k cols es sm = Some (filter (\<lambda>r. r \<noteq> RexNull) rs, sm') \<and> later sm sm' \<and>
      list_all2 (\<lambda>e r. if t = scan_id then r = RexNull else same_value e r) es rs"
    using pure_op(3) by (intro filter_operands_loop pure_op.prems)
  then obtain rs sm' where r: "filter_operands h scan_id out k cols es sm = Some (filter (\<lambda>r. r \<noteq> RexNull) rs, sm')" "later sm sm'"
    "list_all2 (\<lambda>e r. if t = scan_id then r = RexNull else same_value e r) es rs" by blast
  have run: "build (RexOperator op es ti) sm = Some (rebuild_operator op (filter (\<lambda>r. r \<noteq> RexNull) rs) ti, sm')"
    using pure_op(1) skip r(1) by simp
  show ?case
  proof (cases "t = scan_id")
    case True
    then show ?thesis using run r(2,3) nulls_filter [of es rs] by (simp add: rebuild_operator_def)
  next
    case False
    then show ?thesis using run r(2,3) same_value_operator [OF _ pure_op(1), of rs op ti] by simp
  qed
qed

lemma build_simple:
  assumes "simple_on L t e" "cache_ok sch srcs h sm"
  shows "\<exists>r sm'. build e sm = Some (r, sm') \<and> later sm sm' \<and> (t = scan_id \<and> r = RexNull \<or> same_value e r)"
  using assms(1)
proof cases
  case simple_pure
  then show ?thesis using build_pure [OF _ assms(2)] by (metis (full_types))
next
  case (simple_null op s i c ti)
  obtain r sm' where r: "filter_input h scan_id out k cols s i sm = Some (r, sm')" "later sm sm'" "t = scan_id \<and> r = RexNull \<or> same_value (RexInput s i) r"
    using filter_input_ok [OF simple_null(3) assms(2)] by blast
  then show ?thesis using simple_null(1,2) by (auto simp: rebuild_operator_def same_value_def)
next
  case (simple_fun es name ti)
  have "\<exists>rs sm'. filter_operands h scan_id out k cols es sm = Some (filter (\<lambda>r. r \<noteq> RexNull) rs, sm') \<and> later sm sm' \<and>
      list_all2 (\<lambda>e r. t = scan_id \<and> r = RexNull \<or> same_value e r) es rs"
    using build_operand [OF simple_fun(2)] by (intro filter_operands_loop assms(2))
  then obtain rs sm' where r: "filter_operands h scan_id out k cols es sm = Some (filter (\<lambda>r. r \<noteq> RexNull) rs, sm')" "later sm sm'"
    "list_all2 (\<lambda>e r. t = scan_id \<and> r = RexNull \<or> same_value e r) es rs" by blast
  define fs where "fs = filter (\<lambda>r. r \<noteq> RexNull) rs"
  have run: "build e sm = Some (if length es = length fs then RexFunctionOperator name fs ti else RexNull, sm')"
    using simple_fun(1) r(1) by (simp add: fs_def)
  have len: "length rs = length es" using list_all2_lengthD [OF r(3)] by simp
  show ?thesis
  proof (cases "length es = length fs")
    case True
    have nn: "r \<noteq> RexNull" if "r \<in> set rs" for r
      using that length_filter_less [of r rs "\<lambda>r. r \<noteq> RexNull"] True len unfolding fs_def by linarith
    have "list_all2 same_value es rs" by (rule list.rel_mono_strong [OF r(3)]) (use nn in blast)
    then have "fs = rs" "evals S env' rs = evals S env es"
      using same_values_filter [of es rs] list_all2_same_value [of es rs] by (simp_all add: fs_def)
    then have "same_value e (RexFunctionOperator name fs ti)" using simple_fun(1) by (simp add: same_value_def)
    then show ?thesis using run True r(2) by auto
  next
    case False
    have "t = scan_id"
    proof (rule ccontr)
      assume "t \<noteq> scan_id"
      then have "list_all2 same_value es rs" using r(3) by simp
      then show False using False same_values_filter [of es rs] by (simp add: fs_def)
    qed
    then show ?thesis using run False r(2) by simp
  qed
qed

lemma rebuild_operator_cases: "rebuild_operator op fs ti = RexNull \<or> is_operator (rebuild_operator op fs ti) \<or> is_case (rebuild_operator op fs ti)"
  by (cases fs rule: remdups_adj.cases) (auto simp: rebuild_operator_def)

lemma build_operator:
  assumes "is_operator e" "build e sm = Some (r, sm')"
  shows "r = RexNull \<or> is_operator r \<or> is_case r"
proof (cases e)
  case (RexOperator op es ti)
  then show ?thesis using assms(2) rebuild_operator_cases [of op _ ti]
    by (auto split: bind_splits prod.splits if_splits)
next
  case (RexFunctionOperator name es ti)
  then show ?thesis using assms(2) by (auto split: bind_splits prod.splits if_splits)
qed (use assms(1) in simp_all)

text \<open>Where the predicates on the table hold, what is left of a conjunctive condition has the truth of the rest.\<close>

lemma build_conjunctive:
  assumes "split_cond e P Q N" "cache_ok sch srcs h sm" "N \<subseteq> fst ` set cols"
  shows "\<exists>r sm'. build e sm = Some (r, sm') \<and> later sm sm' \<and> (r = RexNull \<or> is_operator r \<or> is_case r) \<and> (P \<longrightarrow> (satisfied S env' r \<longleftrightarrow> Q))"
  using assms
proof (induction arbitrary: sm rule: split_cond.induct)
  case (split_own e)
  obtain r sm' where r: "build e sm = Some (r, sm')" "later sm sm'" "scan_id = scan_id \<and> r = RexNull \<or> same_value e r"
    using build_simple [OF split_own(1,2)] by blast
  have "r = RexNull \<or> is_operator r \<or> is_case r" by (rule build_operator [OF simple_operator [OF split_own(1)] r(1)])
  moreover have "s_true S (eval S env e) \<longrightarrow> (satisfied S env' r \<longleftrightarrow> True)" using r(3) by (auto simp: satisfied_def same_value_def)
  ultimately show ?case using r(1,2) by blast
next
  case (split_other t e)
  obtain r sm' where r: "build e sm = Some (r, sm')" "later sm sm'" "t = scan_id \<and> r = RexNull \<or> same_value e r"
    using build_simple [OF split_other(1,3)] by blast
  have "r = RexNull \<or> is_operator r \<or> is_case r" by (rule build_operator [OF simple_operator [OF split_other(1)] r(1)])
  moreover have "satisfied S env' r \<longleftrightarrow> s_true S (eval S env e)" using r(3) split_other(2) by (auto simp: satisfied_def same_value_def)
  ultimately show ?case using r(1,2) by blast
next
  case (split_join s i t c s' i' t' c' e op ti)
  define tmp1 sm1 where "tmp1 = (if t = scan_id then [col_info s i t c scan_id] else [])" and "sm1 = sm(s \<mapsto> sch s)"
  define tmp2 sm2 where "tmp2 = (if t' = scan_id then tmp1 @ [col_info s' i' t' c' scan_id] else tmp1)" and "sm2 = sm1(s' \<mapsto> sch s')"
  have l: "later sm sm2" and scan: "scan_operands h scan_id [RexInput s i, RexInput s' i'] 0 False [] sm = Some (True, tmp2, sm2)"
    using scan_join [OF split_join(1-3,5)] by (simp_all add: tmp2_def tmp1_def sm2_def sm1_def)
  obtain r1 sm3 where r1: "filter_input h scan_id out k cols s i sm2 = Some (r1, sm3)" "later sm2 sm3" "same_value (RexInput s i) r1"
    using filter_input_ok [OF split_join(1) later_ok [OF l]] split_join(6) by blast
  obtain r2 sm4 where r2: "filter_input h scan_id out k cols s' i' sm3 = Some (r2, sm4)" "later sm3 sm4" "same_value (RexInput s' i') r2"
    using filter_input_ok [OF split_join(2) later_ok [OF r1(2)]] split_join(6) by blast
  have nn: "r1 \<noteq> RexNull" "r2 \<noteq> RexNull" using r1(3) r2(3) by (simp_all add: same_value_def)
  have "build e sm = Some (RexOperator op [r1, r2] ti, sm4)"
    using split_join(4) scan r1(1) r2(1) nn by (simp add: rebuild_operator_def)
  moreover have "later sm sm4" using l r1(2) r2(2) by (blast intro: later_trans)
  ultimately show ?case using split_join(4) r1(3) r2(3) by (auto simp: satisfied_def same_value_def)
next
  case (split_and es P Q N ti)
  have skip: "scan_operands h scan_id es 0 False [] sm = Some (False, [], sm)"
    using split_and(2) by (intro scan_operands_skip operator_not_input split_cond_operator)
  have "\<exists>rs sm'. filter_operands h scan_id out k cols es sm = Some (filter (\<lambda>r. r \<noteq> RexNull) rs, sm') \<and> later sm sm' \<and>
      list_all2 (\<lambda>e r. (r = RexNull \<or> is_operator r \<or> is_case r) \<and> (P e \<longrightarrow> (satisfied S env' r \<longleftrightarrow> Q e))) es rs"
  proof (rule filter_operands_loop [OF _ split_and.prems(1)])
    show "\<exists>r sm'. build e sm = Some (r, sm') \<and> later sm sm' \<and> (r = RexNull \<or> is_operator r \<or> is_case r) \<and> (P e \<longrightarrow> (satisfied S env' r \<longleftrightarrow> Q e))"
      if "e \<in> set es" "cache_ok sch srcs h sm" for e sm
      using split_and.prems(2) that(1) by (intro split_and(3) [OF that]) blast
  qed
  then obtain rs sm' where r: "filter_operands h scan_id out k cols es sm = Some (filter (\<lambda>r. r \<noteq> RexNull) rs, sm')" "later sm sm'"
    "list_all2 (\<lambda>e r. (r = RexNull \<or> is_operator r \<or> is_case r) \<and> (P e \<longrightarrow> (satisfied S env' r \<longleftrightarrow> Q e))) es rs" by blast
  define fs where "fs = filter (\<lambda>r. r \<noteq> RexNull) rs"
  have run: "build (RexOperator kAND es ti) sm = Some (rebuild_operator kAND fs ti, sm')"
    using split_and(1) skip r(1) by (simp add: fs_def)
  have ops: "\<forall>r\<in>set fs. is_operator r \<or> is_case r" and all: "(\<forall>e\<in>set es. P e) \<longrightarrow> (\<forall>r\<in>set fs. s_true S (eval S env' r)) = (\<forall>e\<in>set es. Q e)"
    using r(3) unfolding fs_def by (induction es rs rule: list_all2_induct) (auto simp: satisfied_def)
  have "satisfied S env' (rebuild_operator kAND fs ti) \<longleftrightarrow> (\<forall>r\<in>set fs. s_true S (eval S env' r))"
    using ops by (cases fs rule: remdups_adj.cases) (auto simp: rebuild_operator_def satisfied_def and_law evals_map)
  then show ?case using run r(2) all rebuild_operator_cases [of kAND fs ti] by simp
qed

end

end
