(* ===== verification/PushPlan.thy ===== *)
theory PushPlan
  imports PushRewrite
begin

text \<open>
  The rows of a plan. Below the filter a plan is a tree of joins whose leaves are scans and the
  compounds of earlier push-downs; an environment is a row of the plan when every node repeats,
  concatenates or computes the columns of its inputs. The schema of a node lists its leaves, so that
  an input denotes a column of a leaf.
\<close>

section \<open>Leaves\<close>

inductive leaves :: "ra_store \<Rightarrow> node_ptr \<Rightarrow> (nat \<times> node_ptr) list \<Rightarrow> bool" for h where
  leaf_scan: "node_at h n = Some nd \<Longrightarrow> kind nd = RelScan td fs \<Longrightarrow> leaves h n [(node_id nd, n)]"
| leaf_compound: "node_at h n = Some nd \<Longrightarrow> kind nd = RelCompound f ts g as fs a ss \<Longrightarrow> inputs nd = [m] \<Longrightarrow>
    node_at h m = Some md \<Longrightarrow> kind md = RelScan td gs \<Longrightarrow> leaves h n [(node_id md, n)]"
| leaf_join: "node_at h n = Some nd \<Longrightarrow> kind nd = RelJoin c j \<Longrightarrow> inputs nd = [l, r] \<Longrightarrow> leaves h l xs \<Longrightarrow> leaves h r ys \<Longrightarrow> leaves h n (xs @ ys)"
| leaf_filter: "node_at h n = Some nd \<Longrightarrow> kind nd = RelFilter c \<Longrightarrow> inputs nd = [m] \<Longrightarrow> leaves h m xs \<Longrightarrow> leaves h n xs"

definition names_of :: "ra_store \<Rightarrow> node_ptr \<Rightarrow> string list" where
  "names_of h n = (case node_at h n of
      Some nd \<Rightarrow> (case kind nd of RelScan td fs \<Rightarrow> fs | RelCompound f ts g as fs a ss \<Rightarrow> fs | _ \<Rightarrow> [])
    | None \<Rightarrow> [])"

definition leaf_ok :: "ra_store \<Rightarrow> node_ptr \<Rightarrow> bool" where
  "leaf_ok h n \<longleftrightarrow> '''' \<notin> set (names_of h n) \<and> (case node_at h n of
      Some nd \<Rightarrow> (case kind nd of RelCompound f ts g as fs a ss \<Rightarrow> length fs = length ts | _ \<Rightarrow> True)
    | None \<Rightarrow> True)"

definition leaves_ok :: "ra_store \<Rightarrow> (nat \<times> node_ptr) list \<Rightarrow> bool" where
  "leaves_ok h xs \<longleftrightarrow> (\<forall>x\<in>set xs. leaf_ok h (snd x))"

definition schema_of :: "ra_store \<Rightarrow> (nat \<times> node_ptr) list \<Rightarrow> schema" where
  "schema_of h xs = (map (\<lambda>x. (fst x, length (names_of h (snd x)))) xs, concat (map (\<lambda>x. names_of h (snd x)) xs))"

lemma schema_of_simps [simp]:
  "fst (schema_of h []) = []" "fst (schema_of h (x # xs)) = (fst x, length (names_of h (snd x))) # fst (schema_of h xs)"
  "fst (schema_of h (xs @ ys)) = fst (schema_of h xs) @ fst (schema_of h ys)"
  "snd (schema_of h (xs @ ys)) = snd (schema_of h xs) @ snd (schema_of h ys)"
  by (simp_all add: schema_of_def)

lemma schema_of_length: "length (snd (schema_of h xs)) = sum_list (map snd (fst (schema_of h xs)))"
  by (induction xs) (auto simp: schema_of_def)

lemma schema_of_wf:
  assumes "distinct (map fst xs)" "0 \<notin> fst ` set xs" "leaves_ok h xs"
  shows "schema_wf (schema_of h xs)"
  using assms schema_of_length [of h xs] unfolding schema_wf_def
  by (auto simp: schema_of_def leaves_ok_def leaf_ok_def comp_def image_image)

lemma leaves_ok_append [simp]: "leaves_ok h (xs @ ys) \<longleftrightarrow> leaves_ok h xs \<and> leaves_ok h ys"
  by (auto simp: leaves_ok_def)

lemma getInput_nth [simp]: "node_at h n = Some nd \<Longrightarrow> i < length (inputs nd) \<Longrightarrow> getInput h n i = Some (inputs nd ! i)"
  by (simp add: getInput_def)

text \<open>One step of the schema query, by the class of the node.\<close>

lemma findBaseTableId_scan: "node_at h n = Some nd \<Longrightarrow> kind nd = RelScan td fs \<Longrightarrow> findBaseTableId h n = Some (node_id nd)"
  by (subst findBaseTableId.simps) simp

lemma schema_scan: "node_at h n = Some nd \<Longrightarrow> kind nd = RelScan td fs \<Longrightarrow> buildSchemaFromSource h n = Some ([(node_id nd, length fs)], fs)"
  by (subst buildSchemaFromSource.simps) simp

lemma schema_filter:
  "node_at h n = Some nd \<Longrightarrow> kind nd = RelFilter c \<Longrightarrow> inputs nd = [m] \<Longrightarrow> buildSchemaFromSource h n = buildSchemaFromSource h m"
  by (subst buildSchemaFromSource.simps) simp

lemma schema_join:
  "node_at h n = Some nd \<Longrightarrow> kind nd = RelJoin c j \<Longrightarrow> inputs nd = [l, r] \<Longrightarrow> buildSchemaFromSource h l = Some a \<Longrightarrow> buildSchemaFromSource h r = Some b \<Longrightarrow>
    buildSchemaFromSource h n = Some (fst a @ fst b, snd a @ snd b)"
  by (subst buildSchemaFromSource.simps) (cases a; cases b; simp)

lemma schema_compound:
  "node_at h n = Some nd \<Longrightarrow> kind nd = RelCompound f ts g as fs a ss \<Longrightarrow> inputs nd = [m] \<Longrightarrow> node_at h m = Some md \<Longrightarrow> kind md = RelScan td gs \<Longrightarrow>
    buildSchemaFromSource h n = Some ([(node_id md, length ts)], fs)"
  by (subst buildSchemaFromSource.simps) (simp add: findBaseTableId_scan)

lemmas schema_steps = schema_scan schema_filter schema_join schema_compound

lemma leaves_schema: "leaves h n xs \<Longrightarrow> leaves_ok h xs \<Longrightarrow> buildSchemaFromSource h n = Some (schema_of h xs)"
proof (induction rule: leaves.induct)
  case (leaf_scan n nd td fs)
  then show ?case by (simp add: schema_scan schema_of_def names_of_def)
next
  case (leaf_compound n nd f ts g as fs a ss m md td gs)
  then show ?case by (simp add: schema_compound schema_of_def names_of_def leaves_ok_def leaf_ok_def)
next
  case (leaf_join n nd c j l r xs ys)
  then show ?case using schema_join [OF leaf_join(1-3)] by (simp add: prod_eq_iff)
next
  case (leaf_filter n nd c m xs)
  then show ?case by (simp add: schema_filter)
qed

lemma locate_bound: "locate ts i = Some (t, c) \<Longrightarrow> \<exists>n. (t, n) \<in> set ts \<and> c < n"
  by (induction ts i rule: locate.induct) (auto split: if_splits)

section \<open>Rows\<close>

definition row_ok :: "'v sem \<Rightarrow> ra_store \<Rightarrow> (node_ptr \<Rightarrow> nat \<Rightarrow> 'v) \<Rightarrow> bool" where
  "row_ok S h env \<longleftrightarrow> (\<forall>n nd. node_at h n = Some nd \<longrightarrow> (case kind nd of
      RelJoin c j \<Rightarrow> (\<forall>l r xs i. inputs nd = [l, r] \<longrightarrow> leaves h l xs \<longrightarrow>
          env n i = (if i < length (snd (schema_of h xs)) then env l i else env r (i - length (snd (schema_of h xs)))))
    | RelFilter c \<Rightarrow> (case inputs nd of [m] \<Rightarrow> env n = env m | _ \<Rightarrow> True)
    | RelCompound f ts g as fs a ss \<Rightarrow> (\<forall>p<length ts. case ts ! p of Inl q \<Rightarrow> env n p = eval S env (ss ! q) | Inr q \<Rightarrow> True)
    | _ \<Rightarrow> True))"

lemma row_join:
  assumes "row_ok S h env" "node_at h n = Some nd" "kind nd = RelJoin c j" "inputs nd = [l, r]" "leaves h l xs"
  shows "env n i = (if i < length (snd (schema_of h xs)) then env l i else env r (i - length (snd (schema_of h xs))))"
proof -
  have "\<forall>l r xs i. inputs nd = [l, r] \<longrightarrow> leaves h l xs \<longrightarrow>
      env n i = (if i < length (snd (schema_of h xs)) then env l i else env r (i - length (snd (schema_of h xs))))"
    using assms(1-3) unfolding row_ok_def by fastforce
  then show ?thesis using assms(4,5) by blast
qed

lemma row_filter:
  assumes "row_ok S h env" "node_at h n = Some nd" "kind nd = RelFilter c" "inputs nd = [m]"
  shows "env n = env m"
  using assms by (force simp: row_ok_def)

lemma row_compound:
  assumes "row_ok S h env" "node_at h n = Some nd" "kind nd = RelCompound f ts g as fs a ss" "p < length ts" "ts ! p = Inl q"
  shows "env n p = eval S env (ss ! q)"
proof -
  have "\<forall>p<length ts. case ts ! p of Inl q \<Rightarrow> env n p = eval S env (ss ! q) | Inr q \<Rightarrow> True"
    using assms(1-3) unfolding row_ok_def by fastforce
  then show ?thesis using assms(4,5) by auto
qed

text \<open>A column of a node is a column of one of its leaves.\<close>

lemma leaves_value:
  assumes "leaves h n xs" "leaves_ok h xs" "row_ok S h env" "locate (fst (schema_of h xs)) i = Some (t, c)"
  shows "\<exists>l. (t, l) \<in> set xs \<and> env n i = env l c"
  using assms
proof (induction arbitrary: i rule: leaves.induct)
  case (leaf_join n nd d j l r xs ys)
  define k where "k = sum_list (map snd (fst (schema_of h xs)))"
  have val: "env n i = (if i < k then env l i else env r (i - k))"
    using row_join [OF leaf_join.prems(2) leaf_join(1-4), of i] by (simp add: schema_of_length k_def)
  show ?case
  proof (cases "i < k")
    case True
    then have "locate (fst (schema_of h xs)) i = Some (t, c)" using leaf_join.prems(3) by (simp add: locate_append k_def)
    then show ?thesis using leaf_join.IH(1) [of i] leaf_join.prems(1,2) val True by auto
  next
    case False
    then have "locate (fst (schema_of h ys)) (i - k) = Some (t, c)" using leaf_join.prems(3) by (simp add: locate_append k_def)
    then show ?thesis using leaf_join.IH(2) [of "i - k"] leaf_join.prems(1,2) val False by auto
  qed
next
  case (leaf_filter n nd d m xs)
  then show ?case using row_filter [OF leaf_filter.prems(2) leaf_filter(1-3)] by simp
qed (auto split: if_splits)

lemma leaves_value_of:
  assumes "leaves h n xs" "leaves_ok h xs" "row_ok S h env" "locate (fst (schema_of h xs)) i = Some (t, c)"
    and "set xs \<subseteq> set lvs" "distinct (map fst lvs)"
  shows "env n i = env (the (map_of lvs t)) c"
proof -
  obtain l where "(t, l) \<in> set xs" "env n i = env l c" using leaves_value [OF assms(1-4)] by blast
  moreover have "map_of lvs t = Some l" using assms(5,6) calculation(1) by (auto intro: map_of_is_SomeI)
  ultimately show ?thesis by simp
qed

text \<open>A compound is below a node exactly when it is one of its leaves.\<close>

lemma leaves_compound_below:
  assumes "leaves h n xs" "store_ok h" "node_at h x = Some xd" "kind xd = RelCompound f ts g as fs a ss"
  shows "(x, n) \<in> (input_rel h)\<^sup>* \<longleftrightarrow> x \<in> snd ` set xs"
  using assms(1)
proof (induction rule: leaves.induct)
  case (leaf_scan n nd td fs)
  then show ?case using below_iff [OF leaf_scan(1), of x] store_okD(3) [OF assms(2) leaf_scan(1)] assms(3,4) by auto
next
  case (leaf_compound n nd f ts g as fs a ss m md td gs)
  have "(x, m) \<notin> (input_rel h)\<^sup>*"
    using below_iff [OF leaf_compound(4), of x] store_okD(3) [OF assms(2) leaf_compound(4)] assms(3,4) leaf_compound(4,5) by auto
  then show ?case using below_iff [OF leaf_compound(1), of x] leaf_compound(3) by auto
next
  case (leaf_join n nd c j l r xs ys)
  then show ?case using below_iff [OF leaf_join(1), of x] assms(3,4) by auto
next
  case (leaf_filter n nd c m xs)
  then show ?case using below_iff [OF leaf_filter(1), of x] assms(3,4) by auto
qed

section \<open>A plan with an inserted compound\<close>

text \<open>The new conditions and projections keep the class of their node.\<close>

definition same_class :: "RelKind \<Rightarrow> RelKind \<Rightarrow> bool" where
  "same_class k k' \<longleftrightarrow> k' = k \<or> (\<exists>c c'. k = RelFilter c \<and> k' = RelFilter c') \<or> (\<exists>es fs es' fs'. k = RelProject es fs \<and> k' = RelProject es' fs')"

definition compound_node :: "nat \<Rightarrow> node_ptr \<Rightarrow> RexScalar \<Rightarrow> column list \<Rightarrow> RelAlgNode" where
  "compound_node i scan p cols = \<lparr>node_id = i, inputs = [scan],
     kind = RelCompound p (map Inl [0..<length cols]) 0 [] (map snd cols) False (map (\<lambda>c. RexInput scan (fst c)) cols)\<rparr>"

definition similar_node :: "RelAlgNode \<Rightarrow> RelAlgNode \<Rightarrow> bool" where
  "similar_node nd nd' \<longleftrightarrow> node_id nd' = node_id nd \<and> inputs nd' = inputs nd \<and> same_class (kind nd) (kind nd')"

definition similar :: "ra_store \<Rightarrow> ra_store \<Rightarrow> bool" where
  "similar h h' \<longleftrightarrow> (\<forall>n. rel_option similar_node (node_at h n) (node_at h' n))"

lemma same_class_refl [simp]: "same_class k k" and same_class_sym: "same_class k k' \<Longrightarrow> same_class k' k"
  by (auto simp: same_class_def)

lemma similar_refl: "similar h h"
  unfolding similar_def by (simp add: option.rel_refl similar_node_def)

lemma similar_sym:
  assumes "similar h h'"
  shows "similar h' h"
  unfolding similar_def
proof
  fix n
  have "rel_option similar_node (node_at h n) (node_at h' n)" using assms by (simp add: similar_def)
  then show "rel_option similar_node (node_at h' n) (node_at h n)" by (cases rule: option.rel_cases) (auto simp: similar_node_def same_class_sym)
qed

lemma similarD:
  assumes "similar h h'" "node_at h n = Some nd"
  shows "\<exists>nd'. node_at h' n = Some nd' \<and> node_id nd' = node_id nd \<and> inputs nd' = inputs nd \<and> same_class (kind nd) (kind nd')"
proof -
  have "rel_option similar_node (Some nd) (node_at h' n)" using assms by (metis similar_def)
  then show ?thesis by (auto simp: option_rel_Some1 similar_node_def)
qed

lemma similar_leaves: "leaves h n xs \<Longrightarrow> similar h h' \<Longrightarrow> leaves h' n xs"
proof (induction rule: leaves.induct)
  case (leaf_scan n nd td fs)
  then obtain nd' where "node_at h' n = Some nd'" "node_id nd' = node_id nd" "kind nd' = RelScan td fs"
    using similarD [OF leaf_scan(3,1)] by (auto simp: same_class_def)
  then show ?case using leaves.leaf_scan [of h' n nd' td fs] by simp
next
  case (leaf_compound n nd f ts g as fs a ss m md td gs)
  then obtain nd' md' where n: "node_at h' n = Some nd'" "inputs nd' = [m]" "kind nd' = RelCompound f ts g as fs a ss"
    and m: "node_at h' m = Some md'" "node_id md' = node_id md" "kind md' = RelScan td gs"
    using similarD [OF leaf_compound(6,1)] similarD [OF leaf_compound(6,4)] by (auto simp: same_class_def)
  show ?case using leaves.leaf_compound [OF n(1,3,2) m(1,3)] m(2) by simp
next
  case (leaf_join n nd c j l r xs ys)
  then obtain nd' where n: "node_at h' n = Some nd'" "inputs nd' = [l, r]" "kind nd' = RelJoin c j"
    using similarD [OF leaf_join.prems leaf_join(1)] by (auto simp: same_class_def)
  show ?case using leaves.leaf_join [OF n(1,3,2)] leaf_join.IH leaf_join.prems by simp
next
  case (leaf_filter n nd c m xs)
  then obtain nd' c' where n: "node_at h' n = Some nd'" "inputs nd' = [m]" "kind nd' = RelFilter c'"
    using similarD [OF leaf_filter.prems leaf_filter(1)] by (auto simp: same_class_def)
  show ?case using leaves.leaf_filter [OF n(1,3,2)] leaf_filter.IH leaf_filter.prems by simp
qed

lemma similar_names:
  assumes "similar h h'"
  shows "names_of h' n = names_of h n"
proof -
  have "rel_option similar_node (node_at h n) (node_at h' n)" using assms by (simp add: similar_def)
  then show ?thesis by (cases rule: option.rel_cases) (auto simp: names_of_def similar_node_def same_class_def)
qed

lemma similar_schema: "similar h h' \<Longrightarrow> schema_of h' xs = schema_of h xs"
  by (simp add: schema_of_def similar_names cong: map_cong)

lemma similar_row:
  assumes "similar h h'" "row_ok S h' env"
  shows "row_ok S h env"
  unfolding row_ok_def
proof (intro allI impI)
  fix n nd
  assume nd: "node_at h n = Some nd"
  obtain nd' where n: "node_at h' n = Some nd'" "inputs nd' = inputs nd" "same_class (kind nd) (kind nd')" using similarD [OF assms(1) nd] by blast
  have row: "case kind nd' of
      RelJoin c j \<Rightarrow> (\<forall>l r xs i. inputs nd' = [l, r] \<longrightarrow> leaves h' l xs \<longrightarrow>
          env n i = (if i < length (snd (schema_of h' xs)) then env l i else env r (i - length (snd (schema_of h' xs)))))
    | RelFilter c \<Rightarrow> (case inputs nd' of [m] \<Rightarrow> env n = env m | _ \<Rightarrow> True)
    | RelCompound f ts g as fs a ss \<Rightarrow> (\<forall>p<length ts. case ts ! p of Inl q \<Rightarrow> env n p = eval S env (ss ! q) | Inr q \<Rightarrow> True)
    | _ \<Rightarrow> True"
    using assms(2) n(1) unfolding row_ok_def by blast
  show "case kind nd of
      RelJoin c j \<Rightarrow> (\<forall>l r xs i. inputs nd = [l, r] \<longrightarrow> leaves h l xs \<longrightarrow>
          env n i = (if i < length (snd (schema_of h xs)) then env l i else env r (i - length (snd (schema_of h xs)))))
    | RelFilter c \<Rightarrow> (case inputs nd of [m] \<Rightarrow> env n = env m | _ \<Rightarrow> True)
    | RelCompound f ts g as fs a ss \<Rightarrow> (\<forall>p<length ts. case ts ! p of Inl q \<Rightarrow> env n p = eval S env (ss ! q) | Inr q \<Rightarrow> True)
    | _ \<Rightarrow> True"
  proof (cases "kind nd")
    case (RelJoin c j)
    then have "kind nd' = RelJoin c j" using n(3) by (auto simp: same_class_def)
    then show ?thesis using row RelJoin n(2) similar_leaves [OF _ assms(1)] unfolding similar_schema [OF assms(1)] by simp
  qed (use row n(2,3) in \<open>auto simp: same_class_def\<close>)
qed

locale insertion =
  fixes S :: "'v sem" and h h' :: ra_store and env env' :: "node_ptr \<Rightarrow> nat \<Rightarrow> 'v" and scan :: node_ptr and scan_id :: nat
    and out :: node_ptr and k :: nat and new :: node_ptr and p :: RexScalar and cols :: "column list"
    and lvs :: "(nat \<times> node_ptr) list" and lv :: "node_ptr \<Rightarrow> (nat \<times> node_ptr) list" and srcs :: "node_ptr set"
    and od od' sd :: RelAlgNode and new_id :: nat and jc :: RexScalar and jt :: JoinType and td :: TableDescriptor and fs :: "string list"
  assumes store: "store_ok h" "store_ok h'"
    and old: "node_at h n = Some nd \<Longrightarrow> n \<noteq> out \<Longrightarrow>
      \<exists>nd'. node_at h' n = Some nd' \<and> node_id nd' = node_id nd \<and> inputs nd' = inputs nd \<and> same_class (kind nd) (kind nd')"
    and out: "node_at h out = Some od" "kind od = RelJoin jc jt" "getInput h out k = Some scan" "distinct (inputs od)"
      "node_at h' out = Some od'" "kind od' = kind od" "node_id od' = node_id od" "inputs od' = replace_first scan new (inputs od)"
    and new: "node_at h new = None" "node_at h' new = Some (compound_node new_id scan p cols)" "'''' \<notin> snd ` set cols"
    and scan: "node_at h scan = Some sd" "kind sd = RelScan td fs" "node_id sd = scan_id"
    and parent: "node_at h n = Some nd \<Longrightarrow> scan \<in> set (inputs nd) \<Longrightarrow> n = out"
    and ids: "inj_on (getId h) (dom (node_at h))"
    and lvs: "distinct (map fst lvs)" "0 \<notin> fst ` set lvs" "leaves_ok h lvs" "(scan_id, scan) \<in> set lvs"
    and srcs: "s \<in> srcs \<Longrightarrow> leaves h s (lv s)" "s \<in> srcs \<Longrightarrow> set (lv s) \<subseteq> set lvs" "s \<in> srcs \<Longrightarrow> distinct (map fst (lv s))"
    and rows: "row_ok S h env" "row_ok S h' env'" "x \<in> set lvs \<Longrightarrow> env' (snd x) = env (snd x)"
    and and_law: "s_true S (s_op S kAND vs) \<longleftrightarrow> (\<forall>v\<in>set vs. s_true S v)"
begin

abbreviation repl :: "nat \<times> node_ptr \<Rightarrow> nat \<times> node_ptr" where
  "repl \<equiv> \<lambda>x. (fst x, if snd x = scan then new else snd x)"

lemma scan_not_out: "scan \<noteq> out" and new_not_old: "new \<noteq> scan" "new \<noteq> out"
  using scan(1,2) out(1,2) new(1) by auto

lemma leaves_dom: "leaves h n xs \<Longrightarrow> n \<in> dom (node_at h) \<and> snd ` set xs \<subseteq> dom (node_at h)"
  by (induction rule: leaves.induct) auto

lemma out_inputs: "\<exists>l r. inputs od = [l, r] \<and> l \<noteq> r \<and> (k = 0 \<and> l = scan \<or> k = 1 \<and> r = scan)"
proof -
  have "length (inputs od) = 2" using store_okD(3) [OF store(1) out(1)] out(2) by simp
  then obtain l r where "inputs od = [l, r]" by (auto simp: numeral_2_eq_2 length_Suc_conv)
  then show ?thesis using out(1,3,4) by (auto simp: getInput_def less_Suc_eq split: if_splits)
qed

lemma leaf_unique: "(scan_id, l) \<in> set lvs \<Longrightarrow> l = scan"
  using lvs(1,4) by (auto dest: eq_key_imp_eq_value)

lemma leaves_scan: "leaves h scan xs \<Longrightarrow> xs = [(scan_id, scan)]"
  using scan by (auto elim: leaves.cases)

lemma scan_kept: "\<exists>sd'. node_at h' scan = Some sd' \<and> node_id sd' = scan_id \<and> inputs sd' = [] \<and> kind sd' = RelScan td fs"
  using old [OF scan(1) scan_not_out] scan store_okD(3) [OF store(1) scan(1)] by (auto simp: same_class_def)

lemma new_leaf: "leaves h' new [(scan_id, new)]"
proof -
  obtain sd' where "node_at h' scan = Some sd'" "node_id sd' = scan_id" "kind sd' = RelScan td fs" using scan_kept by blast
  then show ?thesis using leaves.leaf_compound [where a = False and m = scan and md = sd', OF new(2)] by (simp add: compound_node_def)
qed

text \<open>Above the scan the compound takes its place among the leaves.\<close>

lemma leaves_out:
  assumes "inputs od = [l, r]" "leaves h l xs" "leaves h r ys" "l \<noteq> scan \<Longrightarrow> leaves h' l (map repl xs)" "r \<noteq> scan \<Longrightarrow> leaves h' r (map repl ys)"
  shows "leaves h' out (map repl (xs @ ys))"
proof -
  have k: "kind od' = RelJoin jc jt" using out(2,6) by simp
  show ?thesis
  proof (cases "l = scan")
    case True
    then have "xs = [(scan_id, scan)]" "r \<noteq> scan" "inputs od' = [new, r]" using leaves_scan assms(1,2) out_inputs out(8) by auto
    then show ?thesis using leaves.leaf_join [OF out(5) k _ new_leaf assms(5)] by simp
  next
    case False
    then have "ys = [(scan_id, scan)]" "inputs od' = [l, new]" using leaves_scan assms(1,3) out_inputs out(8) by auto
    then show ?thesis using leaves.leaf_join [OF out(5) k _ assms(4) [OF False] new_leaf] by simp
  qed
qed

lemma leaves_repl:
  assumes "leaves h n xs" "n \<noteq> scan"
  shows "leaves h' n (map repl xs)"
  using assms
proof (induction rule: leaves.induct)
  case (leaf_scan n nd td fs)
  then have "n \<noteq> out" using out(1,2) by auto
  then obtain nd' where "node_at h' n = Some nd'" "node_id nd' = node_id nd" "kind nd' = RelScan td fs"
    using old [OF leaf_scan(1)] leaf_scan(2) by (auto simp: same_class_def)
  then show ?case using leaf_scan(3) leaves.leaf_scan [of h' n nd' td fs] by simp
next
  case (leaf_compound n nd f ts g as fs a ss m md td gs)
  have "n \<noteq> out" "m \<noteq> out" using leaf_compound(1,2,4,5) out(1,2) by auto
  then obtain nd' md' where n: "node_at h' n = Some nd'" "inputs nd' = [m]" "kind nd' = RelCompound f ts g as fs a ss"
    and m: "node_at h' m = Some md'" "node_id md' = node_id md" "kind md' = RelScan td gs"
    using old [OF leaf_compound(1)] old [OF leaf_compound(4)] leaf_compound(2,3,5) by (auto simp: same_class_def)
  show ?case using leaves.leaf_compound [OF n(1,3,2) m(1,3)] leaf_compound(6) m(2) by simp
next
  case (leaf_join n nd c j l r xs ys)
  show ?case
  proof (cases "n = out")
    case True
    then have "inputs od = [l, r]" using leaf_join(1,3) out(1) by simp
    then show ?thesis using leaves_out [OF _ leaf_join(4,5)] leaf_join.IH True by simp
  next
    case False
    then obtain nd' where n: "node_at h' n = Some nd'" "inputs nd' = [l, r]" "kind nd' = RelJoin c j"
      using old [OF leaf_join(1)] leaf_join(2,3) by (auto simp: same_class_def)
    have "l \<noteq> scan" "r \<noteq> scan" using parent [OF leaf_join(1)] leaf_join(3) False by auto
    then show ?thesis using leaves.leaf_join [OF n(1,3,2)] leaf_join.IH by auto
  qed
next
  case (leaf_filter n nd c m xs)
  have "n \<noteq> out" using leaf_filter(1,2) out(1,2) by auto
  then obtain nd' c' where n: "node_at h' n = Some nd'" "inputs nd' = [m]" "kind nd' = RelFilter c'"
    using old [OF leaf_filter(1)] leaf_filter(2,3) by (auto simp: same_class_def)
  have "m \<noteq> scan" using parent [OF leaf_filter(1)] leaf_filter(3) \<open>n \<noteq> out\<close> by auto
  then show ?case using leaves.leaf_filter [OF n(1,3,2)] leaf_filter.IH by auto
qed

text \<open>The schemas, the values and the connections of the sources.\<close>

definition val :: "nat \<Rightarrow> nat \<Rightarrow> 'v" where
  "val t c = env (the (map_of lvs t)) c"

definition linked :: "node_ptr \<Rightarrow> bool" where
  "linked s \<longleftrightarrow> scan \<in> snd ` set (lv s)"

lemma leaves_ok_lv: "s \<in> srcs \<Longrightarrow> leaves_ok h (lv s)"
  using srcs(2) lvs(3) by (auto simp: leaves_ok_def)

lemma val_scan: "val scan_id c = env scan c"
  using map_of_is_SomeI [OF lvs(1,4)] by (simp add: val_def)

lemma names_new: "names_of h' new = map snd cols"
  using new(2) by (simp add: names_of_def compound_node_def)

lemma leaf_kept:
  assumes "x \<in> set lvs" "leaves h n xs" "x \<in> set xs" "snd x \<noteq> scan"
  shows "names_of h' (snd x) = names_of h (snd x)" "leaf_ok h' (snd x)"
proof -
  have "\<exists>nd. node_at h (snd x) = Some nd \<and> ((\<exists>td fs. kind nd = RelScan td fs) \<or> (\<exists>f ts g as fs a ss. kind nd = RelCompound f ts g as fs a ss))"
    using assms(2,3) by (induction rule: leaves.induct) auto
  then obtain nd where nd: "node_at h (snd x) = Some nd" "(\<exists>td fs. kind nd = RelScan td fs) \<or> (\<exists>f ts g as fs a ss. kind nd = RelCompound f ts g as fs a ss)"
    by blast
  then have "snd x \<noteq> out" using out(1,2) by auto
  then obtain nd' where "node_at h' (snd x) = Some nd'" "kind nd' = kind nd" using old [OF nd(1)] nd(2) by (auto simp: same_class_def)
  then show "names_of h' (snd x) = names_of h (snd x)" "leaf_ok h' (snd x)"
    using nd(1) lvs(3) assms(1) by (auto simp: names_of_def leaves_ok_def leaf_ok_def)
qed

lemma new_leaf_ok: "leaf_ok h' new"
  using new(2,3) names_new by (auto simp: leaf_ok_def compound_node_def)

lemma repl_ok:
  assumes "leaves h n xs" "set xs \<subseteq> set lvs"
  shows "leaves_ok h' (map repl xs)" "fst (schema_of h' (map repl xs)) = narrow scan_id (length cols) (fst (schema_of h xs))"
proof -
  have one: "leaf_ok h' (snd (repl x))" if "x \<in> set xs" for x
    using that assms(2) leaf_kept(2) [OF _ assms(1) that] new_leaf_ok by (cases "snd x = scan") auto
  then show "leaves_ok h' (map repl xs)" by (auto simp: leaves_ok_def)
  have "fst x = scan_id \<longleftrightarrow> snd x = scan" if "x \<in> set xs" for x
  proof
    assume "fst x = scan_id"
    then show "snd x = scan" using that assms(2) leaf_unique [of "snd x"] by auto
  next
    assume s: "snd x = scan"
    have "leaves h n xs \<Longrightarrow> x \<in> set xs \<Longrightarrow> snd x = scan \<Longrightarrow> fst x = scan_id"
      by (induction rule: leaves.induct) (use scan in auto)
    then show "fst x = scan_id" using assms(1) that s by blast
  qed
  then show "fst (schema_of h' (map repl xs)) = narrow scan_id (length cols) (fst (schema_of h xs))"
    using assms names_new leaf_kept(1) [OF _ assms(1)] by (auto simp: schema_of_def narrow_def)
qed

text \<open>A source without the scan keeps its row.\<close>

lemma row_apart:
  assumes "leaves h n xs" "set xs \<subseteq> set lvs" "scan \<notin> snd ` set xs"
  shows "env' n = env n"
  using assms
proof (induction rule: leaves.induct)
  case (leaf_join n nd c j l r xs ys)
  have "l \<noteq> scan" using leaf_join(4) leaf_join.prems(2) leaves_scan [of xs] by (cases "l = scan") auto
  moreover have "r \<noteq> scan" using leaf_join(5) leaf_join.prems(2) leaves_scan [of ys] by (cases "r = scan") auto
  ultimately have "n \<noteq> out" using out_inputs out(1) leaf_join(1,3) by auto
  then obtain nd' where n: "node_at h' n = Some nd'" "inputs nd' = [l, r]" "kind nd' = RelJoin c j"
    using old [OF leaf_join(1)] leaf_join(2,3) by (auto simp: same_class_def)
  have "map repl xs = xs" using leaf_join.prems(2) by (intro map_idI) auto
  then have l': "leaves h' l xs" using leaves_repl [OF leaf_join(4) \<open>l \<noteq> scan\<close>] by simp
  have "names_of h' (snd x) = names_of h (snd x)" if "x \<in> set xs" for x
    using leaf_kept(1) [OF _ leaf_join(4) that] leaf_join.prems that by (auto simp: image_iff)
  then have "snd (schema_of h' xs) = snd (schema_of h xs)" by (simp add: schema_of_def cong: map_cong)
  then have "env' n i = env n i" for i
    using row_join [OF rows(1) leaf_join(1-4), of i] row_join [OF rows(2) n(1,3,2) l', of i] leaf_join.IH leaf_join.prems by (simp add: image_Un)
  then show ?case by blast
next
  case (leaf_filter n nd c m xs)
  have "n \<noteq> out" using leaf_filter(1,2) out(1,2) by auto
  then obtain nd' c' where n: "node_at h' n = Some nd'" "inputs nd' = [m]" "kind nd' = RelFilter c'"
    using old [OF leaf_filter(1)] leaf_filter(2,3) by (auto simp: same_class_def)
  then show ?case using row_filter [OF rows(1) leaf_filter(1-3)] row_filter [OF rows(2) n(1,3,2)] leaf_filter.IH leaf_filter.prems by simp
qed (use rows(3) in auto)

lemma row_new: "i < length cols \<Longrightarrow> env' new i = env scan (fst (cols ! i))"
  using row_compound [OF rows(2) new(2), of p "map Inl [0..<length cols]" 0 "[]" "map snd cols" False "map (\<lambda>c. RexInput scan (fst c)) cols" i i]
    rows(3) [OF lvs(4)] by (simp add: compound_node_def)

lemma row_above:
  assumes "s \<in> srcs" "s \<noteq> scan" "locate (narrow scan_id (length cols) (fst (schema_of h (lv s)))) j = Some (t, c)"
  shows "env' s j = val t (if t = scan_id then fst (cols ! c) else c)"
proof -
  note s = srcs(1) [OF assms(1)] srcs(2) [OF assms(1)]
  have d: "distinct (map fst (map repl lvs))" using lvs(1) by (simp add: comp_def)
  obtain l where l: "(t, l) \<in> set (map repl (lv s))" "env' s j = env' l c"
    using leaves_value [OF leaves_repl [OF s(1) assms(2)] repl_ok(1) [OF s] rows(2), of j t c] assms(3) repl_ok(2) [OF s] by metis
  then obtain l0 where l0: "(t, l0) \<in> set lvs" "l = (if l0 = scan then new else l0)" using s(2) by auto
  then have v: "val t = env l0" using map_of_is_SomeI [OF lvs(1)] by (auto simp: val_def)
  show ?thesis
  proof (cases "l0 = scan")
    case True
    have t: "t = scan_id"
    proof -
      have "leaves h n xs \<Longrightarrow> (t, scan) \<in> set xs \<Longrightarrow> t = scan_id" for n xs by (induction rule: leaves.induct) (use scan in auto)
      moreover have "(t, scan) \<in> set (lv s)" using l l0 True new_not_old s leaves_dom new(1) by (fastforce split: if_splits)
      ultimately show ?thesis using s(1) by blast
    qed
    have "(t, c) = (t, c) \<and> c < length cols"
      using assms(3) t locate_bound [of "narrow scan_id (length cols) (fst (schema_of h (lv s)))" j t c] by (auto simp: narrow_def split: if_splits)
    then show ?thesis using l(2) l0(2) True t v row_new by simp
  next
    case False
    then have "t \<noteq> scan_id" using l0(1) leaf_unique by auto
    then show ?thesis using l(2) l0 False v rows(3) [OF l0(1)] by simp
  qed
qed

lemma connected_linked:
  assumes "s \<in> srcs"
  shows "connected_source h' new s = Some (linked s)"
proof -
  note s = srcs(1) [OF assms]
  have dom: "s \<in> dom (node_at h')" using leaves_dom [OF s] old out(5) by (cases "s = out") force+
  have not_new: "s \<noteq> new" using leaves_dom [OF s] new(1) by auto
  have up: "hasConnection h' new s = Some ((new, s) \<in> (input_rel h')\<^sup>*)"
    and down: "hasConnection h' s new = Some ((s, new) \<in> (input_rel h')\<^sup>*)"
    using hasConnection_decides [OF store(2)] dom new(2) by auto
  obtain sd' where sd': "node_at h' scan = Some sd'" "inputs sd' = []" using scan_kept by blast
  have scan_up: "(new, scan) \<notin> (input_rel h')\<^sup>*" using below_iff [OF sd'(1), of new] sd'(2) new_not_old by simp
  have down_iff: "(s, new) \<in> (input_rel h')\<^sup>* \<longleftrightarrow> s = scan"
    using below_iff [OF new(2), of s] below_iff [OF sd'(1), of s] sd'(2) not_new by (simp add: compound_node_def)
  show ?thesis
  proof (cases "s = scan")
    case True
    then have "linked s" using leaves_scan [of "lv s"] s by (simp add: linked_def)
    then show ?thesis using up down down_iff True scan_up by (simp add: connected_source_def)
  next
    case False
    have "(new, s) \<in> (input_rel h')\<^sup>* \<longleftrightarrow> new \<in> snd ` set (map repl (lv s))"
      using leaves_compound_below [where a = False, OF leaves_repl [OF s False] store(2) new(2)] by (simp add: compound_node_def)
    moreover have "new \<notin> snd ` set (lv s)" using leaves_dom [OF s] new(1) by auto
    moreover have "new \<in> snd ` set (map repl xs) \<longleftrightarrow> scan \<in> snd ` set xs" if "new \<notin> snd ` set xs" for xs :: "(nat \<times> node_ptr) list"
      using that by (induction xs) auto
    ultimately have "(new, s) \<in> (input_rel h')\<^sup>* \<longleftrightarrow> linked s" unfolding linked_def by blast
    then show ?thesis using up down down_iff False by (simp add: connected_source_def)
  qed
qed

lemma rewriting_insertion:
  "rewriting (\<lambda>s. schema_of h (lv s)) srcs h' S scan scan_id val env env' env' out k new linked cols"
proof unfold_locales
  show "schema_wf (schema_of h (lv s))" if "s \<in> srcs" for s
    using schema_of_wf [OF srcs(3) [OF that] _ leaves_ok_lv [OF that]] srcs(2) [OF that] lvs(2) by blast
  show "env s i = val t c" if "input_of (\<lambda>s. schema_of h (lv s)) srcs s i = Some (t, c)" for s i t c
    using that leaves_value_of [OF srcs(1) leaves_ok_lv rows(1) _ srcs(2) lvs(1)] by (auto simp: input_of_def val_def split: if_splits)
  show "env' scan c = val scan_id c" for c using rows(3) [OF lvs(4)] val_scan by simp
  show "s_true S (s_op S kAND vs) \<longleftrightarrow> (\<forall>v\<in>set vs. s_true S v)" for vs by (rule and_law)
  show "getInput h' out k = Some new" using out_inputs out(5,8) by (auto simp: getInput_def)
  show "connected_source h' new s = Some (linked s)" if "s \<in> srcs" for s by (rule connected_linked [OF that])
  show "getInput h' new 0 = Some scan" using new(2) by (simp add: getInput_def compound_node_def)
  show "getId h' scan = Some scan_id" using scan_kept by (auto simp: getId_def)
  show "\<exists>i. getId h' s = Some i \<and> (i = scan_id \<longleftrightarrow> s = scan)" if s: "s \<in> srcs" for s
  proof -
    obtain nd where nd: "node_at h s = Some nd" using leaves_dom [OF srcs(1) [OF s]] by auto
    then have "getId h' s = Some (node_id nd)" using old [OF nd] out(1,5,7) by (cases "s = out") (auto simp: getId_def)
    moreover have "node_id nd = scan_id \<longleftrightarrow> s = scan"
      using inj_onD [OF ids, of s scan] nd scan(1,3) by (auto simp: getId_def)
    ultimately show ?thesis by blast
  qed
  show "\<exists>n. fst (schema_of h (lv scan)) = [(scan_id, n)]" if "scan \<in> srcs" using leaves_scan [OF srcs(1) [OF that]] by simp
  show "env' s i = env s i" if "s \<in> srcs" "\<not> linked s" for s i
    using row_apart [OF srcs(1) srcs(2)] that by (auto simp: linked_def)
  show "env' s j = val t (if t = scan_id then fst (cols ! c) else c)"
    if "s \<in> srcs" "s \<noteq> scan" "locate (narrow scan_id (length cols) (fst (schema_of h (lv s)))) j = Some (t, c)" for s j t c
    by (rule row_above [OF that])
  show "env' new i = val scan_id (fst (cols ! i))" if "i < length cols" for i using row_new [OF that] val_scan by simp
qed

end

sublocale insertion \<subseteq> rw: rewriting "\<lambda>s. schema_of h (lv s)" srcs h' S scan scan_id val env env' env' out k new linked cols
  by (rule rewriting_insertion)

end
