(* ===== verification/PushExtract.thy ===== *)
theory PushExtract
  imports PushBuild Permutation
begin

text \<open>
  The join graph of a query: \<open>extractHashJoinCol\<close> of \<open>QueryEngine/FilterPushDownSketch.cpp\<close> fills the join
  graph, the join columns and the table positions of the executor (\<open>QueryEngine/RelAlgExecutor.h\<close>), which
  the join ordering reads. The iteration order of an \<open>unordered_map\<close> is not specified; here new nodes
  come last. A \<open>std::set\<close> is a sorted list.
\<close>

section \<open>Node values\<close>

text \<open>\<open>std::to_string\<close> and \<open>std::stoi\<close>, which throws when there is no number or it is out of range.\<close>

definition to_string :: "int \<Rightarrow> string" where
  "to_string i = (if i < 0 then ''-'' @ decimal (nat (- i)) else decimal (nat i))"

definition is_digit :: "char \<Rightarrow> bool" where
  "is_digit c \<longleftrightarrow> 48 \<le> (of_char c :: nat) \<and> (of_char c :: nat) \<le> 57"

fun parse_digits :: "nat \<Rightarrow> string \<Rightarrow> nat" where
  "parse_digits acc [] = acc"
| "parse_digits acc (c # cs) = (if is_digit c then parse_digits (10 * acc + (of_char c - 48)) cs else acc)"

definition stoi :: "string \<Rightarrow> int option" where
  "stoi s =
     (let (neg, ds) = (case s of c # cs \<Rightarrow> if c = CHR ''-'' then (True, cs) else (False, s) | [] \<Rightarrow> (False, s));
          v = (if neg then - int (parse_digits 0 ds) else int (parse_digits 0 ds))
      in if ds = [] \<or> \<not> is_digit (hd ds) \<or> v < - 2147483648 \<or> 2147483647 < v then None else Some v)"

text \<open>The key of a table in the join graph, from its table id and its node id, as a \<open>size_t\<close>.\<close>

definition node_value :: "int \<Rightarrow> nat \<Rightarrow> nat option" where
  "node_value table_id n = map_option (\<lambda>v. nat (v mod 18446744073709551616)) (stoi (to_string table_id @ ''88'' @ decimal n))"

section \<open>The executor's state\<close>

record executor =
  ex_graph :: join_graph
  ex_joins :: "nat \<rightharpoonup> join_info list"
  ex_index :: "nat \<rightharpoonup> nat \<times> nat"
  ex_complexity :: "(nat \<times> u32) list"
  ex_materialized :: "nat set"
  ex_predicates :: "nat set"
  ex_sketches :: "nat \<rightharpoonup> FAGMS_Sketch"
  ex_seeds :: "string \<rightharpoonup> Xi_CW2B list \<times> Xi_EH3 list"
  ex_processed :: "nat set"
  ex_filters :: "int \<rightharpoonup> int"
  ex_heap :: heap
  ex_rand :: nat

definition touch_node :: "nat \<Rightarrow> executor \<Rightarrow> executor" where
  "touch_node n ex =
     (if map_of (ex_graph ex) n = None then ex\<lparr>ex_graph := ex_graph ex @ [(n, [])], ex_joins := (ex_joins ex)(n \<mapsto> [])\<rparr> else ex)"

definition emplace_edge :: "nat \<Rightarrow> nat \<Rightarrow> join_graph \<Rightarrow> join_graph" where
  "emplace_edge m n g = map (\<lambda>(k, ns). if k = m then (k, insort_insert n ns) else (k, ns)) g"

definition add_edge :: "nat \<Rightarrow> join_info \<Rightarrow> executor \<Rightarrow> executor" where
  "add_edge m j ex =
     (let ex = touch_node m ex
      in ex\<lparr>ex_graph := emplace_edge m (ji_other_node j) (ex_graph ex), ex_joins := (ex_joins ex)(m \<mapsto> join_nodes_of (ex_joins ex) m @ [j])\<rparr>)"

definition add_index :: "nat \<Rightarrow> int \<Rightarrow> nat \<Rightarrow> executor \<Rightarrow> executor" where
  "add_index n table_id order ex = (if ex_index ex n = None then ex\<lparr>ex_index := (ex_index ex)(n \<mapsto> (nat table_id, order))\<rparr> else ex)"

section \<open>Extraction of the join conditions\<close>

text \<open>The search of the two scans: their order among the scans, their table and their node id.\<close>

fun locate_scans ::
  "ra_store \<Rightarrow> nat \<Rightarrow> nat \<Rightarrow> node_ptr list \<Rightarrow> (nat \<times> int \<times> nat) option \<Rightarrow> (nat \<times> int \<times> nat) option \<Rightarrow> nat \<Rightarrow>
     ((nat \<times> int \<times> nat) option \<times> (nat \<times> int \<times> nat) option) option" where
  "locate_scans h t_lhs t_rhs [] l r t_order = Some (l, r)"
| "locate_scans h t_lhs t_rhs (n # ns) l r t_order =
     do {
       nd \<leftarrow> node_at h n;
       case kind nd of
         RelScan td fs \<Rightarrow>
           (let l = (if l = None \<and> t_lhs = node_id nd then Some (t_order, tableId td, node_id nd) else l);
                r = (if r = None \<and> t_rhs = node_id nd then Some (t_order, tableId td, node_id nd) else r)
            in if l \<noteq> None \<and> r \<noteq> None then Some (l, r) else locate_scans h t_lhs t_rhs ns l r (t_order + 1))
       | _ \<Rightarrow> locate_scans h t_lhs t_rhs ns l r t_order
     }"

definition add_join :: "nat \<times> int \<times> nat \<Rightarrow> nat \<Rightarrow> nat \<times> int \<times> nat \<Rightarrow> nat \<Rightarrow> executor \<Rightarrow> executor option" where
  "add_join l col_id_lhs r col_id_rhs ex =
     (case (l, r) of ((t_order_lhs, t_id_lhs_phy, lhs_node_id), (t_order_rhs, t_id_rhs_phy, rhs_node_id)) \<Rightarrow> do {
        node_lhs \<leftarrow> node_value t_id_lhs_phy lhs_node_id;
        node_rhs \<leftarrow> node_value t_id_rhs_phy rhs_node_id;
        let ex = add_edge node_lhs \<lparr>ji_table = nat t_id_lhs_phy, ji_column = col_id_lhs, ji_other_node = node_rhs,
            ji_other_table = nat t_id_rhs_phy, ji_other_column = col_id_rhs\<rparr> ex;
        let ex = add_edge node_rhs \<lparr>ji_table = nat t_id_rhs_phy, ji_column = col_id_rhs, ji_other_node = node_lhs,
            ji_other_table = nat t_id_lhs_phy, ji_other_column = col_id_lhs\<rparr> ex;
        Some (add_index node_rhs t_id_rhs_phy t_order_rhs (add_index node_lhs t_id_lhs_phy t_order_lhs ex))
      })"

text \<open>The base case of two operands; the flag tells whether a join was recorded.\<close>

definition extract_base ::
  "ra_store \<Rightarrow> node_ptr list \<Rightarrow> RexScalar list \<Rightarrow> executor \<Rightarrow> schema_cache \<Rightarrow> (bool \<times> executor \<times> schema_cache) option" where
  "extract_base h nodes es ex sm =
     (case es of
        [RexInput s_lhs i_lhs, RexInput s_rhs i_rhs] \<Rightarrow> do {
          ((t_id_lhs, name_lhs, col_id_lhs), sm) \<leftarrow> findColumnNameByIndex h s_lhs i_lhs sm;
          ((t_id_rhs, name_rhs, col_id_rhs), sm) \<leftarrow> findColumnNameByIndex h s_rhs i_rhs sm;
          (l, r) \<leftarrow> locate_scans h t_id_lhs t_id_rhs nodes None None 0;
          l \<leftarrow> l;
          r \<leftarrow> r;
          if fst (snd l) < 0 \<or> fst (snd r) < 0 then None
          else if fst l \<noteq> fst r then do { ex \<leftarrow> add_join l col_id_lhs r col_id_rhs ex; Some (True, ex, sm) }
          else Some (False, ex, sm) }
      | _ \<Rightarrow> Some (False, ex, sm))"

function (sequential) extractHashJoinCol ::
    "ra_store \<Rightarrow> node_ptr list \<Rightarrow> RexScalar \<Rightarrow> executor \<Rightarrow> schema_cache \<Rightarrow> (bool \<times> executor \<times> schema_cache) option"
  and extract_operands ::
    "ra_store \<Rightarrow> node_ptr list \<Rightarrow> RexScalar list \<Rightarrow> executor \<Rightarrow> schema_cache \<Rightarrow> (bool \<times> executor \<times> schema_cache) option" where
  "extractHashJoinCol h nodes (RexOperator op es ti) ex sm =
     do {
       (found, ex, sm) \<leftarrow> extract_base h nodes es ex sm;
       if found then Some (True, ex, sm) else extract_operands h nodes es ex sm
     }"
| "extractHashJoinCol h nodes (RexFunctionOperator name es ti) ex sm =
     do {
       (found, ex, sm) \<leftarrow> extract_base h nodes es ex sm;
       if found then Some (True, ex, sm) else extract_operands h nodes es ex sm
     }"
| "extractHashJoinCol h nodes (RexSubQuery q) ex sm = Some (False, ex, sm)"
| "extractHashJoinCol h nodes rex ex sm = Some (True, ex, sm)"
| "extract_operands h nodes [] ex sm = Some (True, ex, sm)"
| "extract_operands h nodes (e # es) ex sm =
     do {
       (ret, ex, sm) \<leftarrow> extractHashJoinCol h nodes e ex sm;
       if \<not> ret then Some (False, ex, sm) else extract_operands h nodes es ex sm
     }"
  by pat_completeness auto
termination
  by (relation "measure (case_sum (\<lambda>(h, ns, e, x, m). size e) (\<lambda>(h, ns, es, x, m). size_list size es))") auto

end
