(* ===== verification/PushDown.thy ===== *)
theory PushDown
  imports PushExtract
begin

text \<open>
  The driver of the predicate push-down, \<open>push_down_filter_predicates_sketch\<close> and \<open>evaluateAndPushDown\<close> of
  \<open>QueryEngine/FilterPushDownSketch.cpp\<close>, with the sketch set-up of \<open>findSketchFromTemplates\<close> and the session
  parameters of \<open>Catalog/Catalog.h\<close>. Output and timing are left out. The query engine that runs a filter
  and updates the sketches, the catalog's tuple counts, \<open>rand\<close> and \<open>std::sort\<close> are parameters.
\<close>

section \<open>Session parameters\<close>

text \<open>Single precision, as in \<^const>\<open>round64\<close>.\<close>

definition round32 :: "rat \<Rightarrow> rat" where
  "round32 x =
     (if x = 0 then 0
      else let e = max (ilog2 \<bar>x\<bar> - 23) (- 149) in of_int (round_half_even (x / 2 powi e)) * 2 powi e)"

record SessionInfo =
  table_sketch_templates :: "string \<rightharpoonup> FAGMS_Sketch"
  BucketSize :: u32
  RowNumbers :: u32
  FPD_MIN_TABLE_SIZE :: nat
  FPD_MAX_SELECTIVITY :: rat
  FPD_MAX_SIZE :: nat
  PRE_PROCESSING :: bool

definition session_constants :: "(string \<rightharpoonup> FAGMS_Sketch) \<Rightarrow> SessionInfo" where
  "session_constants templates = \<lparr>table_sketch_templates = templates, BucketSize = 1021, RowNumbers = 11, FPD_MIN_TABLE_SIZE = 200,
     FPD_MAX_SELECTIVITY = round32 (round64 (1 / 20)), FPD_MAX_SIZE = 10000, PRE_PROCESSING = False\<rparr>"

definition getNumTuples :: "(int \<Rightarrow> nat list) \<Rightarrow> int \<Rightarrow> nat" where
  "getNumTuples shard_tuples table_id = fold (\<lambda>shard num_tuples. num_tuples + shard) (shard_tuples table_id) 0"

section \<open>Sketches of the nodes\<close>

fun seed_rows :: "(nat \<Rightarrow> u32) \<Rightarrow> u32 \<Rightarrow> nat \<Rightarrow> nat \<Rightarrow> (Xi_CW2B list \<times> Xi_EH3 list) \<times> nat" where
  "seed_rows rand buckets 0 r = (([], []), r)"
| "seed_rows rand buckets (Suc n) r =
     (let (I1, r) = RandomGenerate rand r;
          (I2, r) = RandomGenerate rand r;
          tb = Xi_CW2B_assign Xi_CW2B_default (Xi_CW2B_new I1 I2 buckets);
          (I1, r) = RandomGenerate rand r;
          (I2, r) = RandomGenerate rand r;
          tp = Xi_EH3_assign Xi_EH3_default (Xi_EH3_new I1 I2);
          ((tbs, tps), r) = seed_rows rand buckets n r
      in ((tb # tbs, tp # tps), r))"

definition generateSeeds :: "(nat \<Rightarrow> u32) \<Rightarrow> SessionInfo \<Rightarrow> executor \<Rightarrow> (Xi_CW2B list \<times> Xi_EH3 list) \<times> executor" where
  "generateSeeds rand si ex =
     (let (seeds, r) = seed_rows rand (BucketSize si) (unat (RowNumbers si)) (ex_rand ex) in (seeds, ex\<lparr>ex_rand := r\<rparr>))"

definition template_key :: "nat \<Rightarrow> nat \<Rightarrow> nat \<Rightarrow> nat \<Rightarrow> string" where
  "template_key table_id column_id join_table_id join_column_id =
     decimal table_id @ ''--'' @ decimal column_id @ ''--'' @ decimal join_table_id @ ''--'' @ decimal join_column_id"

text \<open>The loop over the joins of a node: one sketch column per join.\<close>

fun sketch_columns :: "(nat \<Rightarrow> u32) \<Rightarrow> SessionInfo \<Rightarrow> nat \<Rightarrow> bool \<Rightarrow> FAGMS_Sketch \<Rightarrow> nat \<Rightarrow> join_info list \<Rightarrow> executor \<Rightarrow> executor option" where
  "sketch_columns rand si table_id no_selection sk idx [] ex = Some ex"
| "sketch_columns rand si table_id no_selection sk idx (j # js) ex =
     do {
       let key = template_key table_id (ji_column j) (ji_other_table j) (ji_other_column j);
       let other_key = template_key (ji_other_table j) (ji_other_column j) table_id (ji_column j);
       ex \<leftarrow> (case table_sketch_templates si key of
           Some sketch_template \<Rightarrow> do { hp \<leftarrow> Copy_Sketch_Template sk sketch_template idx (\<not> no_selection) (ex_heap ex); Some (ex\<lparr>ex_heap := hp\<rparr>) }
         | None \<Rightarrow> (case ex_seeds ex other_key of
               Some seeds \<Rightarrow> do { hp \<leftarrow> Copy_Sketch_Seeds sk seeds idx (ex_heap ex); Some (ex\<lparr>ex_heap := hp\<rparr>) }
             | None \<Rightarrow> do {
                 let (new_seeds, ex) = generateSeeds rand si ex;
                 hp \<leftarrow> Copy_Sketch_Seeds sk new_seeds idx (ex_heap ex);
                 Some (ex\<lparr>ex_heap := hp, ex_seeds := (ex_seeds ex)(key \<mapsto> new_seeds)\<rparr>) }));
       sketch_columns rand si table_id no_selection sk (idx + 1) js ex
     }"

definition findSketchFromTemplates :: "(nat \<Rightarrow> u32) \<Rightarrow> SessionInfo \<Rightarrow> nat \<Rightarrow> nat \<Rightarrow> bool \<Rightarrow> executor \<Rightarrow> executor option" where
  "findSketchFromTemplates rand si node table_id no_selection ex =
     do {
       let joins = join_nodes_of (ex_joins ex) node;
       let ex = ex\<lparr>ex_processed := insert node (ex_processed ex), ex_joins := (ex_joins ex)(node \<mapsto> joins)\<rparr>;
       (sk, hp) \<leftarrow> FAGMS_Sketch_new (BucketSize si) (RowNumbers si) (of_nat (length joins)) (ex_heap ex);
       ex \<leftarrow> sketch_columns rand si table_id no_selection sk 0 joins (ex\<lparr>ex_heap := hp\<rparr>);
       Some (ex\<lparr>ex_sketches := (ex_sketches ex)(node \<mapsto> sk)\<rparr>)
     }"

section \<open>Inserting the filter\<close>

definition makeAndInsertCompound :: "nat \<Rightarrow> nat \<Rightarrow> column list \<Rightarrow> node_ptr list \<Rightarrow> ra_store \<Rightarrow> (node_ptr list \<times> ra_store) option" where
  "makeAndInsertCompound filter_idx output_idx cols nodes h =
     do {
       flt \<leftarrow> list_read nodes filter_idx;
       nd \<leftarrow> node_at h flt;
       filter_rex \<leftarrow> (case kind nd of RelFilter c \<Rightarrow> if c = RexNull then None else Some c | _ \<Rightarrow> None);
       h \<leftarrow> set_kind flt (RelFilter RexNull) h;
       below \<leftarrow> getInput h flt 0;
       if length (inputs nd) \<noteq> 1 then None
       else do {
         let (compound, h) = new_node (RelCompound filter_rex (map Inl [0..<length cols]) 0 [] (map snd cols) False
             (map (\<lambda>c. RexInput below (fst c)) cols)) [below] h;
         out \<leftarrow> list_read nodes output_idx;
         h \<leftarrow> replaceInput out flt compound h;
         Some (nodes[filter_idx := compound], h)
       }
     }"

text \<open>
  \<open>executeRelAlgQueryFPD\<close>: the engine gets the plan, the join columns and the sketch of the node; it
  returns the number of filtered tuples, the number of rows of the result and the updated sketches.
  A result over the threshold is empty.
\<close>

type_synonym engine = "ra_store \<Rightarrow> node_ptr \<Rightarrow> nat list \<Rightarrow> FAGMS_Sketch option \<Rightarrow> heap \<Rightarrow> (int \<times> int \<times> heap) option"

definition executeRelAlgQueryFPD :: "engine \<Rightarrow> ra_store \<Rightarrow> node_ptr \<Rightarrow> nat \<Rightarrow> int \<times> nat \<Rightarrow> executor \<Rightarrow> (int option \<times> executor) option" where
  "executeRelAlgQueryFPD eng h ra fpd_max_count table_id_phy ex =
     do {
       node \<leftarrow> node_value (fst table_id_phy) (snd table_id_phy);
       let cols_to_join = map ji_column (join_nodes_of (ex_joins ex) node);
       let ex = ex\<lparr>ex_joins := (ex_joins ex)(node \<mapsto> join_nodes_of (ex_joins ex) node)\<rparr>;
       (filter_count_all, rows, hp) \<leftarrow> eng h ra cols_to_join (ex_sketches ex node) (ex_heap ex);
       let ex = ex\<lparr>ex_heap := hp, ex_complexity := ex_complexity ex @ [(node, of_int (int (length cols_to_join) * filter_count_all))]\<rparr>;
       Some (if filter_count_all > int fpd_max_count then None else Some rows, ex)
     }"

definition fpd_max_count_of :: "SessionInfo \<Rightarrow> nat \<Rightarrow> nat" where
  "fpd_max_count_of si num_tuples =
     (let fpd_max_count = nat \<lfloor>round32 (round32 (of_nat num_tuples) * FPD_MAX_SELECTIVITY si)\<rfloor>
      in if fpd_max_count > FPD_MAX_SIZE si then FPD_MAX_SIZE si else fpd_max_count)"

definition addPushDownFilter :: "int \<Rightarrow> int \<Rightarrow> executor \<Rightarrow> (int \<times> executor) option" where
  "addPushDownFilter table_id rows ex =
     (if table_id \<ge> 0 \<or> ex_filters ex table_id \<noteq> None then None else Some (rows, ex\<lparr>ex_filters := (ex_filters ex)(table_id \<mapsto> rows)\<rparr>))"

definition executeFilterAndEvaluate :: "engine \<Rightarrow> SessionInfo \<Rightarrow> ra_store \<Rightarrow> node_ptr \<Rightarrow> nat \<Rightarrow> int \<times> nat \<Rightarrow> executor \<Rightarrow> (int \<times> executor) option" where
  "executeFilterAndEvaluate eng si h node num_tuples table_id_phy ex =
     do {
       (execution_result, ex) \<leftarrow> executeRelAlgQueryFPD eng h node (fpd_max_count_of si num_tuples) table_id_phy ex;
       case execution_result of
         Some rows \<Rightarrow> do { i \<leftarrow> getId h node; addPushDownFilter (- int i) rows ex }
       | None \<Rightarrow> Some (- 1, ex)
     }"

section \<open>The three loops of \<open>evaluateAndPushDown\<close>\<close>

definition next_joined :: "ra_store \<Rightarrow> node_ptr list \<Rightarrow> nat \<Rightarrow> bool option" where
  "next_joined h nodes i = do { m \<leftarrow> list_read nodes (i + 1); Some (is_scan h m \<or> is_join h m) }"

definition table_of :: "ra_store \<Rightarrow> node_ptr \<Rightarrow> int option" where
  "table_of h n = do { nd \<leftarrow> node_at h n; case kind nd of RelScan td fs \<Rightarrow> Some (tableId td) | _ \<Rightarrow> None }"

definition table_size_of :: "(node_ptr \<times> nat) list \<Rightarrow> node_ptr \<Rightarrow> u32" where
  "table_size_of table_sizes n = (case map_of table_sizes n of Some s \<Rightarrow> of_nat s | None \<Rightarrow> - 1)"

text \<open>The first loop: the scans with a predicate worth pushing down. The node value is made from the position, not from the node id.\<close>

fun mark_predicates ::
  "SessionInfo \<Rightarrow> (node_ptr \<times> nat) list \<Rightarrow> ra_store \<Rightarrow> node_ptr list \<Rightarrow> nat \<Rightarrow> nat \<Rightarrow> schema_cache \<Rightarrow> executor \<Rightarrow> (schema_cache \<times> executor) option" where
  "mark_predicates si table_sizes h nodes i 0 sm ex = Some (sm, ex)"
| "mark_predicates si table_sizes h nodes i (Suc k) sm ex =
     do {
       n \<leftarrow> list_read nodes i;
       if \<not> is_scan h n then mark_predicates si table_sizes h nodes (i + 1) k sm ex
       else do {
         t \<leftarrow> table_of h n;
         node \<leftarrow> node_value t (i + 1);
         nx \<leftarrow> next_joined h nodes i;
         if \<not> nx then mark_predicates si table_sizes h nodes (i + 1) k sm ex
         else do {
           (filter_expr_new, cols, sm) \<leftarrow> findFilterAndProject h nodes i [] sm;
           let worth = (filter_expr_new \<noteq> RexNull \<and> (PRE_PROCESSING si \<or> FPD_MIN_TABLE_SIZE si \<le> unat (table_size_of table_sizes n)));
           mark_predicates si table_sizes h nodes (i + 1) k sm (if worth then ex\<lparr>ex_predicates := insert node (ex_predicates ex)\<rparr> else ex)
         }
       }
     }"

text \<open>The second loop: a sketch for every scan.\<close>

fun prepare_sketches :: "(nat \<Rightarrow> u32) \<Rightarrow> SessionInfo \<Rightarrow> ra_store \<Rightarrow> node_ptr list \<Rightarrow> nat \<Rightarrow> nat \<Rightarrow> executor \<Rightarrow> executor option" where
  "prepare_sketches rand si h nodes i 0 ex = Some ex"
| "prepare_sketches rand si h nodes i (Suc k) ex =
     do {
       n \<leftarrow> list_read nodes i;
       if \<not> is_scan h n then prepare_sketches rand si h nodes (i + 1) k ex
       else do {
         nx \<leftarrow> next_joined h nodes i;
         if \<not> nx then prepare_sketches rand si h nodes (i + 1) k ex
         else do {
           t \<leftarrow> table_of h n;
           node \<leftarrow> node_value t (i + 1);
           ex \<leftarrow> findSketchFromTemplates rand si node (nat t) (node \<notin> ex_predicates ex) ex;
           prepare_sketches rand si h nodes (i + 1) k ex
         }
       }
     }"

text \<open>
  A table without push-down: its projected columns are cut down to the join columns, in step with the
  sorted set of them; the comparison reads \<open>*it_join\<close> also when that iterator is at the end.
\<close>

fun keep_join_columns :: "nat list \<Rightarrow> column list \<Rightarrow> column list option" where
  "keep_join_columns js [] = Some []"
| "keep_join_columns [] (c # cs) = None"
| "keep_join_columns (j # js) (c # cs) =
     (if fst c = j then map_option ((#) c) (keep_join_columns js cs) else keep_join_columns (j # js) cs)"

definition skip_table :: "nat \<Rightarrow> nat \<Rightarrow> column list \<Rightarrow> executor \<Rightarrow> executor option" where
  "skip_table node num_tuples cols ex =
     do {
       let joins = join_nodes_of (ex_joins ex) node;
       let ex = ex\<lparr>ex_joins := (ex_joins ex)(node \<mapsto> joins)\<rparr>;
       let cols_to_join = sorted_list_of_set (set (map ji_column joins));
       cols \<leftarrow> (if cols_to_join = [] then None else if length cols_to_join = length cols then Some cols else keep_join_columns cols_to_join cols);
       adj \<leftarrow> (if length cols_to_join = length cols then map_of (ex_graph ex) node else None);
       Some (ex\<lparr>ex_complexity := ex_complexity ex @ [(node, of_nat (length adj * num_tuples))]\<rparr>)
     }"

text \<open>The position of the next join, and which of its inputs the scan at \<open>i\<close> is.\<close>

fun next_join :: "ra_store \<Rightarrow> node_ptr list \<Rightarrow> nat \<Rightarrow> nat option" where
  "next_join h [] d = None"
| "next_join h (n # ns) d = (if is_join h n then Some d else next_join h ns (d + 1))"

definition output_of_scan :: "ra_store \<Rightarrow> node_ptr list \<Rightarrow> nat \<Rightarrow> (nat \<times> nat) option" where
  "output_of_scan h nodes i =
     do {
       m \<leftarrow> list_read nodes (i + 1);
       if is_scan h m then do { d \<leftarrow> next_join h (drop (i + 2) nodes) 2; Some (0, d) } else Some (if is_join h m then 1 else 0, 1)
     }"

definition insert_at :: "nat \<Rightarrow> 'a \<Rightarrow> 'a list \<Rightarrow> 'a list" where
  "insert_at i x xs = take i xs @ x # drop i xs"

text \<open>The index at which the search over the complexities stops; without a match it is the last one.\<close>

fun complexity_position :: "nat \<Rightarrow> (nat \<times> u32) list \<Rightarrow> nat option" where
  "complexity_position node [] = None"
| "complexity_position node (c # cs) =
     (if fst c = node then Some 0 else case complexity_position node cs of None \<Rightarrow> Some 0 | Some p \<Rightarrow> Some (Suc p))"

text \<open>One table of the third loop.\<close>

definition push_table ::
  "engine \<Rightarrow> SessionInfo \<Rightarrow> node_ptr \<times> nat \<Rightarrow> node_ptr list \<Rightarrow> ra_store \<Rightarrow> schema_cache \<Rightarrow> executor \<Rightarrow> (node_ptr list \<times> ra_store \<times> schema_cache \<times> executor) option" where
  "push_table eng si table nodes h sm ex =
     do {
       let (scan, num_tuples) = table;
       let i = length (takeWhile (\<lambda>n. n \<noteq> scan) nodes);
       list_read nodes i;
       nx \<leftarrow> next_joined h nodes i;
       t \<leftarrow> (if nx then table_of h scan else None);
       scan_id \<leftarrow> getId h scan;
       (filter_expr_new, cols, sm) \<leftarrow> findFilterAndProject h nodes i [] sm;
       if filter_expr_new = RexNull \<or> \<not> PRE_PROCESSING si \<and> num_tuples < FPD_MIN_TABLE_SIZE si then do {
         node \<leftarrow> node_value t scan_id;
         ex \<leftarrow> skip_table node num_tuples cols ex;
         Some (nodes, h, sm, ex)
       } else do {
         let (flt, h) = new_node (RelFilter filter_expr_new) [scan] h;
         (input_idx, dist) \<leftarrow> output_of_scan h nodes i;
         out \<leftarrow> list_read nodes (i + dist);
         old_input \<leftarrow> getInput h out input_idx;
         h \<leftarrow> replaceInput out old_input flt h;
         let nodes = insert_at (i + 1) flt nodes;
         let dist = dist + 1;
         (nodes, h) \<leftarrow> makeAndInsertCompound (i + 1) (i + dist) cols nodes h;
         node \<leftarrow> node_value t scan_id;
         compound \<leftarrow> list_read nodes (i + 1);
         (num_tuples_filtered, ex) \<leftarrow> executeFilterAndEvaluate eng si h compound num_tuples (t, scan_id) ex;
         if num_tuples_filtered > 0 then do {
           (nodes, h, sm) \<leftarrow> updatePostJoinExprs i (i + dist) input_idx cols nodes h sm;
           Some (nodes, h, Map.empty, ex\<lparr>ex_materialized := insert node (ex_materialized ex)\<rparr>)
         } else do {
           node_to_erase \<leftarrow> getInput h out input_idx;
           h \<leftarrow> replaceInput out node_to_erase old_input h;
           nodes \<leftarrow> erase_at (i + 1) nodes;
           adj \<leftarrow> map_of (ex_graph ex) node;
           p \<leftarrow> complexity_position node (ex_complexity ex);
           Some (nodes, h, sm, ex\<lparr>ex_complexity := (ex_complexity ex)[p := (node, of_nat (length adj * num_tuples))]\<rparr>)
         }
       }
     }"

fun push_tables ::
  "engine \<Rightarrow> SessionInfo \<Rightarrow> (node_ptr \<times> nat) list \<Rightarrow> node_ptr list \<Rightarrow> ra_store \<Rightarrow> schema_cache \<Rightarrow> executor \<Rightarrow> (node_ptr list \<times> ra_store \<times> schema_cache \<times> executor) option" where
  "push_tables eng si [] nodes h sm ex = Some (nodes, h, sm, ex)"
| "push_tables eng si (t # ts) nodes h sm ex =
     do { (nodes, h, sm, ex) \<leftarrow> push_table eng si t nodes h sm ex; push_tables eng si ts nodes h sm ex }"

definition evaluateAndPushDown ::
  "engine \<Rightarrow> (nat \<Rightarrow> u32) \<Rightarrow> SessionInfo \<Rightarrow> (node_ptr \<times> nat) list \<Rightarrow> node_ptr list \<Rightarrow> ra_store \<Rightarrow> schema_cache \<Rightarrow> executor \<Rightarrow>
     (bool \<times> node_ptr list \<times> ra_store \<times> executor) option" where
  "evaluateAndPushDown eng rand si table_sizes nodes h sm ex =
     do {
       (sm, ex) \<leftarrow> mark_predicates si table_sizes h nodes 0 (length nodes) sm ex;
       ex \<leftarrow> prepare_sketches rand si h nodes 0 (length nodes) ex;
       (nodes, h, sm, ex) \<leftarrow> push_tables eng si table_sizes nodes h sm ex;
       Some (True, nodes, h, ex)
     }"

section \<open>The entry point\<close>

fun push_down_from ::
  "engine \<Rightarrow> (nat \<Rightarrow> u32) \<Rightarrow> SessionInfo \<Rightarrow> (int \<Rightarrow> nat list) \<Rightarrow> ((node_ptr \<times> nat) list \<Rightarrow> (node_ptr \<times> nat) list) \<Rightarrow> nat \<Rightarrow> nat \<Rightarrow>
     (node_ptr \<times> nat) list \<Rightarrow> node_ptr list \<Rightarrow> ra_store \<Rightarrow> executor \<Rightarrow> (bool \<times> node_ptr list \<times> ra_store \<times> executor) option" where
  "push_down_from eng rand si cat srt i 0 table_sizes nodes h ex = Some (False, nodes, h, ex)"
| "push_down_from eng rand si cat srt i (Suc k) table_sizes nodes h ex =
     do {
       n \<leftarrow> list_read nodes i;
       nd \<leftarrow> node_at h n;
       case kind nd of
         RelScan td fs \<Rightarrow> do {
           nx \<leftarrow> next_joined h nodes i;
           push_down_from eng rand si cat srt (i + 1) k (if nx then table_sizes @ [(n, getNumTuples cat (tableId td))] else table_sizes) nodes h ex }
       | RelFilter c \<Rightarrow> do {
           m \<leftarrow> getInput h n 0;
           if is_join h m then do {
             (ok, ex, sm) \<leftarrow> extractHashJoinCol h nodes c ex Map.empty;
             if \<not> ok then Some (False, nodes, h, ex) else evaluateAndPushDown eng rand si (srt table_sizes) nodes h sm ex
           } else push_down_from eng rand si cat srt (i + 1) k table_sizes nodes h ex }
       | _ \<Rightarrow> push_down_from eng rand si cat srt (i + 1) k table_sizes nodes h ex
     }"

definition push_down_filter_predicates_sketch ::
  "engine \<Rightarrow> (nat \<Rightarrow> u32) \<Rightarrow> SessionInfo \<Rightarrow> (int \<Rightarrow> nat list) \<Rightarrow> ((node_ptr \<times> nat) list \<Rightarrow> (node_ptr \<times> nat) list) \<Rightarrow>
     node_ptr list \<Rightarrow> ra_store \<Rightarrow> executor \<Rightarrow> (bool \<times> node_ptr list \<times> ra_store \<times> executor) option" where
  "push_down_filter_predicates_sketch eng rand si cat srt nodes h ex = push_down_from eng rand si cat srt 0 (length nodes) [] nodes h ex"

end
