(* ===== verification/PushStep.thy ===== *)
theory PushStep
  imports PushPlan PushDown
begin

text \<open>
  One table of \<open>evaluateAndPushDown\<close> on a whole plan: a tree of joins, a filter over it, a projection over
  the filter, and aggregates, sorts and projections of their results above. The columns that the
  projection and the join conditions need are collected, the filter and the compound are inserted below
  the join, and the expressions above are rewritten.
\<close>

section \<open>Collected columns\<close>

definition named :: "column list \<Rightarrow> bool" where
  "named cols \<longleftrightarrow> (\<forall>c\<in>set cols. snd c \<noteq> '''')"

lemma named_simps [simp]: "named []" "named (c # cs) \<longleftrightarrow> snd c \<noteq> '''' \<and> named cs" "named (cs @ ds) \<longleftrightarrow> named cs \<and> named ds"
  by (auto simp: named_def)

lemma insert_column_names [simp]: "named (insert_column c cols) \<longleftrightarrow> snd c \<noteq> '''' \<and> named cols"
  by (induction cols) auto

lemma fold_insert_names [simp]: "named (fold insert_column cs cols) \<longleftrightarrow> named cs \<and> named cols"
  by (induction cs arbitrary: cols) auto

lemma scan_operands_names: "scan_operands h scan_id es q j tmp sm = Some (j', tmp', sm') \<Longrightarrow> named tmp \<Longrightarrow> named tmp'"
  by (induction h scan_id es q j tmp sm rule: scan_operands.induct) (auto split: bind_splits if_splits)

lemma func_operands_names:
  "findFilterAndProjectFromFuncOper h scan scan_id e tmp sm = Some (r, tmp', sm') \<Longrightarrow> named tmp \<Longrightarrow> named tmp'"
  "func_operands h scan scan_id es tmp sm = Some (rs, tmp', sm') \<Longrightarrow> named tmp \<Longrightarrow> named tmp'"
  by (induction h scan scan_id e tmp sm and h scan scan_id es tmp sm arbitrary: r tmp' sm' and rs tmp' sm'
      rule: findFilterAndProjectFromFuncOper_func_operands.induct) (auto split: bind_splits if_splits)

lemma find_names:
  "findFilterAndProjectFromRex h scan scan_id e cols sm = Some (r, cols', sm') \<Longrightarrow> named cols \<Longrightarrow> named cols'"
  "find_operands h scan scan_id es cols sm = Some (rs, cols', sm') \<Longrightarrow> named cols \<Longrightarrow> named cols'"
  "find_branches h scan scan_id bs cols sm = Some (rbs, cols', sm') \<Longrightarrow> named cols \<Longrightarrow> named cols'"
proof (induction h scan scan_id e cols sm and h scan scan_id es cols sm and h scan scan_id bs cols sm
      arbitrary: r cols' sm' and rs cols' sm' and rbs cols' sm' rule: findFilterAndProjectFromRex_find_operands_find_branches.induct)
  case (3 h scan scan_id name es ti cols sm)
  then show ?case using func_operands_names(2) [of h scan scan_id es "[]" sm]
    by (auto split: bind_splits if_splits)
next
  case (4 h scan scan_id op es ti cols sm)
  obtain j tmp sm1 where s: "(if length es \<ge> 2 then scan_operands h scan_id es 0 False [] sm else Some (False, [], sm)) = Some (j, tmp, sm1)"
    using 4(2) by (auto split: bind_splits)
  have "named tmp" using s scan_operands_names [of h scan_id es 0 False "[]" sm] by (auto split: if_splits)
  then show ?case using 4(1) [OF s refl refl] 4(2,3) s by (auto split: bind_splits if_splits)
qed (auto split: bind_splits if_splits)

context schemas
begin

lemma add_column_ok:
  assumes "L s i = Some (t, c)" "cache_ok sch srcs h sm" "named cols"
  shows "\<exists>cols' sm'. add_column h scan_id s i cols sm = Some (cols', sm') \<and> later sm sm' \<and> s \<in> dom sm' \<and> named cols' \<and>
    fst ` set cols \<subseteq> fst ` set cols' \<and> (t = scan_id \<longrightarrow> c \<in> fst ` set cols')"
proof -
  have g: "getColumnInfoFromScan h s i scan_id sm = Some (col_info s i t c scan_id, sm(s \<mapsto> sch s))" "later sm (sm(s \<mapsto> sch s))"
    using getColumnInfo_ok [OF assms(1,2)] by auto
  show ?thesis
  proof (cases "t = scan_id")
    case True
    then have n: "snd (col_info s i t c scan_id) \<noteq> ''''" "fst (col_info s i t c scan_id) = c"
      using col_info_name [OF assms(1), of scan_id] by (simp_all add: col_info_def)
    then show ?thesis using g assms(3) insert_column_set [of "col_info s i t c scan_id" cols]
      by (auto simp: add_column_def)
  next
    case False
    then show ?thesis using g assms(3) col_info_name [OF assms(1), of scan_id] by (simp add: add_column_def)
  qed
qed

lemma kept_mono:
  shows "kept P sid A e \<Longrightarrow> A \<subseteq> B \<Longrightarrow> kept P sid B e"
    and "kept_list P sid A es \<Longrightarrow> A \<subseteq> B \<Longrightarrow> kept_list P sid B es"
    and "kept_branches P sid A bs \<Longrightarrow> A \<subseteq> B \<Longrightarrow> kept_branches P sid B bs"
  by (induction e and es and bs rule: sources_sources_list_sources_branches.induct) auto

text \<open>All columns of the table that a projection uses are collected.\<close>

lemma getProject_ok:
  shows "kept L scan_id UNIV e \<Longrightarrow> cache_ok sch srcs h sm \<Longrightarrow> named cols \<Longrightarrow>
      \<exists>cols' sm'. getProjectFromRex h scan_id e cols sm = Some (cols', sm') \<and> later sm sm' \<and> sources e \<subseteq> dom sm' \<and> named cols' \<and>
        fst ` set cols \<subseteq> fst ` set cols' \<and> kept L scan_id (fst ` set cols') e"
    and "kept_list L scan_id UNIV es \<Longrightarrow> cache_ok sch srcs h sm \<Longrightarrow> named cols \<Longrightarrow>
      \<exists>cols' sm'. getProjectFromRexes h scan_id es cols sm = Some (cols', sm') \<and> later sm sm' \<and> sources_list es \<subseteq> dom sm' \<and> named cols' \<and>
        fst ` set cols \<subseteq> fst ` set cols' \<and> kept_list L scan_id (fst ` set cols') es"
    and "kept_branches L scan_id UNIV bs \<Longrightarrow> cache_ok sch srcs h sm \<Longrightarrow> named cols \<Longrightarrow>
      \<exists>cols' sm'. getProjectFromBranches h scan_id bs cols sm = Some (cols', sm') \<and> later sm sm' \<and> sources_branches bs \<subseteq> dom sm' \<and> named cols' \<and>
        fst ` set cols \<subseteq> fst ` set cols' \<and> kept_branches L scan_id (fst ` set cols') bs"
proof (induction e and es and bs arbitrary: cols sm and cols sm and cols sm rule: sources_sources_list_sources_branches.induct)
  case (2 s i)
  then obtain t c where "L s i = Some (t, c)" by auto
  then show ?case using add_column_ok [of s i t c sm cols scan_id] 2 by auto
next
  case (6 bs e)
  obtain cols1 sm1 where a: "getProjectFromBranches h scan_id bs cols sm = Some (cols1, sm1)" "later sm sm1" "sources_branches bs \<subseteq> dom sm1" "named cols1"
    "fst ` set cols \<subseteq> fst ` set cols1" "kept_branches L scan_id (fst ` set cols1) bs" using 6(1) [of sm cols] 6(3-5) by auto
  obtain cols2 sm2 where b: "getProjectFromRex h scan_id e cols1 sm1 = Some (cols2, sm2)" "later sm1 sm2" "sources e \<subseteq> dom sm2" "named cols2"
    "fst ` set cols1 \<subseteq> fst ` set cols2" "kept L scan_id (fst ` set cols2) e" using 6(2) [OF _ later_ok [OF a(2)] a(4)] 6(3) by auto
  have "sources_branches bs \<subseteq> dom sm2" "kept_branches L scan_id (fst ` set cols2) bs"
    using later_dom [OF b(2) a(3)] kept_mono(3) [OF a(6) b(5)] by auto
  then show ?case using a b later_trans [OF a(2) b(2)] by auto
next
  case (10 e es)
  obtain cols1 sm1 where a: "getProjectFromRex h scan_id e cols sm = Some (cols1, sm1)" "later sm sm1" "sources e \<subseteq> dom sm1" "named cols1"
    "fst ` set cols \<subseteq> fst ` set cols1" "kept L scan_id (fst ` set cols1) e" using 10(1) [of sm cols] 10(3-5) by auto
  obtain cols2 sm2 where b: "getProjectFromRexes h scan_id es cols1 sm1 = Some (cols2, sm2)" "later sm1 sm2" "sources_list es \<subseteq> dom sm2" "named cols2"
    "fst ` set cols1 \<subseteq> fst ` set cols2" "kept_list L scan_id (fst ` set cols2) es" using 10(2) [OF _ later_ok [OF a(2)] a(4)] 10(3) by auto
  have "sources e \<subseteq> dom sm2" "kept L scan_id (fst ` set cols2) e"
    using later_dom [OF b(2) a(3)] kept_mono(1) [OF a(6) b(5)] by auto
  then show ?case using a b later_trans [OF a(2) b(2)] by auto
next
  case (12 w t bs)
  obtain cols1 sm1 where a: "getProjectFromRex h scan_id w cols sm = Some (cols1, sm1)" "later sm sm1" "sources w \<subseteq> dom sm1" "named cols1"
    "fst ` set cols \<subseteq> fst ` set cols1" "kept L scan_id (fst ` set cols1) w" using 12(1) [of sm cols] 12(4-6) by auto
  obtain cols2 sm2 where b: "getProjectFromRex h scan_id t cols1 sm1 = Some (cols2, sm2)" "later sm1 sm2" "sources t \<subseteq> dom sm2" "named cols2"
    "fst ` set cols1 \<subseteq> fst ` set cols2" "kept L scan_id (fst ` set cols2) t" using 12(2) [OF _ later_ok [OF a(2)] a(4)] 12(4) by auto
  obtain cols3 sm3 where c: "getProjectFromBranches h scan_id bs cols2 sm2 = Some (cols3, sm3)" "later sm2 sm3" "sources_branches bs \<subseteq> dom sm3" "named cols3"
    "fst ` set cols2 \<subseteq> fst ` set cols3" "kept_branches L scan_id (fst ` set cols3) bs" using 12(3) [OF _ later_ok [OF b(2)] b(4)] 12(4) by auto
  have "sources w \<subseteq> dom sm3" "sources t \<subseteq> dom sm3" using later_dom [OF later_trans [OF b(2) c(2)] a(3)] later_dom [OF c(2) b(3)] by auto
  moreover have "kept L scan_id (fst ` set cols3) w" "kept L scan_id (fst ` set cols3) t" "fst ` set cols \<subseteq> fst ` set cols3"
    using kept_mono(1) [OF a(6) order_trans [OF b(5) c(5)]] kept_mono(1) [OF b(6) c(5)] order_trans [OF a(5) order_trans [OF b(5) c(5)]] by simp_all
  moreover have "later sm sm3" using a(2) b(2) c(2) by (blast intro: later_trans)
  moreover have "getProjectFromBranches h scan_id (When w t # bs) cols sm = Some (cols3, sm3)" using a(1) b(1) c(1) by simp
  ultimately show ?case using c(3,4,6) by simp
qed (auto simp: later_refl)

end

section \<open>The shape of a plan\<close>

text \<open>Nodes above the projection that both loops skip.\<close>

definition passed_over :: "ra_store \<Rightarrow> node_ptr \<Rightarrow> bool" where
  "passed_over h n \<longleftrightarrow> (case node_at h n of
      None \<Rightarrow> False
    | Some nd \<Rightarrow> (case kind nd of
          RelProject es fs \<Rightarrow> (case inputs nd of [m] \<Rightarrow> is_aggregate h m \<or> is_project h m | _ \<Rightarrow> False)
        | RelAggregate g as fs \<Rightarrow> True
        | RelSort c l off \<Rightarrow> True
        | _ \<Rightarrow> False))"

definition plan_shape :: "ra_store \<Rightarrow> node_ptr list \<Rightarrow> node_ptr list \<Rightarrow> node_ptr \<Rightarrow> node_ptr \<Rightarrow> node_ptr list \<Rightarrow> RexScalar \<Rightarrow> RexScalar list \<Rightarrow> string list \<Rightarrow> bool" where
  "plan_shape h nodes lower flt prj upper cond es fs \<longleftrightarrow>
     nodes = lower @ flt # prj # upper \<and> distinct nodes \<and> lower \<noteq> [] \<and> is_join h (last lower) \<and>
     (\<exists>fd. node_at h flt = Some fd \<and> kind fd = RelFilter cond \<and> inputs fd = [last lower]) \<and>
     (\<exists>pd. node_at h prj = Some pd \<and> kind pd = RelProject es fs \<and> inputs pd = [flt]) \<and>
     (\<forall>n\<in>set upper. passed_over h n)"

lemma find_skip: "(\<And>n. n \<in> set ns \<Longrightarrow> passed_over h n) \<Longrightarrow> find_from_root h scan scan_id (ns @ rest) f cols sm = find_from_root h scan scan_id rest f cols sm"
proof (induction ns)
  case (Cons n ns)
  have p: "passed_over h n" and IH: "find_from_root h scan scan_id (ns @ rest) f cols sm = find_from_root h scan scan_id rest f cols sm"
    using Cons by auto
  then obtain nd where nd: "node_at h n = Some nd" by (auto simp: passed_over_def split: option.splits)
  show ?case using p IH nd by (cases "kind nd") (auto simp: passed_over_def split: list.splits)
qed simp

lemma update_skip:
  assumes "b \<le> q" "q \<le> length nodes" "\<And>i. b \<le> i \<Longrightarrow> i < q \<Longrightarrow> passed_over h (nodes ! i)"
  shows "update_from q si oi k cols nodes h sm = update_from b si oi k cols nodes h sm"
  using assms
proof (induction q)
  case (Suc q)
  show ?case
  proof (cases "b = Suc q")
    case False
    then have p: "passed_over h (nodes ! q)" and IH: "update_from q si oi k cols nodes h sm = update_from b si oi k cols nodes h sm" using Suc by auto
    then obtain nd where nd: "node_at h (nodes ! q) = Some nd" by (auto simp: passed_over_def split: option.splits)
    have "list_read nodes q = Some (nodes ! q)" using Suc.prems(2) by (simp add: list_read_def)
    then show ?thesis using p IH nd by (cases "kind nd") (auto simp: passed_over_def split: list.splits)
  qed simp
qed simp

lemma is_join_not: "is_join h n \<Longrightarrow> \<not> is_scan h n \<and> \<not> is_aggregate h n \<and> \<not> is_project h n"
  by (auto simp: is_join_def is_scan_def is_aggregate_def is_project_def split: option.splits RelKind.splits)

lemma is_kind_at:
  assumes "node_at h n = Some nd"
  shows "is_scan h n \<longleftrightarrow> (\<exists>td fs. kind nd = RelScan td fs)" "is_join h n \<longleftrightarrow> (\<exists>c j. kind nd = RelJoin c j)"
    "is_aggregate h n \<longleftrightarrow> (\<exists>g as fs. kind nd = RelAggregate g as fs)" "is_project h n \<longleftrightarrow> (\<exists>es fs. kind nd = RelProject es fs)"
  using assms by (auto simp: is_scan_def is_join_def is_aggregate_def is_project_def split: RelKind.splits)

text \<open>The search for the predicate and the columns sees exactly the projection and the filter.\<close>

lemma find_plan:
  assumes "plan_shape h nodes lower flt prj upper cond es fs" "list_read nodes i = Some scan" "getId h scan = Some scan_id"
  shows "findFilterAndProject h nodes i cols sm =
    do { (cols, sm) \<leftarrow> getProjectFromRexes h scan_id es cols sm; findFilterAndProjectFromRex h scan scan_id cond cols sm }"
proof -
  obtain fd pd jd c j where f: "node_at h flt = Some fd" "kind fd = RelFilter cond" and p: "node_at h prj = Some pd" "kind pd = RelProject es fs" "inputs pd = [flt]"
    and j: "node_at h (last lower) = Some jd" "kind jd = RelJoin c j"
    using assms(1) by (auto simp: plan_shape_def is_join_def split: option.splits RelKind.splits)
  have r: "rev nodes = rev upper @ prj # flt # last lower # rev (butlast lower)"
    using assms(1) by (auto simp: plan_shape_def)
  have upper: "passed_over h n" if "n \<in> set (rev upper)" for n using assms(1) that by (simp add: plan_shape_def)
  have "findFilterAndProject h nodes i cols sm = find_from_root h scan scan_id (prj # flt # last lower # rev (butlast lower)) RexNull cols sm"
    unfolding findFilterAndProject_def assms(2,3) bind.bind_lunit r by (rule find_skip [OF upper])
  also have "\<dots> = do { (cols, sm) \<leftarrow> getProjectFromRexes h scan_id es cols sm; findFilterAndProjectFromRex h scan scan_id cond cols sm }"
    using f p j is_kind_at(3,4) [OF f(1)] by (simp split: bind_splits)
  finally show ?thesis .
qed

section \<open>Inserting the compound\<close>

definition inserted :: "ra_store \<Rightarrow> node_ptr \<Rightarrow> node_ptr \<Rightarrow> RelAlgNode \<Rightarrow> RexScalar \<Rightarrow> column list \<Rightarrow> ra_store" where
  "inserted h scan out od p cols = h\<lparr>node_at := (node_at h)(next_ptr h \<mapsto> \<lparr>node_id = crt_id h, inputs = [scan], kind = RelFilter RexNull\<rparr>,
       out \<mapsto> od\<lparr>inputs := replace_first scan (next_ptr h + 1) (inputs od)\<rparr>, next_ptr h + 1 \<mapsto> compound_node (crt_id h + 1) scan p cols),
     next_ptr := next_ptr h + 2, crt_id := crt_id h + 2\<rparr>"

lemma replace_first_twice: "y \<notin> set xs \<Longrightarrow> replace_first y z (replace_first x y xs) = replace_first x z xs"
  by (induction xs) auto

lemma replace_first_nth: "k < length xs \<Longrightarrow> xs ! k = x \<Longrightarrow> distinct xs \<Longrightarrow> replace_first x y xs = xs[k := y]"
proof (induction xs arbitrary: k)
  case (Cons a xs)
  then show ?case by (cases k) auto
qed simp

lemma replaceInput_join:
  assumes "node_at h n = Some nd" "kind nd = RelJoin (RexLiteral l) jt"
  shows "replaceInput n x y h = Some (h\<lparr>node_at := (node_at h)(n \<mapsto> nd\<lparr>inputs := replace_first x y (inputs nd)\<rparr>)\<rparr>)"
  using assms by (cases nd) (simp add: replaceInput_def Let_def)

lemma insert_at_read:
  assumes "i < length nodes"
  shows "list_read (insert_at (i + 1) x nodes) (i + 1) = Some x" "list_read (insert_at (i + 1) x nodes) (i + Suc (Suc d)) = list_read nodes (i + Suc d)"
    "(insert_at (i + 1) x nodes)[i + 1 := y] = insert_at (i + 1) y nodes" "list_read (insert_at (i + 1) x nodes) i = list_read nodes i"
  using assms by (auto simp: insert_at_def list_read_def nth_append min_def list_update_append)

lemma fresh_nodes:
  assumes "store_ok h"
  shows "node_at h (next_ptr h) = None" "node_at h (next_ptr h + 1) = None"
  using store_okD(1) [OF assms, of "next_ptr h"] store_okD(1) [OF assms, of "next_ptr h + 1"] by (cases "node_at h (next_ptr h)"; cases "node_at h (next_ptr h + 1)"; force)+

lemma insert_steps:
  assumes ok: "store_ok h" and out: "node_at h out = Some od" "kind od = RelJoin (RexLiteral l) jt"
    and i: "i < length nodes" "list_read nodes (i + Suc d) = Some out" and p: "p \<noteq> RexNull"
    and h1: "h1 = snd (new_node (RelFilter p) [scan] h)"
  shows "\<exists>h2. replaceInput out scan (next_ptr h) h1 = Some h2 \<and>
    makeAndInsertCompound (i + 1) (i + (Suc d + 1)) cols (insert_at (i + 1) (next_ptr h) nodes) h2 =
      Some (insert_at (i + 1) (next_ptr h + 1) nodes, inserted h scan out od p cols)"
proof -
  define fp where "fp = next_ptr h"
  have ne: "out \<noteq> fp" "out \<noteq> fp + 1" "fp \<notin> set (inputs od)"
    using fresh_nodes [OF ok] out(1) store_okD(2) [OF ok out(1)] by (auto simp: fp_def)
  define h2 where "h2 = h1\<lparr>node_at := (node_at h1)(out \<mapsto> od\<lparr>inputs := replace_first scan fp (inputs od)\<rparr>)\<rparr>"
  have "node_at h1 out = Some od" using out(1) ne(1) by (simp add: h1 new_node_def fp_def)
  then have r: "replaceInput out scan fp h1 = Some h2" using replaceInput_join [OF _ out(2)] by (simp add: h2_def)
  have "replaceInput out fp (fp + 1) (h2\<lparr>node_at := (node_at h2)(fp \<mapsto> \<lparr>node_id = crt_id h, inputs = [scan], kind = RelFilter RexNull\<rparr>,
      fp + 1 \<mapsto> compound_node (crt_id h + 1) scan p cols), next_ptr := fp + 2, crt_id := crt_id h + 2\<rparr>) = Some (inserted h scan out od p cols)"
    using ne out(2) by (subst replaceInput_join [where nd = "od\<lparr>inputs := replace_first scan fp (inputs od)\<rparr>" and l = l and jt = jt])
      (auto simp: h2_def h1 new_node_def inserted_def replace_first_twice fun_upd_twist fp_def [symmetric])
  then have "makeAndInsertCompound (i + 1) (i + (Suc d + 1)) cols (insert_at (i + 1) fp nodes) h2 = Some (insert_at (i + 1) (fp + 1) nodes, inserted h scan out od p cols)"
    using i p ne(1) insert_at_read [OF i(1)]
    by (simp add: makeAndInsertCompound_def h2_def h1 new_node_def set_kind_def getInput_def fp_def [symmetric] compound_node_def fun_upd_twist)
  then show ?thesis using r by (auto simp: fp_def)
qed

text \<open>The new store is well formed: the compound has its place between the scan and the join.\<close>

lemma inserted_ok:
  assumes ok: "store_ok h" and out: "node_at h out = Some od" "kind od = RelJoin c j" "scan \<in> set (inputs od)"
  shows "store_ok (inserted h scan out od p cols)"
proof -
  obtain rank :: "node_ptr \<Rightarrow> nat" where rank: "\<And>n nd m. node_at h n = Some nd \<Longrightarrow> m \<in> set (inputs nd) \<Longrightarrow> rank m < rank n"
    using ok unfolding store_ok_def by blast
  define fp where "fp = next_ptr h"
  define rank' where "rank' = (\<lambda>n. if n = fp \<or> n = fp + 1 then 2 * rank scan + 1 else 2 * rank n)"
  have fresh: "n \<noteq> fp" "n \<noteq> fp + 1" if "n \<in> dom (node_at h)" for n using fresh_nodes [OF ok] that by (auto simp: fp_def)
  have fresh_out: "out \<noteq> fp" "out \<noteq> fp + 1" using fresh [of out] out(1) by auto
  have scan: "scan \<in> dom (node_at h)" using store_okD(2) [OF ok out(1)] out(3) by auto
  have sub: "set (replace_first scan (fp + 1) xs) \<subseteq> insert (fp + 1) (set xs)" "length (replace_first scan (fp + 1) xs) = length xs" for xs
    by (induction xs) auto
  have node: "node_at (inserted h scan out od p cols) = (node_at h)(fp \<mapsto> \<lparr>node_id = crt_id h, inputs = [scan], kind = RelFilter RexNull\<rparr>,
       out \<mapsto> od\<lparr>inputs := replace_first scan (fp + 1) (inputs od)\<rparr>, fp + 1 \<mapsto> compound_node (crt_id h + 1) scan p cols)"
    "next_ptr (inserted h scan out od p cols) = fp + 2" by (simp_all add: inserted_def fp_def)
  have old: "n < fp" "set (inputs nd) \<subseteq> dom (node_at h)" "arity_ok (kind nd) (length (inputs nd))" if "node_at h n = Some nd" for n nd
    using store_okD [OF ok that] by (simp_all add: fp_def)
  have old_rank: "rank' m < rank' n" if "node_at h n = Some nd" "m \<in> set (inputs nd)" for n nd m
    using rank [OF that] fresh [of n] fresh [of m] old(2) [OF that(1)] that by (auto simp: rank'_def)
  have "rank scan < rank out" using rank [OF out(1,3)] .
  then have new_rank: "rank' scan < rank' fp" "rank' scan < rank' (fp + 1)" "rank' (fp + 1) < rank' out"
    using fresh [OF scan] fresh [of out] out(1) by (auto simp: rank'_def)
  have "\<forall>m\<in>set (inputs nd). rank' m < rank' n" if "node_at (inserted h scan out od p cols) n = Some nd" for n nd
  proof (cases "n = out")
    case True
    then have "nd = od\<lparr>inputs := replace_first scan (fp + 1) (inputs od)\<rparr>" using that node(1) fresh_out by simp
    then show ?thesis using sub(1) [of "inputs od"] old_rank [OF out(1)] new_rank True by auto
  next
    case False
    then show ?thesis using that node(1) old_rank new_rank by (auto simp: compound_node_def split: if_splits)
  qed
  moreover have "n < fp + 2 \<and> set (inputs nd) \<subseteq> insert fp (insert (fp + 1) (dom (node_at h))) \<and> arity_ok (kind nd) (length (inputs nd))"
    if "node_at (inserted h scan out od p cols) n = Some nd" for n nd
  proof (cases "n = out")
    case True
    then have "nd = od\<lparr>inputs := replace_first scan (fp + 1) (inputs od)\<rparr>" using that node(1) fresh_out by simp
    then show ?thesis using sub [of "inputs od"] old [OF out(1)] True by auto
  next
    case False
    then show ?thesis using that node(1) old [of n nd] scan by (auto simp: compound_node_def split: if_splits)
  qed
  moreover have "dom (node_at (inserted h scan out od p cols)) = insert fp (insert (fp + 1) (dom (node_at h)))" using node(1) out(1) by auto
  ultimately show ?thesis unfolding store_ok_def node(2) by blast
qed

lemma similar_ok:
  assumes "similar h h'" "next_ptr h' = next_ptr h" "store_ok h"
  shows "store_ok h'"
proof -
  have arity: "arity_ok k n \<longleftrightarrow> arity_ok k' n" if "same_class k k'" for k k' n using that by (cases k) (auto simp: same_class_def)
  have origin: "\<exists>nd. node_at h n = Some nd \<and> inputs nd' = inputs nd \<and> same_class (kind nd) (kind nd')" if "node_at h' n = Some nd'" for n nd'
    using similarD [OF similar_sym [OF assms(1)] that] same_class_sym by metis
  have dom: "dom (node_at h') = dom (node_at h)" using similarD [OF assms(1)] origin by blast
  obtain rank :: "node_ptr \<Rightarrow> nat" where rank: "\<And>n nd m. node_at h n = Some nd \<Longrightarrow> m \<in> set (inputs nd) \<Longrightarrow> rank m < rank n"
    using assms(3) unfolding store_ok_def by blast
  have "\<forall>n nd. node_at h' n = Some nd \<longrightarrow> (\<forall>m\<in>set (inputs nd). rank m < rank n)" using origin rank by metis
  moreover have "n < next_ptr h' \<and> set (inputs nd) \<subseteq> dom (node_at h') \<and> arity_ok (kind nd) (length (inputs nd))" if "node_at h' n = Some nd" for n nd
    using origin [OF that] store_okD [OF assms(3)] assms(2) dom arity by metis
  ultimately show ?thesis unfolding store_ok_def by blast
qed

lemma similar_is_kind: "similar h h' \<Longrightarrow> is_aggregate h n \<Longrightarrow> is_aggregate h' n" "similar h h' \<Longrightarrow> is_project h n \<Longrightarrow> is_project h' n"
  by (auto simp: is_aggregate_def is_project_def same_class_def split: option.splits RelKind.splits dest!: similarD)

lemma similar_passed:
  assumes "similar h h'" "passed_over h n"
  shows "passed_over h' n"
proof -
  obtain nd where nd: "node_at h n = Some nd" using assms(2) by (auto simp: passed_over_def split: option.splits)
  obtain nd' where "node_at h' n = Some nd'" "inputs nd' = inputs nd" "same_class (kind nd) (kind nd')" using similarD [OF assms(1) nd] by blast
  then show ?thesis using assms(2) nd similar_is_kind [OF assms(1)]
    by (cases "kind nd") (auto simp: passed_over_def same_class_def split: list.splits)
qed

section \<open>The nodes above the joins\<close>

definition rewritten :: "ra_store \<Rightarrow> node_ptr \<Rightarrow> RelAlgNode \<Rightarrow> RexScalar \<Rightarrow> node_ptr \<Rightarrow> RelAlgNode \<Rightarrow> RexScalar list \<Rightarrow> string list \<Rightarrow> ra_store" where
  "rewritten h flt fd c prj pd es fs = h\<lparr>node_at := (node_at h)(prj \<mapsto> pd\<lparr>kind := RelProject es fs\<rparr>, flt \<mapsto> fd\<lparr>kind := RelFilter c\<rparr>)\<rparr>"

lemma rewritten_similar:
  assumes "node_at h flt = Some fd" "kind fd = RelFilter c0" "node_at h prj = Some pd" "kind pd = RelProject es0 fs0"
  shows "similar h (rewritten h flt fd c prj pd es fs)" "next_ptr (rewritten h flt fd c prj pd es fs) = next_ptr h"
  using assms by (auto simp: similar_def rewritten_def similar_node_def same_class_def option.rel_refl)

lemma removeEmpty_skip:
  assumes "b \<le> q" "q \<le> length nodes" "\<And>i. b \<le> i \<Longrightarrow> i < q \<Longrightarrow> passed_over h (nodes ! i)" "node_at h flt = Some fd" "kind fd = RelFilter c"
  shows "removeEmptyFilter_from q flt nodes h = removeEmptyFilter_from b flt nodes h"
  using assms(1-3)
proof (induction q)
  case (Suc q)
  show ?case
  proof (cases "b = Suc q")
    case False
    then have p: "passed_over h (nodes ! q)" and IH: "removeEmptyFilter_from q flt nodes h = removeEmptyFilter_from b flt nodes h" using Suc by auto
    then obtain nd where nd: "node_at h (nodes ! q) = Some nd" by (auto simp: passed_over_def split: option.splits)
    have "list_read nodes q = Some (nodes ! q)" using Suc.prems(2) by (simp add: list_read_def)
    then show ?thesis using p IH nd is_kind_at(3,4) [OF assms(4)] assms(5)
      by (cases "kind nd") (auto simp: passed_over_def split: list.splits)
  qed simp
qed simp

lemma removeEmpty_subset: "removeEmptyFilter_from q flt nodes h = Some (nodes', h') \<Longrightarrow> set nodes' \<subseteq> set nodes"
  by (induction q) (auto simp: erase_at_def dest: in_set_takeD in_set_dropD split: bind_splits RelKind.splits if_splits)

lemma update_subset: "update_from q si oi k cols nodes h sm = Some (nodes', h', sm') \<Longrightarrow> set nodes' \<subseteq> set nodes"
proof (induction q arbitrary: nodes h sm)
  case (Suc q)
  obtain n nd where n: "list_read nodes q = Some n" "node_at h n = Some nd" using Suc.prems by (auto split: bind_splits)
  show ?case
  proof (cases "kind nd")
    case (RelFilter c)
    consider (kept) h2 sm1 where "update_from q si oi k cols nodes h2 sm1 = Some (nodes', h', sm')"
      | (removed) h1 nodes2 h2 sm1 where "removeEmptyFilter n nodes h1 = Some (nodes2, h2)" "update_from q si oi k cols nodes2 h2 sm1 = Some (nodes', h', sm')"
      using Suc.prems n RelFilter by (auto split: bind_splits if_splits)
    then show ?thesis
    proof cases
      case kept
      then show ?thesis by (rule Suc.IH)
    next
      case removed
      then show ?thesis using removeEmpty_subset [OF removed(1) [unfolded removeEmptyFilter_def]] Suc.IH [OF removed(2)] by simp
    qed
  qed (use Suc.prems n in \<open>auto dest!: Suc.IH split: bind_splits if_splits\<close>)
qed simp

text \<open>The loop rewrites the projection and the filter of the plan and stops at the join.\<close>

lemma update_plan:
  assumes shape: "plan_shape h nodes lower flt prj upper cond es fs" and fd: "node_at h flt = Some fd" and pd: "node_at h prj = Some pd"
    and scan: "list_read nodes si = Some scan" "getId h scan = Some scan_id" and out: "list_read nodes oi = Some out"
    and run: "updatePostJoinExprs si oi k cols nodes h sm = Some (nodes', h', sm')" and flt: "flt \<in> set nodes'"
  shows "\<exists>es' sm1 r sm2. project_operands h scan_id out k cols es sm = Some (es', sm1) \<and>
    buildNewFilterExpr (rewritten h flt fd RexNull prj pd es' fs) scan_id out k cols cond sm1 = Some (r, sm2) \<and> r \<noteq> RexNull \<and>
    nodes' = nodes \<and> h' = rewritten h flt fd r prj pd es' fs"
proof -
  have nodes: "nodes = lower @ flt # prj # upper" "distinct nodes" "lower \<noteq> []" "is_join h (last lower)"
    and kf: "kind fd = RelFilter cond" "inputs fd = [last lower]" and kp: "kind pd = RelProject es fs" "inputs pd = [flt]"
    and up: "\<forall>n\<in>set upper. passed_over h n"
    using shape fd pd by (auto simp: plan_shape_def)
  define b where "b = length lower"
  have ne: "flt \<noteq> prj" "last lower \<noteq> flt" "last lower \<noteq> prj" using nodes(1-3) by (auto simp: last_in_set)
  have read: "list_read nodes b = Some flt" "list_read nodes (Suc b) = Some prj" "list_read nodes (b - 1) = Some (last lower)" "0 < b"
    using nodes(1,3) by (auto simp: list_read_def b_def nth_append last_conv_nth)
  have up': "passed_over h (nodes ! i)" if "Suc (Suc b) \<le> i" "i < length nodes" for i
  proof -
    have "nodes ! i = upper ! (i - Suc (Suc b))" "i - Suc (Suc b) < length upper" using that nodes(1) by (auto simp: b_def nth_append nth_Cons')
    then show ?thesis using up by simp
  qed
  have "updatePostJoinExprs si oi k cols nodes h sm = update_from (Suc (Suc b)) si oi k cols nodes h sm"
    unfolding updatePostJoinExprs_def using nodes(1) by (intro update_skip up') (simp_all add: b_def)
  then obtain es' sm1 h1 where p: "project_operands h scan_id out k cols es sm = Some (es', sm1)" "set_kind prj (RelProject es' fs) h = Some h1"
    "update_from (Suc b) si oi k cols nodes h1 sm1 = Some (nodes', h', sm')"
    using run read(2) pd kp fd is_kind_at(3,4) [OF fd] kf(1) scan out by (auto split: bind_splits)
  have h1: "h1 = h\<lparr>node_at := (node_at h)(prj \<mapsto> pd\<lparr>kind := RelProject es' fs\<rparr>)\<rparr>" using p(2) pd by (simp add: set_kind_def)
  have fd1: "node_at h1 flt = Some fd" using h1 fd ne(1) by simp
  have h2: "set_kind flt (RelFilter c) h1 = Some (rewritten h flt fd c prj pd es' fs)" for c
    using fd1 by (simp add: set_kind_def h1 rewritten_def)
  have sim: "similar h (rewritten h flt fd c prj pd es' fs)" for c by (rule rewritten_similar(1) [OF fd kf(1) pd kp(1)])
  have id: "getId (rewritten h flt fd RexNull prj pd es' fs) scan = Some scan_id"
    using scan(2) similarD [OF sim] by (auto simp: getId_def) (metis)
  obtain r sm2 where f: "buildNewFilterExpr (rewritten h flt fd RexNull prj pd es' fs) scan_id out k cols cond sm1 = Some (r, sm2)"
    "if r \<noteq> RexNull then \<exists>h3. set_kind flt (RelFilter r) (rewritten h flt fd RexNull prj pd es' fs) = Some h3 \<and> update_from b si oi k cols nodes h3 sm2 = Some (nodes', h', sm')
     else \<exists>nodes2 h3. removeEmptyFilter flt nodes (rewritten h flt fd RexNull prj pd es' fs) = Some (nodes2, h3) \<and> update_from b si oi k cols nodes2 h3 sm2 = Some (nodes', h', sm')"
    using p(3) read(1) fd1 kf(1) h2 scan(1) id out by (auto split: bind_splits if_splits)
  have node2: "node_at (rewritten h flt fd c prj pd es' fs) flt = Some (fd\<lparr>kind := RelFilter c\<rparr>)" "node_at (rewritten h flt fd c prj pd es' fs) prj = Some (pd\<lparr>kind := RelProject es' fs\<rparr>)"
    for c using ne(1) by (simp_all add: rewritten_def)
  have "r \<noteq> RexNull"
  proof
    assume "r = RexNull"
    then obtain nodes2 h3 where x: "removeEmptyFilter flt nodes (rewritten h flt fd RexNull prj pd es' fs) = Some (nodes2, h3)"
      "update_from b si oi k cols nodes2 h3 sm2 = Some (nodes', h', sm')" using f(2) by auto
    have "removeEmptyFilter flt nodes (rewritten h flt fd RexNull prj pd es' fs) =
        removeEmptyFilter_from (Suc (Suc b)) flt nodes (rewritten h flt fd RexNull prj pd es' fs)"
      unfolding removeEmptyFilter_def using nodes(1) by (intro removeEmpty_skip [OF _ _ _ node2(1)] similar_passed [OF sim] up') (simp_all add: b_def)
    then have "erase_at b nodes = Some nodes2" using x(1) read(2) node2 [of RexNull] kf(2) kp(2) by (auto split: bind_splits)
    then have "nodes2 = lower @ prj # upper" using nodes(1) by (simp add: erase_at_def b_def)
    then show False using update_subset [OF x(2)] flt nodes(1,2) by auto
  qed
  then obtain h3 where h3: "set_kind flt (RelFilter r) (rewritten h flt fd RexNull prj pd es' fs) = Some h3" "update_from b si oi k cols nodes h3 sm2 = Some (nodes', h', sm')"
    using f(2) by auto
  have h3': "h3 = rewritten h flt fd r prj pd es' fs" using h3(1) ne(1) by (simp add: set_kind_def rewritten_def)
  obtain b' where b': "b = Suc b'" using read(4) by (cases b) auto
  obtain jd c j where "node_at h (last lower) = Some jd" "kind jd = RelJoin c j" using nodes(4) by (auto simp: is_join_def split: option.splits RelKind.splits)
  then have "node_at h3 (last lower) = Some jd" "kind jd = RelJoin c j" using ne(2,3) by (simp_all add: h3' rewritten_def)
  then have "nodes' = nodes \<and> h' = h3" using h3(2) read(3) b' by simp
  then show ?thesis using p(1) f(1) \<open>r \<noteq> RexNull\<close> h3' by blast
qed

section \<open>The whole step\<close>

lemma next_join_pos: "next_join h ns d = Some e \<Longrightarrow> d \<le> e"
  by (induction ns arbitrary: d) (fastforce split: if_splits)+

lemma output_of_scan_pos: "output_of_scan h nodes i = Some (k, d) \<Longrightarrow> 0 < d"
  using next_join_pos by (fastforce simp: output_of_scan_def split: bind_splits if_splits)

lemma next_join_cong: "(\<And>n. n \<in> set ns \<Longrightarrow> is_join h' n = is_join h n) \<Longrightarrow> next_join h' ns d = next_join h ns d"
  by (induction ns arbitrary: d) auto

lemma output_of_scan_cong:
  assumes "\<And>n. n \<in> set nodes \<Longrightarrow> is_join h' n = is_join h n \<and> is_scan h' n = is_scan h n"
  shows "output_of_scan h' nodes i = output_of_scan h nodes i"
proof -
  have "next_join h' (drop (i + 2) nodes) 2 = next_join h (drop (i + 2) nodes) 2" using assms by (intro next_join_cong) (auto dest: in_set_dropD)
  moreover have "is_join h' (nodes ! (i + 1)) = is_join h (nodes ! (i + 1)) \<and> is_scan h' (nodes ! (i + 1)) = is_scan h (nodes ! (i + 1))" if "i + 1 < length nodes"
    using assms that by simp
  ultimately show ?thesis by (auto simp: output_of_scan_def list_read_def)
qed

text \<open>The join above a scan: over the given input, and over no other.\<close>

definition feeds :: "ra_store \<Rightarrow> node_ptr \<Rightarrow> node_ptr \<Rightarrow> nat \<Rightarrow> bool" where
  "feeds h scan out k \<longleftrightarrow> getInput h out k = Some scan \<and> (\<exists>od l jt. node_at h out = Some od \<and> kind od = RelJoin (RexLiteral l) jt \<and> distinct (inputs od)) \<and>
     (\<forall>n nd. node_at h n = Some nd \<and> scan \<in> set (inputs nd) \<longrightarrow> n = out)"

definition position :: "node_ptr \<Rightarrow> node_ptr list \<Rightarrow> nat" where
  "position n nodes = length (takeWhile (\<lambda>m. m \<noteq> n) nodes)"

lemma position_read: "n \<in> set xs \<Longrightarrow> position n (xs @ ys) < length xs \<and> list_read (xs @ ys) (position n (xs @ ys)) = Some n"
  by (induction xs) (auto simp: position_def list_read_def)

lemma inserted_other:
  assumes "store_ok h" "node_at h n = Some nd" "n \<noteq> out"
  shows "node_at (inserted h scan out od p cols) n = Some nd"
proof -
  have "n \<noteq> next_ptr h" "n \<noteq> next_ptr h + 1" using fresh_nodes [OF assms(1)] assms(2) by auto
  then show ?thesis using assms(2,3) by (simp add: inserted_def)
qed

lemma inserted_shape:
  assumes "store_ok h" "plan_shape h nodes lower flt prj upper cond es fs" "set nodes \<subseteq> dom (node_at h)"
    and "node_at h out = Some od" "kind od = RelJoin c j" "i < length lower" "lower ! i \<noteq> last lower"
  shows "plan_shape (inserted h scan out od p cols) (insert_at (i + 1) (next_ptr h + 1) nodes) (insert_at (i + 1) (next_ptr h + 1) lower) flt prj upper cond es fs"
proof -
  let ?h = "inserted h scan out od p cols"
  obtain fd pd where shape: "nodes = lower @ flt # prj # upper" "distinct nodes" "lower \<noteq> []" "is_join h (last lower)"
    "node_at h flt = Some fd" "kind fd = RelFilter cond" "inputs fd = [last lower]" "node_at h prj = Some pd" "kind pd = RelProject es fs" "inputs pd = [flt]"
    "\<forall>n\<in>set upper. passed_over h n" using assms(2) by (auto simp: plan_shape_def)
  have "i \<noteq> length lower - 1" using assms(7) last_conv_nth [OF shape(3)] by auto
  then have i: "Suc i < length lower" using assms(6) by simp
  have out: "node_at ?h out = Some (od\<lparr>inputs := replace_first scan (next_ptr h + 1) (inputs od)\<rparr>)"
    using fresh_nodes [OF assms(1)] assms(4) by (auto simp: inserted_def)
  have other: "node_at ?h n = Some nd" if "node_at h n = Some nd" "n \<noteq> out" for n nd using inserted_other [OF assms(1) that] .
  have kinds: "is_join ?h n = is_join h n" "is_aggregate ?h n = is_aggregate h n" "is_project ?h n = is_project h n" if "n \<in> dom (node_at h)" for n
    using that is_kind_at [of h n] is_kind_at [of ?h n] out other assms(4) by (cases "n = out"; force)+
  have "passed_over ?h n" if n: "n \<in> set upper" for n
  proof -
    obtain nd where nd: "node_at h n = Some nd" "passed_over h n" using shape(1,11) assms(3) n by auto
    then have "n \<noteq> out" using assms(4,5) by (auto simp: passed_over_def)
    then have nd': "node_at ?h n = Some nd" using other nd(1) by simp
    have "set (inputs nd) \<subseteq> dom (node_at h)" by (rule store_okD(2) [OF assms(1) nd(1)])
    then show ?thesis using nd nd' kinds by (cases "kind nd") (auto simp: passed_over_def split: list.splits)
  qed
  moreover have "flt \<noteq> out" "prj \<noteq> out" using shape(5,6,8,9) assms(4,5) by auto
  moreover have "is_join ?h (last lower)" using kinds(1) [of "last lower"] assms(3) shape(1,4) last_in_set [OF shape(3)] by auto
  moreover have "insert_at (i + 1) (next_ptr h + 1) nodes = insert_at (i + 1) (next_ptr h + 1) lower @ flt # prj # upper"
    using shape(1) i by (simp add: insert_at_def)
  moreover have "last (insert_at (i + 1) (next_ptr h + 1) lower) = last lower" using i by (simp add: insert_at_def last_drop)
  moreover have "distinct (insert_at (i + 1) (next_ptr h + 1) nodes)"
  proof -
    have "next_ptr h + 1 \<notin> set nodes" using assms(3) fresh_nodes [OF assms(1)] by auto
    moreover have "distinct (take (i + 1) nodes @ drop (i + 1) nodes)" using shape(2) by simp
    ultimately show ?thesis unfolding insert_at_def distinct_append by (auto dest: in_set_takeD in_set_dropD)
  qed
  ultimately show ?thesis unfolding plan_shape_def using shape other by (auto simp: insert_at_def)
qed

lemma new_filter_kinds: "n \<noteq> next_ptr h \<Longrightarrow> is_join (snd (new_node k ins h)) n = is_join h n \<and> is_scan (snd (new_node k ins h)) n = is_scan h n"
  by (simp add: new_node_def is_join_def is_scan_def)

lemma erase_insert: "i < length nodes \<Longrightarrow> erase_at (i + 1) (insert_at (i + 1) x nodes) = Some nodes"
  by (simp add: erase_at_def insert_at_def)

text \<open>A table with a predicate: the compound is inserted and run; then the plan is rewritten, or restored.\<close>

lemma push_table_eq:
  assumes ok: "store_ok h" and dom: "set nodes \<subseteq> dom (node_at h)" "list_read nodes (position scan nodes) = Some scan"
    and scan: "node_at h scan = Some sd" "kind sd = RelScan td names"
    and out: "output_of_scan h nodes (position scan nodes) = Some (k, d)" "list_read nodes (position scan nodes + d) = Some out" "feeds h scan out k"
      "node_at h out = Some od"
    and find: "findFilterAndProject h nodes (position scan nodes) [] sm = Some (p, cols, sm1)"
    and go: "\<not> (p = RexNull \<or> \<not> PRE_PROCESSING si \<and> m < FPD_MIN_TABLE_SIZE si)"
  shows "push_table eng si (scan, m) nodes h sm ex = do {
    nx \<leftarrow> next_joined h nodes (position scan nodes);
    v \<leftarrow> (if nx then node_value (tableId td) (node_id sd) else None);
    (num, ex) \<leftarrow> executeFilterAndEvaluate eng si (inserted h scan out od p cols) (next_ptr h + 1) m (tableId td, node_id sd) ex;
    if num > 0 then do {
      (nodes, h, sm) \<leftarrow> updatePostJoinExprs (position scan nodes) (position scan nodes + (d + 1)) k cols
        (insert_at (position scan nodes + 1) (next_ptr h + 1) nodes) (inserted h scan out od p cols) sm1;
      Some (nodes, h, Map.empty, ex\<lparr>ex_materialized := insert v (ex_materialized ex)\<rparr>)
    } else do {
      h \<leftarrow> replaceInput out (next_ptr h + 1) scan (inserted h scan out od p cols);
      adj \<leftarrow> map_of (ex_graph ex) v;
      q \<leftarrow> complexity_position v (ex_complexity ex);
      Some (nodes, h, sm1, ex\<lparr>ex_complexity := (ex_complexity ex)[q := (v, of_nat (length adj * m))]\<rparr>)
    } }"
proof -
  define i where "i = position scan nodes"
  have pos: "length (takeWhile (\<lambda>n. n \<noteq> scan) nodes) = i" by (simp add: i_def position_def)
  have i: "i < length nodes" using dom(2) by (auto simp: i_def list_read_def split: if_splits)
  obtain l jt where od: "kind od = RelJoin (RexLiteral l) jt" "getInput h out k = Some scan"
    using out(3,4) by (auto simp: feeds_def getInput_def split: if_splits)
  obtain d' where d: "d = Suc d'" using output_of_scan_pos [OF out(1)] by (cases d) auto
  have notin: "next_ptr h \<notin> set nodes" "next_ptr h \<noteq> out" "next_ptr h + 1 \<noteq> out" using dom(1) fresh_nodes [OF ok] out(4) by auto
  define h1 where "h1 = snd (new_node (RelFilter p) [scan] h)"
  have nn: "new_node (RelFilter p) [scan] h = (next_ptr h, h1)" by (simp add: h1_def new_node_def)
  have "output_of_scan h1 nodes i = output_of_scan h nodes i"
    unfolding h1_def using notin(1) by (intro output_of_scan_cong new_filter_kinds) auto
  then have o1: "output_of_scan h1 nodes i = Some (k, d)" using out(1) by (simp add: i_def)
  have o2: "getInput h1 out k = Some scan" using notin(2) od(2) by (simp add: h1_def getInput_def new_node_def)
  obtain h2 where h2: "replaceInput out scan (next_ptr h) h1 = Some h2"
    "makeAndInsertCompound (i + 1) (i + (d + 1)) cols (insert_at (i + 1) (next_ptr h) nodes) h2 = Some (insert_at (i + 1) (next_ptr h + 1) nodes, inserted h scan out od p cols)"
    using insert_steps [OF ok out(4) od(1) i _ _ h1_def, of d'] out(2) d go by (auto simp: i_def)
  have o3: "getInput (inserted h scan out od p cols) out k = Some (next_ptr h + 1)"
    using out(3,4) notin replace_first_nth [of k "inputs od" scan] by (auto simp: getInput_def inserted_def feeds_def split: if_splits)
  have tab: "table_of h scan = Some (tableId td)" "getId h scan = Some (node_id sd)" using scan by (simp_all add: table_of_def getId_def)
  note facts = go nn o1 o2 o3 h2 out(2) [folded i_def] insert_at_read(1) [OF i, of "next_ptr h + 1"] erase_insert [OF i, of "next_ptr h + 1"]
  consider "next_joined h nodes i = None" | "next_joined h nodes i = Some False" | "next_joined h nodes i = Some True" by (cases "next_joined h nodes i") auto
  then show ?thesis
  proof cases
    case 3
    show ?thesis
      unfolding push_table_def Let_def prod.case pos i_def [symmetric] dom(2) [folded i_def] tab find [folded i_def] 3
      using facts by (cases "node_value (tableId td) (node_id sd)";
        cases "executeFilterAndEvaluate eng si (inserted h scan out od p cols) (next_ptr h + 1) m (tableId td, node_id sd) ex") (auto simp: Let_def split: prod.splits)
  qed (simp_all add: push_table_def Let_def pos i_def [symmetric] dom(2) [folded i_def])
qed

lemma push_table_skip:
  assumes "push_table eng si (scan, m) nodes h sm ex = Some (nodes', h', sm', ex')"
  obtains p cols sm1 where "findFilterAndProject h nodes (position scan nodes) [] sm = Some (p, cols, sm1)"
    "\<not> (p = RexNull \<or> \<not> PRE_PROCESSING si \<and> m < FPD_MIN_TABLE_SIZE si) \<or> nodes' = nodes \<and> h' = h"
proof -
  obtain p cols sm1 where f: "findFilterAndProject h nodes (position scan nodes) [] sm = Some (p, cols, sm1)"
    using assms by (auto simp: push_table_def Let_def position_def split: bind_splits)
  moreover have "nodes' = nodes \<and> h' = h" if "p = RexNull \<or> \<not> PRE_PROCESSING si \<and> m < FPD_MIN_TABLE_SIZE si"
    using assms that f by (auto simp: push_table_def Let_def position_def split: bind_splits)
  ultimately show ?thesis using that by blast
qed

lemma push_table_inv:
  assumes ok: "store_ok h" and shape: "plan_shape h nodes lower flt prj upper cond es fs" and dom: "set nodes \<subseteq> dom (node_at h)"
    and fd: "node_at h flt = Some fd" and pd: "node_at h prj = Some pd"
    and scan: "scan \<in> set lower" "node_at h scan = Some sd" "kind sd = RelScan td names"
    and out: "output_of_scan h nodes (position scan nodes) = Some (k, d)" "list_read nodes (position scan nodes + d) = Some out" "feeds h scan out k"
      "node_at h out = Some od"
    and run: "push_table eng si (scan, m) nodes h sm ex = Some (nodes', h', sm', ex')" and pushed: "next_ptr h + 1 \<in> set nodes'" "flt \<in> set nodes'"
  shows "\<exists>p cols sm1 es' sm2 r sm3. findFilterAndProject h nodes (position scan nodes) [] sm = Some (p, cols, sm1) \<and>
    project_operands (inserted h scan out od p cols) (node_id sd) out k cols es sm1 = Some (es', sm2) \<and>
    buildNewFilterExpr (rewritten (inserted h scan out od p cols) flt fd RexNull prj pd es' fs) (node_id sd) out k cols cond sm2 = Some (r, sm3) \<and>
    h' = rewritten (inserted h scan out od p cols) flt fd r prj pd es' fs"
proof -
  define i where "i = position scan nodes"
  have nodes: "nodes = lower @ flt # prj # upper" "lower \<noteq> []" "is_join h (last lower)" using shape by (auto simp: plan_shape_def)
  have i: "i < length lower" "i < length nodes" "list_read nodes i = Some scan"
    using position_read [OF scan(1), of "flt # prj # upper"] nodes(1) by (auto simp: i_def)
  obtain l jt where od: "kind od = RelJoin (RexLiteral l) jt" "getInput h out k = Some scan" "scan \<in> set (inputs od)"
    using out(3,4) by (auto simp: feeds_def getInput_def split: if_splits)
  have scan_id: "getId h scan = Some (node_id sd)" using scan(2) by (simp add: getId_def)
  obtain d' where d: "d = Suc d'" using output_of_scan_pos [OF out(1)] by (cases d) auto
  have notin: "next_ptr h + 1 \<notin> set nodes" using dom fresh_nodes [OF ok] by auto
  obtain p cols sm1 where f: "findFilterAndProject h nodes (position scan nodes) [] sm = Some (p, cols, sm1)"
    "\<not> (p = RexNull \<or> \<not> PRE_PROCESSING si \<and> m < FPD_MIN_TABLE_SIZE si) \<or> nodes' = nodes \<and> h' = h" by (rule push_table_skip [OF run])
  then have go: "\<not> (p = RexNull \<or> \<not> PRE_PROCESSING si \<and> m < FPD_MIN_TABLE_SIZE si)" using pushed(1) notin by blast
  let ?nodes = "insert_at (i + 1) (next_ptr h + 1) nodes"
  let ?h = "inserted h scan out od p cols"
  have "nodes' = nodes \<or> (\<exists>sm4. updatePostJoinExprs i (i + (d + 1)) k cols ?nodes ?h sm1 = Some (nodes', h', sm4))"
    using run push_table_eq [OF ok dom i(3) [unfolded i_def] scan(2,3) out f(1) go, of eng ex] by (auto simp: i_def split: bind_splits if_splits)
  then obtain sm4 where upd: "updatePostJoinExprs i (i + (d + 1)) k cols ?nodes ?h sm1 = Some (nodes', h', sm4)" using pushed(1) notin by auto
  have not_last: "lower ! i \<noteq> last lower"
  proof -
    have "lower ! i = scan" using i nodes(1) by (simp add: list_read_def nth_append)
    then show ?thesis using is_join_not [OF nodes(3)] is_kind_at(1) [OF scan(2)] scan(3) by auto
  qed
  have shape': "plan_shape ?h ?nodes (insert_at (i + 1) (next_ptr h + 1) lower) flt prj upper cond es fs"
    by (rule inserted_shape [OF ok shape dom out(4) od(1) i(1) not_last])
  have ne: "flt \<noteq> out" "prj \<noteq> out" "scan \<noteq> out"
    using shape fd pd out(4) od(1) scan(2,3) by (auto simp: plan_shape_def)
  have "getId ?h scan = Some (node_id sd)" using inserted_other [OF ok scan(2) ne(3)] by (simp add: getId_def)
  moreover have "list_read ?nodes (i + (d + 1)) = Some out" "list_read ?nodes i = Some scan"
    using insert_at_read [OF i(2)] out(2) i(3) d by (auto simp: i_def)
  ultimately obtain es' sm2 r sm3 where "project_operands ?h (node_id sd) out k cols es sm1 = Some (es', sm2)"
    "buildNewFilterExpr (rewritten ?h flt fd RexNull prj pd es' fs) (node_id sd) out k cols cond sm2 = Some (r, sm3)" "h' = rewritten ?h flt fd r prj pd es' fs"
    using update_plan [OF shape' inserted_other [OF ok fd ne(1)] inserted_other [OF ok pd ne(2)] _ _ _ upd pushed(2)] by blast
  then show ?thesis using f(1) by blast
qed

section \<open>Reverting\<close>

lemma replace_first_back: "y \<notin> set xs \<Longrightarrow> replace_first y x (replace_first x y xs) = xs"
  by (induction xs) auto

lemma evaluate_reverts:
  assumes "executeFilterAndEvaluate eng si h n m t ex = Some (num, ex')"
    and "\<And>h n js sk hp c rows hp'. eng h n js sk hp = Some (c, rows, hp') \<Longrightarrow> int (fpd_max_count_of si m) < c \<or> rows \<le> 0"
  shows "num \<le> 0"
  using assms(1) assms(2) by (fastforce simp: executeFilterAndEvaluate_def executeRelAlgQueryFPD_def addPushDownFilter_def Let_def split: bind_splits if_splits)

lemma inserted_back:
  assumes "store_ok h" "node_at h out = Some od" "kind od = RelJoin (RexLiteral l) jt"
  shows "\<exists>h'. replaceInput out (next_ptr h + 1) scan (inserted h scan out od p cols) = Some h' \<and> (\<forall>n\<in>dom (node_at h). node_at h' n = node_at h n)"
proof -
  let ?od = "od\<lparr>inputs := replace_first scan (next_ptr h + 1) (inputs od)\<rparr>"
  note fresh = fresh_nodes [OF assms(1)]
  have "out \<noteq> next_ptr h + 1" "out \<noteq> next_ptr h" using fresh assms(2) by auto
  then have n: "node_at (inserted h scan out od p cols) out = Some ?od" by (simp add: inserted_def)
  have "next_ptr h + 1 \<notin> set (inputs od)" using store_okD(2) [OF assms(1,2)] fresh(2) by auto
  then have i: "?od\<lparr>inputs := replace_first (next_ptr h + 1) scan (inputs ?od)\<rparr> = od" by (simp add: replace_first_back)
  have k: "kind ?od = RelJoin (RexLiteral l) jt" using assms(3) by simp
  show ?thesis
    unfolding replaceInput_join [OF n k] i using inserted_other [OF assms(1)] assms(2) by auto
qed

text \<open>
  C4. When the engine finds that the predicate of a table keeps too many rows or none, then the plan is
  what it was: the same nodes in the same order, each with the same inputs and expressions.
\<close>
theorem push_table_reverted:
  assumes ok: "store_ok h" and dom: "set nodes \<subseteq> dom (node_at h)" "scan \<in> set nodes" "is_scan h scan"
    and out: "output_of_scan h nodes (position scan nodes) = Some (k, d)" "list_read nodes (position scan nodes + d) = Some out" "feeds h scan out k"
    and eng: "\<forall>h n js sk hp c rows hp'. eng h n js sk hp = Some (c, rows, hp') \<longrightarrow> int (fpd_max_count_of si num_tuples) < c \<or> rows \<le> 0"
    and run: "push_table eng si (scan, num_tuples) nodes h sm ex = Some (nodes', h', sm', ex')"
  shows "nodes' = nodes \<and> (\<forall>n\<in>dom (node_at h). node_at h' n = node_at h n)"
proof -
  obtain p cols sm1 where f: "findFilterAndProject h nodes (position scan nodes) [] sm = Some (p, cols, sm1)"
    "\<not> (p = RexNull \<or> \<not> PRE_PROCESSING si \<and> num_tuples < FPD_MIN_TABLE_SIZE si) \<or> nodes' = nodes \<and> h' = h" by (rule push_table_skip [OF run])
  show ?thesis
  proof (cases "p = RexNull \<or> \<not> PRE_PROCESSING si \<and> num_tuples < FPD_MIN_TABLE_SIZE si")
    case False
    obtain sd td names where sd: "node_at h scan = Some sd" "kind sd = RelScan td names"
      using dom(3) by (auto simp: is_scan_def split: option.splits RelKind.splits)
    obtain od l jt where od: "node_at h out = Some od" "kind od = RelJoin (RexLiteral l) jt" using out(3) by (auto simp: feeds_def)
    have i: "list_read nodes (position scan nodes) = Some scan" using position_read [OF dom(2), of "[]"] by simp
    obtain h3 where h3: "replaceInput out (next_ptr h + 1) scan (inserted h scan out od p cols) = Some h3" "\<forall>n\<in>dom (node_at h). node_at h3 n = node_at h n"
      using inserted_back [OF ok od] by blast
    have "\<not> 0 < num" if "executeFilterAndEvaluate eng si (inserted h scan out od p cols) (next_ptr h + 1) num_tuples (tableId td, node_id sd) ex = Some (num, ex2)" for num ex2
      using evaluate_reverts [OF that] eng by force
    then have "nodes' = nodes \<and> h' = h3"
      using run push_table_eq [OF ok dom(1) i sd out od(1) f(1) False, of eng ex] h3(1) by (fastforce split: bind_splits if_splits)
    then show ?thesis using h3(2) by blast
  qed (use f(2) in auto)
qed

end
