(* ===== verification/PushSound.thy ===== *)
theory PushSound
  imports PushStep
begin

text \<open>
  Soundness of the predicate push-down of one table: the rewritten plan accepts the same rows and
  projects the same values, when the condition is a conjunction of predicates on single tables and of
  join conditions.
\<close>

section \<open>Sources of the expressions\<close>

text \<open>The base table and the column of the inputs of an expression, before the push-down.\<close>

definition locator_of :: "ra_store \<Rightarrow> node_ptr set \<Rightarrow> locator" where
  "locator_of h srcs = input_of (\<lambda>s. the (buildSchemaFromSource h s)) srcs"

definition plan_leaves :: "ra_store \<Rightarrow> node_ptr \<Rightarrow> (nat \<times> node_ptr) list \<Rightarrow> bool" where
  "plan_leaves h n lvs \<longleftrightarrow> leaves h n lvs \<and> distinct (map fst lvs) \<and> 0 \<notin> fst ` set lvs \<and> leaves_ok h lvs"

definition source_in :: "ra_store \<Rightarrow> (nat \<times> node_ptr) list \<Rightarrow> node_ptr \<Rightarrow> bool" where
  "source_in h lvs s \<longleftrightarrow> (\<exists>xs. leaves h s xs \<and> set xs \<subseteq> set lvs \<and> distinct (map fst xs))"

lemma cache_ok_other: "cache_ok sch srcs h sm \<Longrightarrow> srcs \<subseteq> dom sm \<Longrightarrow> cache_ok sch srcs h' sm"
  by (fastforce simp: cache_ok_def split: option.splits)

lemma cache_ok_cong: "(\<And>s. s \<in> srcs \<Longrightarrow> sch s = sch' s) \<Longrightarrow> cache_ok sch srcs h sm = cache_ok sch' srcs h sm"
  by (simp add: cache_ok_def cong: option.case_cong)

lemma input_of_cong: "(\<And>s. s \<in> srcs \<Longrightarrow> sch s = sch' s) \<Longrightarrow> input_of sch srcs = input_of sch' srcs"
  by (auto simp: input_of_def fun_eq_iff)

text \<open>The inserted compound, with the conditions and projections of any later time.\<close>

lemma insertion_plan:
  assumes ok: "store_ok h" "inj_on (getId h) (dom (node_at h))"
    and scan: "node_at h scan = Some sd" "kind sd = RelScan td names" "(node_id sd, scan) \<in> set lvs"
    and out: "feeds h scan out k" "node_at h out = Some od"
    and lvs: "distinct (map fst lvs)" "0 \<notin> fst ` set lvs" "leaves_ok h lvs"
    and lv: "\<And>s. s \<in> srcs \<Longrightarrow> leaves h s (lv s) \<and> set (lv s) \<subseteq> set lvs \<and> distinct (map fst (lv s))"
    and cols: "named cols" and sim: "similar (inserted h scan out od p cols) hh" "next_ptr hh = next_ptr (inserted h scan out od p cols)"
    and rows: "row_ok S h env" "row_ok S hh env'" "\<And>x. x \<in> set lvs \<Longrightarrow> env' (snd x) = env (snd x)"
    and and_law: "\<And>vs. s_true S (s_op S kAND vs) \<longleftrightarrow> (\<forall>v\<in>set vs. s_true S v)"
  shows "\<exists>od' jc jt. insertion S h hh env env' scan (node_id sd) out k (next_ptr h + 1) p cols lvs lv srcs od od' sd (crt_id h + 1) jc jt td names"
proof -
  let ?h = "inserted h scan out od p cols"
  obtain l jt where od: "kind od = RelJoin (RexLiteral l) jt" "getInput h out k = Some scan" "distinct (inputs od)"
    and parent: "\<And>n nd. node_at h n = Some nd \<Longrightarrow> scan \<in> set (inputs nd) \<Longrightarrow> n = out" using out by (auto simp: feeds_def)
  have scan_in: "scan \<in> set (inputs od)" using od(2) out(2) by (auto simp: getInput_def split: if_splits)
  note fresh = fresh_nodes [OF ok(1)]
  have ne: "next_ptr h + 1 \<noteq> out" "next_ptr h \<noteq> out" using fresh out(2) by auto
  have new: "node_at ?h (next_ptr h + 1) = Some (compound_node (crt_id h + 1) scan p cols)" by (simp add: inserted_def)
  have out': "node_at ?h out = Some (od\<lparr>inputs := replace_first scan (next_ptr h + 1) (inputs od)\<rparr>)" using ne by (simp add: inserted_def)
  have keep: "same_class k k' \<Longrightarrow> (\<nexists>c. k = RelFilter c) \<Longrightarrow> (\<nexists>es fs. k = RelProject es fs) \<Longrightarrow> k' = k" for k k' by (auto simp: same_class_def)
  obtain od' where od': "node_at hh out = Some od'" "node_id od' = node_id od" "inputs od' = replace_first scan (next_ptr h + 1) (inputs od)" "kind od' = kind od"
    using similarD [OF sim(1) out'] od(1) keep by fastforce
  obtain nd' where "node_at hh (next_ptr h + 1) = Some nd'" "nd' = compound_node (crt_id h + 1) scan p cols"
  proof -
    obtain nd' where nd': "node_at hh (next_ptr h + 1) = Some nd'" "node_id nd' = crt_id h + 1" "inputs nd' = [scan]"
      "kind nd' = kind (compound_node (crt_id h + 1) scan p cols)"
      using similarD [OF sim(1) new] by (auto simp: compound_node_def same_class_def)
    then have "nd' = compound_node (crt_id h + 1) scan p cols" by (cases nd') (simp add: compound_node_def)
    then show ?thesis using nd'(1) that by blast
  qed
  then have new': "node_at hh (next_ptr h + 1) = Some (compound_node (crt_id h + 1) scan p cols)" by simp
  have hh: "store_ok hh" by (rule similar_ok [OF sim inserted_ok [OF ok(1) out(2) od(1) scan_in]])
  have "insertion S h hh env env' scan (node_id sd) out k (next_ptr h + 1) p cols lvs lv srcs od od' sd (crt_id h + 1) (RexLiteral l) jt td names"
  proof unfold_locales
    show "\<exists>nd'. node_at hh n = Some nd' \<and> node_id nd' = node_id nd \<and> inputs nd' = inputs nd \<and> same_class (kind nd) (kind nd')"
      if "node_at h n = Some nd" "n \<noteq> out" for n nd
      using similarD [OF sim(1) inserted_other [OF ok(1) that]] .
    show "'''' \<notin> snd ` set cols" using cols by (auto simp: named_def)
  qed (use ok hh out(2) od od' fresh(2) new' scan parent lvs lv rows and_law in auto)
  then show ?thesis by blast
qed

section \<open>Soundness\<close>

text \<open>
  Before the run: the search has cached the schemas of all sources, and its result is the predicate of
  the table together with the columns the rest of the plan needs.
\<close>

lemma push_search:
  assumes ex: "extraction sch srcs S scan scan_id val env envp" and srcs: "srcs = sources cond \<union> sources_list es"
    and cond: "extraction.split_cond sch srcs S scan_id env cond P Q N" and es: "kept_list (input_of sch srcs) scan_id UNIV es" and cache: "cache_ok sch srcs h sm"
    and run: "getProjectFromRexes h scan_id es [] sm = Some (cols0, sm0)" "findFilterAndProjectFromRex h scan scan_id cond cols0 sm0 = Some (p, cols, sm1)"
  shows "cache_ok sch srcs h sm1" "srcs \<subseteq> dom sm1" "kept_list (input_of sch srcs) scan_id (fst ` set cols) es" "N \<subseteq> fst ` set cols" "satisfied S envp p \<longleftrightarrow> P" "named cols"
proof -
  have sch: "schemas sch srcs" using ex by (simp add: extraction_def)
  note defs = schemas.later_def [OF sch]
  have a: "cache_ok sch srcs h sm0" "dom sm \<subseteq> dom sm0" "sources_list es \<subseteq> dom sm0" "named cols0" "kept_list (input_of sch srcs) scan_id (fst ` set cols0) es"
    using schemas.getProject_ok(2) [OF sch es cache, of "[]"] run(1) by (auto simp: defs)
  obtain r cols' sm' where r: "findFilterAndProjectFromRex h scan scan_id cond cols0 sm0 = Some (r, cols', sm')" "fst ` set cols0 \<subseteq> fst ` set cols'"
    "cache_ok sch srcs h sm'" "dom sm0 \<subseteq> dom sm'" "sources cond \<subseteq> dom sm'" "satisfied S envp r \<longleftrightarrow> P" "N \<subseteq> fst ` set cols'"
    using extraction.find_conjunctive [OF ex cond a(1), of cols0] by (auto simp: defs)
  have eq: "r = p" "cols' = cols" "sm' = sm1" using r(1) run(2) by auto
  show "cache_ok sch srcs h sm1" "N \<subseteq> fst ` set cols" "satisfied S envp p \<longleftrightarrow> P" using r eq by auto
  show "srcs \<subseteq> dom sm1" using srcs a(3) r(4,5) eq by auto
  show "kept_list (input_of sch srcs) scan_id (fst ` set cols) es" using schemas.kept_mono(2) [OF sch a(5) r(2)] eq by simp
  show "named cols" by (rule find_names(1) [OF run(2) a(4)])
qed

text \<open>After it: the rest of the condition and the new projections.\<close>

lemma push_rewrite:
  assumes rw: "rewriting sch srcs hI S scan scan_id val env envp env' out k new conn cols"
    and rw2: "rewriting sch srcs hB S scan scan_id val' env envp env' out k new conn' cols"
    and cond: "extraction.split_cond sch srcs S scan_id env cond P Q N" and es: "kept_list (input_of sch srcs) scan_id (fst ` set cols) es"
    and N: "N \<subseteq> fst ` set cols" and cache: "cache_ok sch srcs h sm1" "srcs \<subseteq> dom sm1"
    and run: "project_operands hI scan_id out k cols es sm1 = Some (es', sm2)" "buildNewFilterExpr hB scan_id out k cols cond sm2 = Some (r, sm3)"
  shows "evals S env' es' = evals S env es" "P \<longrightarrow> (satisfied S env' r \<longleftrightarrow> Q)"
proof -
  have sch: "schemas sch srcs" using rw by (simp add: rewriting_def extraction_def)
  note defs = schemas.later_def [OF sch]
  have c1: "cache_ok sch srcs hI sm1" by (rule cache_ok_other [OF cache])
  obtain rs sm' where p: "project_operands hI scan_id out k cols es sm1 = Some (rs, sm')" "dom sm1 \<subseteq> dom sm'" "cache_ok sch srcs hI sm'"
    "list_all2 (rewriting.same_value S env env') es rs"
    using rewriting.project_ok(2) [OF rw es c1] by (auto simp: defs)
  then show "evals S env' es' = evals S env es" using run(1) rewriting.list_all2_same_value [OF rw p(4)] by simp
  have c2: "cache_ok sch srcs hB sm2" using cache_ok_other [OF p(3), of hB] p(1,2) run(1) cache(2) by auto
  show "P \<longrightarrow> (satisfied S env' r \<longleftrightarrow> Q)" using rewriting.build_conjunctive [OF rw2 cond c2 N] run(2) by auto
qed

lemma push_values:
  assumes ok: "store_ok h" "inj_on (getId h) (dom (node_at h))"
    and sd: "node_at h scan = Some sd" "kind sd = RelScan td names" "(node_id sd, scan) \<in> set lvs" and out: "feeds h scan out k" "node_at h out = Some od"
    and lvs: "distinct (map fst lvs)" "0 \<notin> fst ` set lvs" "leaves_ok h lvs"
    and lv: "\<And>s. s \<in> srcs \<Longrightarrow> leaves h s (lv s) \<and> set (lv s) \<subseteq> set lvs \<and> distinct (map fst (lv s))"
    and srcs: "srcs = sources cond \<union> sources_list es" and cond: "conjunctive (input_of (\<lambda>s. schema_of h (lv s)) srcs) cond"
    and es: "kept_list (input_of (\<lambda>s. schema_of h (lv s)) srcs) (node_id sd) UNIV es" and cache: "cache_ok (\<lambda>s. schema_of h (lv s)) srcs h sm"
    and find: "getProjectFromRexes h (node_id sd) es [] sm = Some (cols0, sm0)" "findFilterAndProjectFromRex h scan (node_id sd) cond cols0 sm0 = Some (p, cols, sm1)"
    and build: "project_operands (inserted h scan out od p cols) (node_id sd) out k cols es sm1 = Some (es', sm2)"
      "buildNewFilterExpr hB (node_id sd) out k cols cond sm2 = Some (r, sm3)"
    and hB: "similar (inserted h scan out od p cols) hB" "next_ptr hB = next_ptr (inserted h scan out od p cols)"
    and h': "similar (inserted h scan out od p cols) h'" "next_ptr h' = next_ptr (inserted h scan out od p cols)"
    and rows: "row_ok S h env" "row_ok S h' env'" "\<And>x. x \<in> set lvs \<Longrightarrow> env' (snd x) = env (snd x)"
    and and_law: "\<And>vs. s_true S (s_op S kAND vs) \<longleftrightarrow> (\<forall>v\<in>set vs. s_true S v)"
  shows "(satisfied S env cond \<longleftrightarrow> satisfied S env' p \<and> satisfied S env' r) \<and> evals S env' es' = evals S env es"
proof -
  let ?hI = "inserted h scan out od p cols" and ?sch = "\<lambda>s. schema_of h (lv s)" and ?new = "next_ptr h + 1"
  have rowI: "row_ok S ?hI env'" by (rule similar_row [OF h'(1) rows(2)])
  have rowB: "row_ok S hB env'" by (rule similar_row [OF similar_sym [OF hB(1)] rowI])
  have col0: "named cols0"
  proof -
    have "schemas ?sch srcs" using lv lvs by (unfold_locales) (intro schema_of_wf; auto simp: leaves_ok_def; blast)
    then show ?thesis using schemas.getProject_ok(2) [OF _ es cache, of "[]"] find(1) by auto
  qed
  have cols: "named cols" by (rule find_names(1) [OF find(2) col0])
  have rw: "\<exists>val conn. rewriting ?sch srcs hh S scan (node_id sd) val env env' env' out k ?new conn cols"
    if "similar ?hI hh" "next_ptr hh = next_ptr ?hI" "row_ok S hh env'" for hh
  proof -
    have "\<exists>od' jc jt. insertion S h hh env env' scan (node_id sd) out k ?new p cols lvs lv srcs od od' sd (crt_id h + 1) jc jt td names"
      by (rule insertion_plan [OF ok sd out lvs _ cols that(1,2) rows(1) that(3)]) (fact lv rows(3) and_law)+
    then show ?thesis by (elim exE) (intro exI, erule insertion.rewriting_insertion)
  qed
  obtain val conn where rI: "rewriting ?sch srcs ?hI S scan (node_id sd) val env env' env' out k ?new conn cols" using rw [OF similar_refl refl rowI] by blast
  obtain val' conn' where rB: "rewriting ?sch srcs hB S scan (node_id sd) val' env env' env' out k ?new conn' cols" using rw [OF hB rowB] by blast
  have ex: "extraction ?sch srcs S scan (node_id sd) val env env'" using rI by (simp add: rewriting_def)
  obtain P Q N where s: "extraction.split_cond ?sch srcs S (node_id sd) env cond P Q N" using extraction.conjunctive_split [OF ex cond] by blast
  note a = push_search [OF ex srcs s es cache find]
  note b = push_rewrite [OF rI rB s a(3,4,1,2) build]
  have "satisfied S env cond \<longleftrightarrow> P \<and> Q"
    using extraction.split_cond_meaning [OF ex s] extraction.split_cond_operator [OF ex s] operator_not_null by (auto simp: satisfied_def)
  then show ?thesis using a(5) b by auto
qed


end
