(* ===== verification/PushGraph.thy ===== *)
theory PushGraph
  imports PushExtract
begin

text \<open>
  The join graph that \<open>extractHashJoinCol\<close> leaves in the executor: it is well formed in the sense the
  enumeration of join orders needs, and its node values tell tables apart while node identifiers stay
  below 80.
\<close>

section \<open>Node values\<close>

lemma is_digit_decimal: "k < 10 \<Longrightarrow> is_digit (char_of (48 + k))" "k < 10 \<Longrightarrow> of_char (char_of (48 + k) :: char) = (48 + k :: nat)"
  by (simp_all add: is_digit_def)

lemma parse_decimal: "parse_digits acc (decimal n @ s) = parse_digits (acc * 10 ^ length (decimal n) + n) s"
proof (induction n arbitrary: acc s rule: decimal.induct)
  case (1 n)
  show ?case
  proof (cases "n < 10")
    case True
    then show ?thesis by (simp add: decimal.simps [of n] is_digit_decimal mult.commute)
  next
    case False
    have "parse_digits acc (decimal n @ s) = parse_digits (acc * 10 ^ length (decimal (n div 10)) + n div 10) (char_of (48 + n mod 10) # s)"
      using 1 [OF False] False by (simp add: decimal.simps [of n])
    also have "\<dots> = parse_digits (10 * (acc * 10 ^ length (decimal (n div 10)) + n div 10) + n mod 10) s" by (simp add: is_digit_decimal)
    also have "10 * (acc * 10 ^ length (decimal (n div 10)) + n div 10) + n mod 10 = acc * 10 ^ length (decimal n) + n"
      using False by (simp add: decimal.simps [of n] algebra_simps)
    finally show ?thesis .
  qed
qed

lemma hd_decimal: "is_digit (hd (decimal n))" "hd (decimal n @ s) = hd (decimal n)"
proof -
  show "is_digit (hd (decimal n))"
  proof (induction n rule: decimal.induct)
    case (1 n)
    then show ?case using decimal_not_Nil [of "n div 10"] by (cases "n < 10") (simp_all add: decimal.simps [of n] is_digit_decimal)
  qed
qed (simp add: decimal_not_Nil)

text \<open>The decimal concatenation of the table, 88 and the node, if it is an \<open>int\<close>.\<close>

lemma node_value_eq:
  assumes "0 \<le> t"
  shows "node_value t n = (let v = (nat t * 100 + 88) * 10 ^ length (decimal n) + n in if v \<le> 2147483647 then Some v else None)"
proof -
  define v where "v = (nat t * 100 + 88) * 10 ^ length (decimal n) + n"
  have nine: "is_digit (CHR ''8'')" "of_char (CHR ''8'') = (56 :: nat)" by (simp_all add: is_digit_def)
  have "parse_digits 0 (decimal (nat t) @ ''88'' @ decimal n) = v"
    using parse_decimal [of "nat t * 100 + 88" n "[]"] nine by (simp add: parse_decimal [of 0 "nat t"] v_def algebra_simps)
  moreover have "hd (decimal (nat t) @ ''88'' @ decimal n) \<noteq> CHR ''-''" "is_digit (hd (decimal (nat t) @ ''88'' @ decimal n))"
    using hd_decimal [of "nat t"] by (auto simp: is_digit_def)
  ultimately have "stoi (decimal (nat t) @ ''88'' @ decimal n) = (if v \<le> 2147483647 then Some (int v) else None)"
    by (cases "decimal (nat t) @ ''88'' @ decimal n") (auto simp: stoi_def Let_def)
  moreover have "v \<le> 2147483647 \<Longrightarrow> nat (int v mod 18446744073709551616) = v" by (simp add: nat_mod_as_int)
  ultimately show ?thesis using assms by (simp add: node_value_def to_string_def v_def Let_def)
qed

lemma decimal_length:
  shows "n < 10 \<Longrightarrow> length (decimal n) = 1" and "10 \<le> n \<Longrightarrow> n < 100 \<Longrightarrow> length (decimal n) = 2"
proof -
  show one: "n < 10 \<Longrightarrow> length (decimal n) = 1" for n by (simp add: decimal.simps [of n])
  assume "10 \<le> n" "n < 100"
  then show "length (decimal n) = 2" using one [of "n div 10"] by (simp add: decimal.simps [of n])
qed

text \<open>
  C30. The node value \<open>stoi(table + "88" + node)\<close> determines the table and the node while the node
  identifiers are below 80; node 81 of table 1 and node 1 of table 18 have the same value.
\<close>
theorem node_value_faithful:
  "(\<forall>t t' n n' v. 0 \<le> t \<and> 0 \<le> t' \<and> n < 80 \<and> n' < 80 \<and> node_value t n = Some v \<and> node_value t' n' = Some v \<longrightarrow> t = t' \<and> n = n') \<and>
   node_value 1 81 = Some 18881 \<and> node_value 18 1 = Some 18881"
proof (intro conjI allI impI)
  fix t t' :: int and n n' v
  assume a: "0 \<le> t \<and> 0 \<le> t' \<and> n < 80 \<and> n' < 80 \<and> node_value t n = Some v \<and> node_value t' n' = Some v"
  define T T' where "T = nat t" and "T' = nat t'"
  have v: "v = (T * 100 + 88) * 10 ^ length (decimal n) + n" "v = (T' * 100 + 88) * 10 ^ length (decimal n') + n'"
    using a node_value_eq [of t n] node_value_eq [of t' n'] by (auto simp: Let_def T_def T'_def split: if_splits)
  have "length (decimal n) = (if n < 10 then 1 else 2)" "length (decimal n') = (if n' < 10 then 1 else 2)" using a decimal_length [of n] decimal_length [of n'] by auto
  then have eq: "(T * 100 + 88) * (if n < 10 then 10 else 100) + n = (T' * 100 + 88) * (if n' < 10 then 10 else 100) + n'" using v by (auto split: if_splits)
  have lt: "\<not> (T < T' \<and> (n < 10 \<longleftrightarrow> n' < 10))" "\<not> (T' < T \<and> (n < 10 \<longleftrightarrow> n' < 10))" using eq a by (auto split: if_splits)
  have mixed: False if "(A * 100 + 88) * 10 + k = (B * 100 + 88) * 100 + l" "k < 10" "10 \<le> l" "l < 80" for A B k l :: nat
    using that by (cases "A \<le> 10 * B + 7") (simp_all add: algebra_simps)
  have "n < 10 \<longleftrightarrow> n' < 10" using eq a mixed [of T n T' n'] mixed [of T' n' T n] by (cases "n < 10"; cases "n' < 10") auto
  then have "T = T' \<and> n = n'" using eq lt by (auto split: if_splits)
  then show "t = t'" "n = n'" using a by (auto simp: T_def T'_def)
next
  show "node_value 1 81 = Some 18881" "node_value 18 1 = Some 18881" using decimal_length(2) [of 81] decimal_length(1) [of 1] by (simp_all add: node_value_eq Let_def)
qed

theorem node_value_faithful_witness: "node_value 5 11 = Some 58811 \<and> {t. 0 \<le> t \<and> node_value t 11 = Some 58811} = {5}"
proof
  show v: "node_value 5 11 = Some 58811" using decimal_length(2) [of 11] by (simp add: node_value_eq Let_def)
  have "t = 5" if "0 \<le> t \<and> node_value t 11 = Some 58811" for t
    using node_value_faithful [THEN conjunct1, rule_format, of t 5 11 11 58811] that v by simp
  then show "{t. 0 \<le> t \<and> node_value t 11 = Some 58811} = {5}" using v by auto
qed

section \<open>The join graph\<close>

definition converse_join :: "nat \<Rightarrow> join_info \<Rightarrow> join_info" where
  "converse_join m j = \<lparr>ji_table = ji_other_table j, ji_column = ji_other_column j, ji_other_node = m, ji_other_table = ji_table j, ji_other_column = ji_column j\<rparr>"

definition join_state_ok :: "executor \<Rightarrow> bool" where
  "join_state_ok ex \<longleftrightarrow> wf_graph (ex_graph ex) \<and> joins_match (ex_graph ex) (ex_joins ex) \<and> dom (ex_index ex) = set (map fst (ex_graph ex)) \<and>
     (\<forall>m. \<forall>j\<in>set (join_nodes_of (ex_joins ex) m). converse_join m j \<in> set (join_nodes_of (ex_joins ex) (ji_other_node j)))"

lemma emplace_keys [simp]: "map fst (emplace_edge m n g) = map fst g"
  by (induction g) (auto simp: emplace_edge_def)

lemma emplace_map_of: "map_of (emplace_edge m n g) x = map_option (\<lambda>ns. if x = m then insort_insert n ns else ns) (map_of g x)"
  by (induction g) (auto simp: emplace_edge_def)

lemma touch_node_keys: "map fst (ex_graph (touch_node m ex)) = (if m \<in> set (map fst (ex_graph ex)) then map fst (ex_graph ex) else map fst (ex_graph ex) @ [m])"
  by (auto simp: touch_node_def map_of_eq_None_iff)

lemma add_edge_keys: "map fst (ex_graph (add_edge m j ex)) = (if m \<in> set (map fst (ex_graph ex)) then map fst (ex_graph ex) else map fst (ex_graph ex) @ [m])"
  by (simp add: add_edge_def Let_def touch_node_keys)

lemma add_edge_adjacent: "adjacent (ex_graph (add_edge m j ex)) x y \<longleftrightarrow> adjacent (ex_graph ex) x y \<or> x = m \<and> y = ji_other_node j"
proof (cases "x = m")
  case True
  then show ?thesis
    by (cases "map_of (ex_graph ex) m") (auto simp: adjacent_def add_edge_def Let_def emplace_map_of touch_node_def map_add_def set_insort_insert)
next
  case False
  then show ?thesis by (auto simp: adjacent_def add_edge_def Let_def emplace_map_of touch_node_def map_add_def split: option.splits)
qed

lemma add_edge_joins:
  assumes "m \<notin> set (map fst (ex_graph ex)) \<Longrightarrow> join_nodes_of (ex_joins ex) m = []"
  shows "join_nodes_of (ex_joins (add_edge m j ex)) x = (if x = m then join_nodes_of (ex_joins ex) m @ [j] else join_nodes_of (ex_joins ex) x)"
  using assms by (auto simp: add_edge_def Let_def touch_node_def join_nodes_of_def map_of_eq_None_iff)

lemma joins_absent:
  assumes "joins_match g js" "m \<notin> set (map fst g)"
  shows "join_nodes_of js m = []"
proof (cases "join_nodes_of js m")
  case (Cons j jl)
  then have "adjacent g m (ji_other_node j)" using assms(1) by (simp add: joins_match_def)
  then show ?thesis using assms(2) map_of_SomeD [of g m] by (force simp: adjacent_def)
qed

lemma add_index_simps [simp]: "ex_graph (add_index n t i ex) = ex_graph ex" "ex_joins (add_index n t i ex) = ex_joins ex" "dom (ex_index (add_index n t i ex)) = insert n (dom (ex_index ex))"
  by (auto simp: add_index_def)

lemma add_edge_index [simp]: "ex_index (add_edge m j ex) = ex_index ex"
  by (simp add: add_edge_def touch_node_def Let_def)

text \<open>Recording a join in both directions keeps the state well formed.\<close>

lemma add_both_ok:
  assumes ok: "join_state_ok ex" and n: "ji_other_node j = n"
  shows "join_state_ok (add_index n t i (add_index m t' i' (add_edge n (converse_join m j) (add_edge m j ex))))"
proof -
  let ?e1 = "add_edge m j ex" and ?e2 = "add_edge n (converse_join m j) (add_edge m j ex)"
  note wf = ok [unfolded join_state_ok_def]
  have abs: "x \<notin> set (map fst (ex_graph ex)) \<Longrightarrow> join_nodes_of (ex_joins ex) x = []" for x using joins_absent wf by blast
  have k1: "set (map fst (ex_graph ?e1)) = insert m (set (map fst (ex_graph ex)))" "distinct (map fst (ex_graph ?e1))"
    using wf unfolding add_edge_keys wf_graph_def by auto
  have k2: "set (map fst (ex_graph ?e2)) = insert n (insert m (set (map fst (ex_graph ex))))" "distinct (map fst (ex_graph ?e2))"
    using k1 unfolding add_edge_keys [of n] by auto
  have j1: "join_nodes_of (ex_joins ?e1) x = (if x = m then join_nodes_of (ex_joins ex) m @ [j] else join_nodes_of (ex_joins ex) x)" for x
    by (rule add_edge_joins) (rule abs)
  have j2: "join_nodes_of (ex_joins ?e2) x = join_nodes_of (ex_joins ex) x @ (if x = m then [j] else []) @ (if x = n then [converse_join m j] else [])" for x
    using add_edge_joins [of n ?e1 "converse_join m j" x] j1 abs [of n] k1(1) by auto
  have adj: "adjacent (ex_graph ?e2) x y \<longleftrightarrow> adjacent (ex_graph ex) x y \<or> x = m \<and> y = n \<or> x = n \<and> y = m" for x y
    by (auto simp: add_edge_adjacent n converse_join_def)
  have "wf_graph (ex_graph ?e2)" unfolding wf_graph_def k2 adj using k2(2) wf unfolding wf_graph_def by auto
  moreover have "joins_match (ex_graph ?e2) (ex_joins ?e2)"
    unfolding joins_match_def adj j2 using wf n by (auto simp: joins_match_def converse_join_def split: if_splits)
  moreover have "\<forall>x. \<forall>k\<in>set (join_nodes_of (ex_joins ?e2) x). converse_join x k \<in> set (join_nodes_of (ex_joins ?e2) (ji_other_node k))"
    unfolding j2 using wf n by (auto simp: converse_join_def split: if_splits)
  ultimately show ?thesis using wf k2(1) unfolding join_state_ok_def by auto
qed


section \<open>The positions of the tables\<close>

text \<open>A located table: its order among the scans, its table and its node id.\<close>

definition located :: "ra_store \<Rightarrow> node_ptr list \<Rightarrow> nat \<times> int \<times> nat \<Rightarrow> bool" where
  "located h nodes x \<longleftrightarrow> fst x < length (filter (is_scan h) nodes) \<and>
     (\<exists>nd td fs. node_at h (filter (is_scan h) nodes ! fst x) = Some nd \<and> kind nd = RelScan td fs \<and> snd x = (tableId td, node_id nd))"

definition index_ok :: "ra_store \<Rightarrow> node_ptr list \<Rightarrow> executor \<Rightarrow> bool" where
  "index_ok h nodes ex \<longleftrightarrow> (\<forall>k t i. ex_index ex k = Some (t, i) \<longrightarrow> (\<exists>t_id n. located h nodes (i, t_id, n) \<and> node_value t_id n = Some k))"

lemma located_unique: "located h nodes (i, x) \<Longrightarrow> located h nodes (i, y) \<Longrightarrow> x = y"
  by (auto simp: located_def)

lemma locate_scans_located:
  assumes "locate_scans h t_lhs t_rhs ns l r (length (filter (is_scan h) before)) = Some (l', r')"
    and "\<And>x. l = Some x \<or> r = Some x \<Longrightarrow> located h (before @ ns) x"
  shows "\<And>x. l' = Some x \<or> r' = Some x \<Longrightarrow> located h (before @ ns) x"
  using assms
proof (induction ns arbitrary: l r before)
  case (Cons n ns)
  obtain nd where nd: "node_at h n = Some nd" using Cons.prems(2) by (auto split: bind_splits)
  note run = Cons.prems(2) [unfolded locate_scans.simps nd Option.bind.bind_lunit]
  show ?case
  proof (cases "\<exists>td fs. kind nd = RelScan td fs")
    case True
    then obtain td fs where k: "kind nd = RelScan td fs" by blast
    define here where "here = (length (filter (is_scan h) before), tableId td, node_id nd)"
    have "is_scan h n" using nd k by (simp add: is_scan_def)
    then have h: "located h (before @ n # ns) here" using nd k by (auto simp: located_def here_def nth_append)
    define l1 r1 where "l1 = (if l = None \<and> t_lhs = node_id nd then Some here else l)" and "r1 = (if r = None \<and> t_rhs = node_id nd then Some here else r)"
    have ok: "located h (before @ n # ns) x" if "l1 = Some x \<or> r1 = Some x" for x
      using that h Cons.prems(3) by (cases x) (auto simp: l1_def r1_def split: if_splits)
    have len: "length (filter (is_scan h) (before @ [n])) = length (filter (is_scan h) before) + 1" using \<open>is_scan h n\<close> by simp
    have "(if l1 \<noteq> None \<and> r1 \<noteq> None then Some (l1, r1) else locate_scans h t_lhs t_rhs ns l1 r1 (length (filter (is_scan h) (before @ [n])))) = Some (l', r')"
      using run by (simp only: k RelKind.case Let_def l1_def r1_def here_def len)
    then show ?thesis using Cons.IH [where l = l1 and r = r1 and before = "before @ [n]"] Cons.prems(1) ok by (auto split: if_splits)
  next
    case False
    then have "locate_scans h t_lhs t_rhs ns l r (length (filter (is_scan h) (before @ [n]))) = Some (l', r')" "\<not> is_scan h n"
      using run nd by (auto simp: is_scan_def split: RelKind.splits)
    then show ?thesis using Cons.IH [where l = l and r = r and before = "before @ [n]"] Cons.prems(1,3) by auto
  qed
qed auto

lemma add_index_ok:
  assumes "index_ok h nodes ex" "located h nodes (i, t, n)" "node_value t n = Some k"
  shows "index_ok h nodes (add_index k t i ex)"
  using assms by (auto simp: index_ok_def add_index_def split: if_splits)

lemma add_join_ok:
  assumes "join_state_ok ex" "add_join l c r c' ex = Some ex'"
  shows "join_state_ok ex'" and "index_ok h nodes ex \<Longrightarrow> located h nodes l \<Longrightarrow> located h nodes r \<Longrightarrow> index_ok h nodes ex'"
proof -
  obtain il tl nl ir tr nr where l: "l = (il, tl, nl)" "r = (ir, tr, nr)" by (cases l; cases r)
  with assms(2) obtain m n where mn: "node_value tl nl = Some m" "node_value tr nr = Some n" by (auto simp: add_join_def split: bind_splits)
  let ?j = "\<lparr>ji_table = nat tl, ji_column = c, ji_other_node = n, ji_other_table = nat tr, ji_other_column = c'\<rparr>"
  have ex': "ex' = add_index n tr ir (add_index m tl il (add_edge n (converse_join m ?j) (add_edge m ?j ex)))"
    using assms(2) mn by (simp add: add_join_def l converse_join_def Let_def)
  then show "join_state_ok ex'" using add_both_ok [OF assms(1), of ?j n] by simp
  assume i: "index_ok h nodes ex" "located h nodes l" "located h nodes r"
  then have "index_ok h nodes (add_edge n (converse_join m ?j) (add_edge m ?j ex))" by (simp add: index_ok_def)
  then show "index_ok h nodes ex'" unfolding ex' using i(2,3) mn by (auto simp: l intro!: add_index_ok)
qed

definition extract_inv :: "ra_store \<Rightarrow> node_ptr list \<Rightarrow> executor \<Rightarrow> bool" where
  "extract_inv h nodes ex \<longleftrightarrow> join_state_ok ex \<and> index_ok h nodes ex"

lemma extract_base_cases:
  assumes "extract_base h nodes es ex sm = Some (b, ex', sm')"
  obtains "ex' = ex" "\<not> b" | l c r c' where "located h nodes l" "located h nodes r" "add_join l c r c' ex = Some ex'"
proof (cases "\<exists>s i s' i'. es = [RexInput s i, RexInput s' i']")
  case True
  then obtain s i s' i' where es: "es = [RexInput s i, RexInput s' i']" by blast
  obtain t name c sm1 t' name' c' sm2 lo ro where run: "findColumnNameByIndex h s i sm = Some ((t, name, c), sm1)" "findColumnNameByIndex h s' i' sm1 = Some ((t', name', c'), sm2)"
    "locate_scans h t t' nodes None None 0 = Some (lo, ro)"
    using assms by (auto simp: extract_base_def es split: bind_splits)
  then obtain l r where lr: "lo = Some l" "ro = Some r" using assms by (auto simp: extract_base_def es split: bind_splits)
  have loc: "located h nodes l" "located h nodes r" using locate_scans_located [of h t t' nodes None None "[]" lo ro] run(3) lr by auto
  have "ex' = ex \<and> \<not> b \<or> add_join l c r c' ex = Some ex'" using assms run lr by (auto simp: extract_base_def es split: bind_splits if_splits)
  then show ?thesis using that loc by blast
next
  case False
  then have "ex' = ex \<and> \<not> b" using assms by (auto simp: extract_base_def split: list.splits RexScalar.splits)
  then show ?thesis using that by blast
qed

lemma extract_base_ok: "extract_inv h nodes ex \<Longrightarrow> extract_base h nodes es ex sm = Some (b, ex', sm') \<Longrightarrow> extract_inv h nodes ex'"
  by (erule extract_base_cases) (auto simp: extract_inv_def dest: add_join_ok)

lemma extract_ok:
  "extract_inv h nodes ex \<Longrightarrow> extractHashJoinCol h nodes c ex sm = Some (b, ex', sm') \<Longrightarrow> extract_inv h nodes ex'"
  "extract_inv h nodes ex \<Longrightarrow> extract_operands h nodes es ex sm = Some (b, ex', sm') \<Longrightarrow> extract_inv h nodes ex'"
proof (induction h nodes c ex sm and h nodes es ex sm arbitrary: b ex' sm' and b ex' sm' rule: extractHashJoinCol_extract_operands.induct)
  case (1 h nodes op es ti ex sm)
  from 1(3) obtain f e s where b: "extract_base h nodes es ex sm = Some (f, e, s)" by (auto split: bind_splits)
  have "extract_inv h nodes e" using extract_base_ok [OF 1(2) b] .
  then show ?case using 1(1) [OF b refl refl] 1(3) b by (cases f) auto
next
  case (2 h nodes name es ti ex sm)
  from 2(3) obtain f e s where b: "extract_base h nodes es ex sm = Some (f, e, s)" by (auto split: bind_splits)
  have "extract_inv h nodes e" using extract_base_ok [OF 2(2) b] .
  then show ?case using 2(1) [OF b refl refl] 2(3) b by (cases f) auto
next
  case (6 h nodes e es ex sm)
  from 6(4) obtain f e' s where b: "extractHashJoinCol h nodes e ex sm = Some (f, e', s)" by (auto split: bind_splits)
  have "extract_inv h nodes e'" using 6(1) [OF 6(3) b] .
  then show ?case using 6(2) [OF b refl refl] 6(4) b by (cases f) auto
qed simp_all

text \<open>When every scan is joined, the positions of the nodes are those of all the scans.\<close>

lemma extract_positions:
  assumes inv: "extract_inv h nodes ex" and all: "length (ex_graph ex) = length (filter (is_scan h) nodes)"
  shows "positions_match (ex_graph ex) (ex_index ex) (length (filter (is_scan h) nodes))"
proof -
  let ?pos = "\<lambda>k. snd (the (ex_index ex k))" and ?ks = "map fst (ex_graph ex)" and ?n = "length (filter (is_scan h) nodes)"
  have dom: "dom (ex_index ex) = set ?ks" and dist: "distinct ?ks" using inv by (auto simp: extract_inv_def join_state_ok_def wf_graph_def)
  have at: "\<exists>t n. located h nodes (?pos k, t, n) \<and> node_value t n = Some k" if k: "k \<in> set ?ks" for k
  proof -
    obtain t i where "ex_index ex k = Some (t, i)" using k dom by (metis domD surj_pair)
    then show ?thesis using inv unfolding extract_inv_def index_ok_def by fastforce
  qed
  have "inj_on ?pos (set ?ks)"
  proof (rule inj_onI)
    fix k k'
    assume k: "k \<in> set ?ks" "k' \<in> set ?ks" "?pos k = ?pos k'"
    obtain t n where a: "located h nodes (?pos k, t, n)" "node_value t n = Some k" using at [OF k(1)] by blast
    obtain t' n' where b: "located h nodes (?pos k', t', n')" "node_value t' n' = Some k'" using at [OF k(2)] by blast
    have "(t, n) = (t', n')" using located_unique [OF a(1)] b(1) k(3) by metis
    then show "k = k'" using a(2) b(2) by simp
  qed
  then have d: "distinct (map ?pos ?ks)" using dist by (simp only: distinct_map)
  have "set (map ?pos ?ks) \<subseteq> {0..<?n}" using at by (fastforce simp: located_def)
  moreover have "card (set (map ?pos ?ks)) = ?n" using distinct_card [OF d] all by simp
  ultimately have "set (map ?pos ?ks) = set [0..<?n]" by (metis card_atLeastLessThan card_subset_eq diff_zero finite_atLeastLessThan set_upt)
  then have "mset (map ?pos ?ks) = mset [0..<?n]" using d by (metis distinct_upt set_eq_iff_mset_eq_distinct)
  then show ?thesis unfolding positions_match_def dom by (simp only: mset_map subset_refl simp_thms)
qed

text \<open>
  C28. Recording the joins of a condition keeps the executor's join state well formed: the graph has
  every node once and is symmetric, its edges are the recorded joins, every join is recorded at both
  of its nodes, and exactly the nodes of the graph have a position, the one of their scan.
\<close>
theorem extractHashJoinCol_ok:
  assumes "join_state_ok ex" "index_ok h nodes ex" "extractHashJoinCol h nodes c ex sm = Some (found, ex', sm')"
  shows "join_state_ok ex' \<and> index_ok h nodes ex'"
  using extract_ok(1) [of h nodes ex c sm found ex' sm'] assms by (simp add: extract_inv_def)

end
