(* ===== verification/PushExample.thy ===== *)
theory PushExample
  imports PushSound PushGraph
begin

text \<open>
  Concrete plans: a three-valued interpretation of the expressions, a join of two tables, and runs of
  the push-down on it.
\<close>

section \<open>A three-valued interpretation\<close>

datatype sqlval = SNull | SBool bool | SInt int | SStr string

fun sql_literal :: "literal \<Rightarrow> sqlval" where
  "sql_literal (LInt64 v) = SInt (sint v)"
| "sql_literal (LString s) = SStr s"
| "sql_literal (LBool b) = SBool b"
| "sql_literal (LDouble v) = SNull"
| "sql_literal LNull = SNull"

fun sql_compare :: "(int \<Rightarrow> int \<Rightarrow> bool) \<Rightarrow> sqlval list \<Rightarrow> sqlval" where
  "sql_compare f [SInt x, SInt y] = SBool (f x y)"
| "sql_compare f vs = SNull"

fun sql_op :: "SQLOps \<Rightarrow> sqlval list \<Rightarrow> sqlval" where
  "sql_op kAND vs = (if SBool False \<in> set vs then SBool False else if (\<forall>v\<in>set vs. v = SBool True) then SBool True else SNull)"
| "sql_op kOR vs = (if SBool True \<in> set vs then SBool True else if (\<forall>v\<in>set vs. v = SBool False) then SBool False else SNull)"
| "sql_op kNOT [SBool b] = SBool (\<not> b)"
| "sql_op kISNULL [v] = SBool (v = SNull)"
| "sql_op kISNOTNULL [v] = SBool (v \<noteq> SNull)"
| "sql_op kEQ vs = sql_compare (=) vs"
| "sql_op kNE vs = sql_compare (\<noteq>) vs"
| "sql_op kLT vs = sql_compare (<) vs"
| "sql_op kLE vs = sql_compare (\<le>) vs"
| "sql_op kGT vs = sql_compare (>) vs"
| "sql_op kGE vs = sql_compare (\<ge>) vs"
| "sql_op op vs = SNull"

definition sql_sem :: "sqlval sem" where
  "sql_sem = \<lparr>s_lit = sql_literal \<circ> lit_val, s_op = sql_op, s_fun = (\<lambda>name vs. SNull), s_ref = (\<lambda>i. SNull), s_query = (\<lambda>q. SNull),
     s_null = SNull, s_true = (\<lambda>v. v = SBool True)\<rparr>"

lemma sql_and_law: "s_true sql_sem (s_op sql_sem kAND vs) \<longleftrightarrow> (\<forall>v\<in>set vs. s_true sql_sem v)"
  by (auto simp: sql_sem_def)

section \<open>A join of two tables\<close>

definition bool_type :: SQLTypeInfo where
  "bool_type = \<lparr>ti_type = kBOOLEAN, ti_notnull = True, ti_precision = 0, ti_scale = 0\<rparr>"

definition int_literal :: "64 word \<Rightarrow> RexScalar" where
  "int_literal v = RexLiteral \<lparr>lit_val = LInt64 v, lit_type = kDECIMAL, lit_target_type = kBIGINT, lit_scale = 0, lit_precision = 19, lit_type_scale = 0, lit_type_precision = 19\<rparr>"

definition true_literal :: RexScalar where
  "true_literal = RexLiteral \<lparr>lit_val = LBool True, lit_type = kBOOLEAN, lit_target_type = kBOOLEAN, lit_scale = 0, lit_precision = 1, lit_type_scale = 0, lit_type_precision = 1\<rparr>"

definition example_plan :: "RexScalar \<Rightarrow> RexScalar list \<Rightarrow> ra_store" where
  "example_plan cond es = \<lparr>node_at =
      [11 \<mapsto> \<lparr>node_id = 11, inputs = [], kind = RelScan \<lparr>tableId = 5, tableName = ''r''\<rparr> [''a'', ''b'']\<rparr>,
       12 \<mapsto> \<lparr>node_id = 12, inputs = [], kind = RelScan \<lparr>tableId = 6, tableName = ''s''\<rparr> [''c'', ''d'']\<rparr>,
       13 \<mapsto> \<lparr>node_id = 13, inputs = [11, 12], kind = RelJoin true_literal INNER\<rparr>,
       14 \<mapsto> \<lparr>node_id = 14, inputs = [13], kind = RelFilter cond\<rparr>,
       15 \<mapsto> \<lparr>node_id = 15, inputs = [14], kind = RelProject es [''x'']\<rparr>],
     next_ptr = 16, crt_id = 16\<rparr>"

definition empty_executor :: executor where
  "empty_executor = \<lparr>ex_graph = [], ex_joins = Map.empty, ex_index = Map.empty, ex_complexity = [], ex_materialized = {}, ex_predicates = {},
     ex_sketches = Map.empty, ex_seeds = Map.empty, ex_processed = {}, ex_filters = Map.empty,
     ex_heap = \<lparr>h_double = Map.empty, h_ptr = Map.empty, h_bucket = Map.empty, h_pm1 = Map.empty, h_next = 1\<rparr>, ex_rand = 0\<rparr>"

definition count_engine :: "int \<Rightarrow> engine" where
  "count_engine n h ra js sk hp = Some (n, n, hp)"

definition preprocessing :: SessionInfo where
  "preprocessing = session_constants Map.empty\<lparr>PRE_PROCESSING := True\<rparr>"

text \<open>The condition \<open>a = c AND b = 1\<close>.\<close>

definition join_and_filter :: RexScalar where
  "join_and_filter = RexOperator kAND [RexOperator kEQ [RexInput 11 0, RexInput 12 0] bool_type, RexOperator kEQ [RexInput 11 1, int_literal 1] bool_type] bool_type"

lemma literal_ok_int [simp]: "literal_deepCopy \<lparr>lit_val = LInt64 v, lit_type = kDECIMAL, lit_target_type = kBIGINT, lit_scale = 0, lit_precision = 19, lit_type_scale = 0, lit_type_precision = 19\<rparr> =
   Some \<lparr>lit_val = LInt64 v, lit_type = kDECIMAL, lit_target_type = kBIGINT, lit_scale = 0, lit_precision = 19, lit_type_scale = 0, lit_type_precision = 19\<rparr>"
  by (simp add: literal_deepCopy_def literal_new_def)

lemmas run_simps = findFilterAndProject_def is_aggregate_def is_project_def is_scan_def is_join_def getInput_def getId_def list_read_def add_column_def
  getColumnInfoFromScan_def findColumnNameByIndex_def getSchemaFromSource_def rebuild_operator_def

definition example_schemas :: schema_cache where
  "example_schemas = [14 \<mapsto> ([(11, 2), (12, 2)], [''a'', ''b'', ''c'', ''d'']), 11 \<mapsto> ([(11, 2)], [''a'', ''b'']), 12 \<mapsto> ([(12, 2)], [''c'', ''d''])]"

lemma example_nodes [simp]:
  "node_at (example_plan c es) 11 = Some \<lparr>node_id = 11, inputs = [], kind = RelScan \<lparr>tableId = 5, tableName = ''r''\<rparr> [''a'', ''b'']\<rparr>"
  "node_at (example_plan c es) 12 = Some \<lparr>node_id = 12, inputs = [], kind = RelScan \<lparr>tableId = 6, tableName = ''s''\<rparr> [''c'', ''d'']\<rparr>"
  "node_at (example_plan c es) 13 = Some \<lparr>node_id = 13, inputs = [11, 12], kind = RelJoin true_literal INNER\<rparr>"
  "node_at (example_plan c es) 14 = Some \<lparr>node_id = 14, inputs = [13], kind = RelFilter c\<rparr>"
  "node_at (example_plan c es) 15 = Some \<lparr>node_id = 15, inputs = [14], kind = RelProject es [''x'']\<rparr>"
  "next_ptr (example_plan c es) = 16" "crt_id (example_plan c es) = 16"
  by (simp_all add: example_plan_def)

lemma example_schema:
  "buildSchemaFromSource (example_plan c es) 11 = Some ([(11, 2)], [''a'', ''b''])" "buildSchemaFromSource (example_plan c es) 12 = Some ([(12, 2)], [''c'', ''d''])"
  "buildSchemaFromSource (example_plan c es) 14 = Some ([(11, 2), (12, 2)], [''a'', ''b'', ''c'', ''d''])"
proof -
  show a: "buildSchemaFromSource (example_plan c es) 11 = Some ([(11, 2)], [''a'', ''b''])" "buildSchemaFromSource (example_plan c es) 12 = Some ([(12, 2)], [''c'', ''d''])"
    by (simp_all add: schema_scan)
  have "buildSchemaFromSource (example_plan c es) 13 = Some ([(11, 2), (12, 2)], [''a'', ''b'', ''c'', ''d''])" using schema_join [OF example_nodes(3)] a by simp
  then show "buildSchemaFromSource (example_plan c es) 14 = Some ([(11, 2), (12, 2)], [''a'', ''b'', ''c'', ''d''])" using schema_filter [OF example_nodes(4)] by simp
qed

lemma example_find:
  "findFilterAndProject (example_plan join_and_filter [RexInput 14 3]) [11, 12, 13, 14, 15] 0 [] Map.empty =
     Some (RexOperator kEQ [RexInput 11 1, int_literal 1] bool_type, [(0, ''a'')], example_schemas)"
  by (simp add: join_and_filter_def int_literal_def run_simps example_schema example_schemas_def fun_upd_twist numeral_2_eq_2 numeral_3_eq_3)

lemma hasConnection_leaf: "node_at h n = Some nd \<Longrightarrow> inputs nd = [] \<Longrightarrow> hasConnection_from h x n 0 = Some False"
  by (subst hasConnection_from.simps) simp

lemma hasConnection_one: "node_at h n = Some nd \<Longrightarrow> inputs nd = [m] \<Longrightarrow> hasConnection_from h x n 0 = (if x = m then Some True else hasConnection_from h x m 0)"
  by (subst hasConnection_from.simps, subst (2) hasConnection_from.simps) (auto split: bind_splits)

lemma hasConnection_two: "node_at h n = Some nd \<Longrightarrow> inputs nd = [l, r] \<Longrightarrow> hasConnection_from h x n 0 =
  (if x = l then Some True else do { b \<leftarrow> hasConnection_from h x l 0; if b then Some True else if x = r then Some True else hasConnection_from h x r 0 })"
  by (subst hasConnection_from.simps, subst (2) hasConnection_from.simps, subst (3) hasConnection_from.simps) (auto split: bind_splits)

lemmas hasConnection_steps = hasConnection_leaf hasConnection_one hasConnection_two

lemma example_node: "node_at (example_plan c es) n = Some nd \<Longrightarrow> n \<in> {11, 12, 13, 14, 15}"
  by (auto simp: example_plan_def split: if_splits)

lemma example_store_ok: "store_ok (example_plan c es)"
  unfolding store_ok_def
proof (intro conjI allI impI exI)
  show "\<forall>m\<in>set (inputs nd). id m < id n" if "node_at (example_plan c es) n = Some nd" for n nd
    using that example_node [OF that] by auto
  show "n < next_ptr (example_plan c es)" "set (inputs nd) \<subseteq> dom (node_at (example_plan c es))" "arity_ok (kind nd) (length (inputs nd))"
    if "node_at (example_plan c es) n = Some nd" for n nd
    using that example_node [OF that] by (auto simp: true_literal_def)
qed

lemma example_ids: "inj_on (getId (example_plan c es)) (dom (node_at (example_plan c es)))" "set [11, 12, 13, 14, 15] \<subseteq> dom (node_at (example_plan c es))"
  by (auto simp: inj_on_def getId_def dest!: example_node)

lemma example_shape: "plan_shape (example_plan c es) [11, 12, 13, 14, 15] [11, 12, 13] 14 15 [] c es [''x'']"
  by (simp add: plan_shape_def is_join_def)

lemma example_leaves:
  "leaves (example_plan c es) 11 [(11, 11)]" "leaves (example_plan c es) 12 [(12, 12)]" "leaves (example_plan c es) 13 [(11, 11), (12, 12)]"
  "leaves (example_plan c es) 14 [(11, 11), (12, 12)]"
proof -
  show a: "leaves (example_plan c es) 11 [(11, 11)]" "leaves (example_plan c es) 12 [(12, 12)]"
    using leaf_scan [OF example_nodes(1)] leaf_scan [OF example_nodes(2)] by simp_all
  show b: "leaves (example_plan c es) 13 [(11, 11), (12, 12)]" using leaf_join [OF example_nodes(3) _ _ a] by simp
  show "leaves (example_plan c es) 14 [(11, 11), (12, 12)]" using leaf_filter [OF example_nodes(4) _ _ b] by simp
qed

lemma example_plan_leaves: "plan_leaves (example_plan c es) 13 [(11, 11), (12, 12)]"
  by (simp add: plan_leaves_def example_leaves leaves_ok_def leaf_ok_def names_of_def)

lemma example_output:
  "output_of_scan (example_plan c es) [11, 12, 13, 14, 15] 0 = Some (0, 2)" "feeds (example_plan c es) 11 13 0"
proof -
  show "output_of_scan (example_plan c es) [11, 12, 13, 14, 15] 0 = Some (0, 2)"
    by (simp add: output_of_scan_def list_read_def is_scan_def is_join_def numeral_2_eq_2)
  have "n = 13" if "node_at (example_plan c es) n = Some nd" "11 \<in> set (inputs nd)" for n nd
    using that example_node [OF that(1)] by auto
  then show "feeds (example_plan c es) 11 13 0" by (auto simp: feeds_def getInput_def true_literal_def)
qed

lemma example_locator:
  "locator_of (example_plan c es) {11, 12, 14} 11 i = (if i < 2 then Some (11, i) else None)"
  "locator_of (example_plan c es) {11, 12, 14} 12 i = (if i < 2 then Some (12, i) else None)"
  "locator_of (example_plan c es) {11, 12, 14} 14 3 = Some (12, 1)"
  by (simp_all add: locator_of_def input_of_def example_schema)

lemma example_conjunctive: "conjunctive (locator_of (example_plan c es) {11, 12, 14}) join_and_filter"
proof -
  let ?L = "locator_of (example_plan c es) {11, 12, 14}"
  have "conjunctive ?L (RexOperator kEQ [RexInput 11 0, RexInput 12 0] bool_type)"
    by (rule conj_join) (simp_all add: example_locator, simp)
  moreover have "conjunctive ?L (RexOperator kEQ [RexInput 11 1, int_literal 1] bool_type)"
    by (rule conj_simple [OF simple_pure [OF pure_atom [where t = 11]]]) (simp_all add: example_locator int_literal_def literal_ok_def)
  ultimately show ?thesis unfolding join_and_filter_def by (intro conj_and) auto
qed

section \<open>A run that keeps the predicate\<close>

definition pushed_plan :: ra_store where
  "pushed_plan = rewritten (inserted (example_plan join_and_filter [RexInput 14 3]) 11 13
       \<lparr>node_id = 13, inputs = [11, 12], kind = RelJoin true_literal INNER\<rparr> (RexOperator kEQ [RexInput 11 1, int_literal 1] bool_type) [(0, ''a'')])
     14 \<lparr>node_id = 14, inputs = [13], kind = RelFilter join_and_filter\<rparr> (RexOperator kEQ [RexInput 17 0, RexInput 12 0] bool_type)
     15 \<lparr>node_id = 15, inputs = [14], kind = RelProject [RexInput 14 3] [''x'']\<rparr> [RexInput 14 2] [''x'']"

lemma fpd_max_count_example: "fpd_max_count_of preprocessing 100 = 5"
  by code_simp

lemmas rebuild_simps = updatePostJoinExprs_def project_input_def filter_input_def connected_source_def hasConnection_def set_kind_def compound_node_def
  insert_at_def inserted_def rewritten_def

lemma example_update:
  "updatePostJoinExprs 0 3 0 [(0, ''a'')] [11, 17, 12, 13, 14, 15] (inserted (example_plan join_and_filter [RexInput 14 3]) 11 13
       \<lparr>node_id = 13, inputs = [11, 12], kind = RelJoin true_literal INNER\<rparr> (RexOperator kEQ [RexInput 11 1, int_literal 1] bool_type) [(0, ''a'')])
     example_schemas =
   Some ([11, 17, 12, 13, 14, 15], pushed_plan, example_schemas)"
  by (simp add: pushed_plan_def example_schemas_def rebuild_simps join_and_filter_def int_literal_def run_simps hasConnection_steps numeral_2_eq_2 numeral_3_eq_3)

definition example_executor :: executor where
  "example_executor = empty_executor\<lparr>ex_graph := [(58811, [68812]), (68812, [58811])],
     ex_joins := [58811 \<mapsto> [\<lparr>ji_table = 5, ji_column = 0, ji_other_node = 68812, ji_other_table = 6, ji_other_column = 0\<rparr>],
                  68812 \<mapsto> [\<lparr>ji_table = 6, ji_column = 0, ji_other_node = 58811, ji_other_table = 5, ji_other_column = 0\<rparr>]],
     ex_index := [58811 \<mapsto> (5, 0), 68812 \<mapsto> (6, 1)]\<rparr>"

lemma example_values: "node_value 5 11 = Some 58811" "node_value 6 12 = Some 68812"
  using decimal_length(2) [of 11] decimal_length(2) [of 12] by (simp_all add: node_value_eq Let_def)

lemma example_extract:
  "extractHashJoinCol (example_plan join_and_filter [RexInput 14 3]) [11, 12, 13, 14, 15] join_and_filter empty_executor Map.empty =
     Some (True, example_executor, [11 \<mapsto> ([(11, 2)], [''a'', ''b'']), 12 \<mapsto> ([(12, 2)], [''c'', ''d''])])"
  by (simp add: join_and_filter_def int_literal_def extract_base_def add_join_def add_edge_def add_index_def touch_node_def emplace_edge_def join_nodes_of_def
      empty_executor_def example_executor_def example_values run_simps example_schema Let_def insort_insert_key_def numeral_2_eq_2)

definition inserted_plan :: ra_store where
  "inserted_plan = inserted (example_plan join_and_filter [RexInput 14 3]) 11 13 \<lparr>node_id = 13, inputs = [11, 12], kind = RelJoin true_literal INNER\<rparr>
     (RexOperator kEQ [RexInput 11 1, int_literal 1] bool_type) [(0, ''a'')]"

lemma example_push_table:
  assumes "PRE_PROCESSING si"
  shows "push_table eng si (11, m) [11, 12, 13, 14, 15] (example_plan join_and_filter [RexInput 14 3]) Map.empty ex = do {
    (num, ex) \<leftarrow> executeFilterAndEvaluate eng si inserted_plan 17 m (5, 11) ex;
    if num > 0 then Some ([11, 17, 12, 13, 14, 15], pushed_plan, Map.empty, ex\<lparr>ex_materialized := insert 58811 (ex_materialized ex)\<rparr>)
    else do {
      h \<leftarrow> replaceInput 13 17 11 inserted_plan;
      adj \<leftarrow> map_of (ex_graph ex) 58811;
      q \<leftarrow> complexity_position 58811 (ex_complexity ex);
      Some ([11, 12, 13, 14, 15], h, example_schemas, ex\<lparr>ex_complexity := (ex_complexity ex)[q := (58811, of_nat (length adj * m))]\<rparr>)
    } }"
proof -
  let ?h = "example_plan join_and_filter [RexInput 14 3]" and ?nodes = "[11, 12, 13, 14, 15] :: node_ptr list"
  have p: "position 11 ?nodes = 0" by (simp add: position_def)
  have r: "list_read ?nodes (position 11 ?nodes) = Some 11" "list_read ?nodes (position 11 ?nodes + 2) = Some 13" by (simp_all add: list_read_def p numeral_2_eq_2)
  have o: "output_of_scan ?h ?nodes (position 11 ?nodes) = Some (0, 2)" using example_output(1) p by simp
  have f: "findFilterAndProject ?h ?nodes (position 11 ?nodes) [] Map.empty = Some (RexOperator kEQ [RexInput 11 1, int_literal 1] bool_type, [(0, ''a'')],
      example_schemas)" using example_find p by simp
  have k: "kind \<lparr>node_id = 11, inputs = [], kind = RelScan \<lparr>tableId = 5, tableName = ''r''\<rparr> [''a'', ''b'']\<rparr> = RelScan \<lparr>tableId = 5, tableName = ''r''\<rparr> [''a'', ''b'']" by simp
  have u: "insert_at 1 17 ?nodes = [11, 17, 12, 13, 14, 15]" "next_joined ?h ?nodes 0 = Some True"
    by (simp_all add: insert_at_def next_joined_def list_read_def is_scan_def)
  have go: "\<not> (RexOperator kEQ [RexInput 11 1, int_literal 1] bool_type = RexNull \<or> \<not> PRE_PROCESSING si \<and> m < FPD_MIN_TABLE_SIZE si)" using assms by simp
  note up = example_update [folded inserted_plan_def]
  show ?thesis
    using push_table_eq [OF example_store_ok example_ids(2) r(1) example_nodes(1) k o r(2) example_output(2) example_nodes(3) f go, of eng ex]
    by (simp add: p u up example_values inserted_plan_def [symmetric] del: One_nat_def cong del: if_weak_cong)
qed

lemma example_run_pushed:
  "\<exists>ex. push_table (count_engine 1) preprocessing (11, 100) [11, 12, 13, 14, 15] (example_plan join_and_filter [RexInput 14 3]) Map.empty example_executor =
     Some ([11, 17, 12, 13, 14, 15], pushed_plan, Map.empty, ex)"
proof -
  have "getId inserted_plan 17 = Some 17" by (simp add: inserted_plan_def inserted_def compound_node_def getId_def)
  moreover have "PRE_PROCESSING preprocessing" by (simp add: preprocessing_def)
  ultimately show ?thesis
    by (simp add: example_push_table executeFilterAndEvaluate_def executeRelAlgQueryFPD_def example_values count_engine_def fpd_max_count_example addPushDownFilter_def
        example_executor_def empty_executor_def Let_def)
qed

text \<open>A row \<open>(1, 1)\<close> of the first table with a row \<open>(1, 5)\<close> of the second; the left input of the join has \<open>k\<close> columns.\<close>

definition example_row :: "nat \<Rightarrow> node_ptr \<Rightarrow> nat \<Rightarrow> sqlval" where
  "example_row k n i =
     (if n = 12 then SInt (if i = 0 then 1 else 5)
      else if n = 13 \<or> n = 14 then (if i < k then SInt 1 else SInt (if i = k then 1 else 5)) else SInt 1)"

lemma leaves_scan_only: "leaves h n xs \<Longrightarrow> node_at h n = Some nd \<Longrightarrow> kind nd = RelScan td fs \<Longrightarrow> xs = [(node_id nd, n)]"
  by (erule leaves.cases) auto

lemma leaves_compound_only:
  "leaves h n xs \<Longrightarrow> node_at h n = Some (compound_node i m p cols) \<Longrightarrow> node_at h m = Some md \<Longrightarrow> kind md = RelScan td gs \<Longrightarrow> xs = [(node_id md, n)]"
  by (erule leaves.cases) (auto simp: compound_node_def)

lemma example_row_before: "row_ok sql_sem (example_plan c es) (example_row 2)"
proof -
  have len: "length (snd (schema_of (example_plan c es) xs)) = 2" if "leaves (example_plan c es) 11 xs" for xs
    using leaves_scan_only [OF that example_nodes(1)] by (simp add: schema_of_def names_of_def)
  show ?thesis
    unfolding row_ok_def
  proof (intro allI impI)
    fix n nd
    assume n: "node_at (example_plan c es) n = Some nd"
    consider "n \<in> {11, 12, 14, 15}" | "n = 13" using example_node [OF n] by auto
    then show "case kind nd of
      RelJoin ca j \<Rightarrow> (\<forall>l r xs i. inputs nd = [l, r] \<longrightarrow> leaves (example_plan c es) l xs \<longrightarrow> example_row 2 n i =
          (if i < length (snd (schema_of (example_plan c es) xs)) then example_row 2 l i else example_row 2 r (i - length (snd (schema_of (example_plan c es) xs)))))
    | RelFilter c \<Rightarrow> (case inputs nd of [m] \<Rightarrow> example_row 2 n = example_row 2 m | _ \<Rightarrow> True)
    | RelCompound f ts g as fs a ss \<Rightarrow> (\<forall>p<length ts. case ts ! p of Inl q \<Rightarrow> example_row 2 n p = eval sql_sem (example_row 2) (ss ! q) | Inr q \<Rightarrow> True)
    | _ \<Rightarrow> True"
      by cases (use n len in \<open>auto simp: example_row_def fun_eq_iff\<close>)
  qed
qed

lemma pushed_nodes [simp]:
  "node_at pushed_plan 11 = Some \<lparr>node_id = 11, inputs = [], kind = RelScan \<lparr>tableId = 5, tableName = ''r''\<rparr> [''a'', ''b'']\<rparr>"
  "node_at pushed_plan 12 = Some \<lparr>node_id = 12, inputs = [], kind = RelScan \<lparr>tableId = 6, tableName = ''s''\<rparr> [''c'', ''d'']\<rparr>"
  "node_at pushed_plan 13 = Some \<lparr>node_id = 13, inputs = [17, 12], kind = RelJoin true_literal INNER\<rparr>"
  "node_at pushed_plan 14 = Some \<lparr>node_id = 14, inputs = [13], kind = RelFilter (RexOperator kEQ [RexInput 17 0, RexInput 12 0] bool_type)\<rparr>"
  "node_at pushed_plan 15 = Some \<lparr>node_id = 15, inputs = [14], kind = RelProject [RexInput 14 2] [''x'']\<rparr>"
  "node_at pushed_plan 16 = Some \<lparr>node_id = 16, inputs = [11], kind = RelFilter RexNull\<rparr>"
  "node_at pushed_plan 17 = Some (compound_node 17 11 (RexOperator kEQ [RexInput 11 1, int_literal 1] bool_type) [(0, ''a'')])"
  by (simp_all add: pushed_plan_def rewritten_def inserted_def)

lemma pushed_node: "node_at pushed_plan n = Some nd \<Longrightarrow> n \<in> {11, 12, 13, 14, 15, 16, 17}"
  by (auto simp: pushed_plan_def rewritten_def inserted_def dest: example_node split: if_splits)

lemma pushed_store_ok: "store_ok pushed_plan"
  unfolding store_ok_def
proof (intro conjI allI impI exI)
  show "\<forall>m\<in>set (inputs nd). (if m = 17 then 12 else m) < (if n = 17 then 12 else n)" if "node_at pushed_plan n = Some nd" for n nd
    using that pushed_node [OF that] by (auto simp: compound_node_def)
  show "n < next_ptr pushed_plan" "set (inputs nd) \<subseteq> dom (node_at pushed_plan)" "arity_ok (kind nd) (length (inputs nd))"
    if "node_at pushed_plan n = Some nd" for n nd
    using that pushed_node [OF that] by (auto simp: compound_node_def true_literal_def) (simp_all add: pushed_plan_def rewritten_def inserted_def)
qed

lemma example_row_after: "row_ok sql_sem pushed_plan (example_row 1)"
proof -
  have len: "length (snd (schema_of pushed_plan xs)) = 1" if "leaves pushed_plan 17 xs" for xs
    using leaves_compound_only [OF that pushed_nodes(7,1)] by (simp add: schema_of_def names_of_def compound_node_def)
  show ?thesis
    unfolding row_ok_def
  proof (intro allI impI)
    fix n nd
    assume n: "node_at pushed_plan n = Some nd"
    consider "n \<in> {11, 12, 14, 15, 16, 17}" | "n = 13" using pushed_node [OF n] by auto
    then show "case kind nd of
      RelJoin ca j \<Rightarrow> (\<forall>l r xs i. inputs nd = [l, r] \<longrightarrow> leaves pushed_plan l xs \<longrightarrow> example_row 1 n i =
          (if i < length (snd (schema_of pushed_plan xs)) then example_row 1 l i else example_row 1 r (i - length (snd (schema_of pushed_plan xs)))))
    | RelFilter c \<Rightarrow> (case inputs nd of [m] \<Rightarrow> example_row 1 n = example_row 1 m | _ \<Rightarrow> True)
    | RelCompound f ts g as fs a ss \<Rightarrow> (\<forall>p<length ts. case ts ! p of Inl q \<Rightarrow> example_row 1 n p = eval sql_sem (example_row 1) (ss ! q) | Inr q \<Rightarrow> True)
    | _ \<Rightarrow> True"
      by cases (use n len in \<open>auto simp: example_row_def fun_eq_iff compound_node_def\<close>)
  qed
qed

lemma example_sources:
  "sources join_and_filter \<union> sources_list [RexInput 14 3] = {11, 12, 14}" "\<forall>s\<in>{11, 12, 14}. source_in (example_plan c es) [(11, 11), (12, 12)] s"
  "kept_list (locator_of (example_plan c es) {11, 12, 14}) 11 UNIV [RexInput 14 3]"
  "cache_ok (\<lambda>s. the (buildSchemaFromSource (example_plan c es) s)) {11, 12, 14} (example_plan c es) Map.empty"
proof -
  show "sources join_and_filter \<union> sources_list [RexInput 14 3] = {11, 12, 14}" by (auto simp: join_and_filter_def int_literal_def)
  show "\<forall>s\<in>{11, 12, 14}. source_in (example_plan c es) [(11, 11), (12, 12)] s" unfolding source_in_def using example_leaves [of c es] by fastforce
qed (simp_all add: example_locator cache_ok_def example_schema)


section \<open>A run that reverts\<close>

theorem push_table_reverted_witness:
  "\<exists>h' sm' ex'. push_table (count_engine 6) preprocessing (11, 100) [11, 12, 13, 14, 15] (example_plan join_and_filter [RexInput 14 3]) Map.empty example_executor =
      Some ([11, 12, 13, 14, 15], h', sm', ex') \<and> node_at h' 13 = Some \<lparr>node_id = 13, inputs = [11, 12], kind = RelJoin true_literal INNER\<rparr>"
proof -
  let ?h = "example_plan join_and_filter [RexInput 14 3]" and ?nodes = "[11, 12, 13, 14, 15] :: node_ptr list"
  have p: "position 11 ?nodes = 0" by (simp add: position_def)
  have "\<exists>l. kind \<lparr>node_id = 13, inputs = [11, 12], kind = RelJoin true_literal INNER\<rparr> = RelJoin (RexLiteral l) INNER" by (simp add: true_literal_def)
  then obtain h3 where h3: "replaceInput 13 17 11 inserted_plan = Some h3"
    using inserted_back [OF example_store_ok example_nodes(3), of _ INNER _ _ 11 "RexOperator kEQ [RexInput 11 1, int_literal 1] bool_type" "[(0, ''a'')]"]
    by (fastforce simp: inserted_plan_def simp del: One_nat_def)
  have pre: "PRE_PROCESSING preprocessing" by (simp add: preprocessing_def)
  obtain sm' ex' where run: "push_table (count_engine 6) preprocessing (11, 100) ?nodes ?h Map.empty example_executor = Some (?nodes, h3, sm', ex')"
    by (simp add: example_push_table [OF pre] executeFilterAndEvaluate_def executeRelAlgQueryFPD_def example_values count_engine_def fpd_max_count_example h3
        example_executor_def empty_executor_def Let_def)
  have "?nodes = ?nodes \<and> (\<forall>n\<in>dom (node_at ?h). node_at h3 n = node_at ?h n)"
  proof (rule push_table_reverted [OF example_store_ok example_ids(2) _ _ _ _ example_output(2) _ run])
    show "output_of_scan ?h ?nodes (position 11 ?nodes) = Some (0, 2)" using example_output(1) p by simp
  qed (simp_all add: is_scan_def p list_read_def numeral_2_eq_2 count_engine_def fpd_max_count_example)
  then have "node_at h3 13 = Some \<lparr>node_id = 13, inputs = [11, 12], kind = RelJoin true_literal INNER\<rparr>" by (metis domI example_nodes(3))
  then show ?thesis using run by blast
qed

section \<open>The join graph of the example\<close>

lemma empty_executor_ok: "join_state_ok empty_executor" "index_ok h nodes empty_executor"
  by (simp_all add: join_state_ok_def index_ok_def wf_graph_def joins_match_def adjacent_def join_nodes_of_def empty_executor_def)

theorem extractHashJoinCol_ok_witness:
  "extractHashJoinCol (example_plan join_and_filter [RexInput 14 3]) [11, 12, 13, 14, 15] join_and_filter empty_executor Map.empty =
     Some (True, example_executor, [11 \<mapsto> ([(11, 2)], [''a'', ''b'']), 12 \<mapsto> ([(12, 2)], [''c'', ''d''])]) \<and>
   join_state_ok example_executor \<and> index_ok (example_plan join_and_filter [RexInput 14 3]) [11, 12, 13, 14, 15] example_executor"
  using example_extract extractHashJoinCol_ok [OF empty_executor_ok example_extract] by blast

section \<open>The interfaces on the model\<close>

text \<open>The schemas of any plan, and the search over them for any rows of the tables.\<close>

abbreviation plan_schema :: "ra_store \<Rightarrow> node_ptr \<Rightarrow> schema" where
  "plan_schema h \<equiv> \<lambda>s. the (buildSchemaFromSource h s)"

abbreviation plan_sources :: "ra_store \<Rightarrow> node_ptr set" where
  "plan_sources h \<equiv> {s. \<exists>sc. buildSchemaFromSource h s = Some sc \<and> schema_wf sc}"

interpretation plan: schemas "plan_schema h" "plan_sources h" h for h
  by unfold_locales auto

interpretation plan: extraction "plan_schema h" "plan_sources h" h sql_sem scan scan_id v
  "\<lambda>s i. case input_of (plan_schema h) (plan_sources h) s i of Some (t, c) \<Rightarrow> v t c | None \<Rightarrow> SNull" "\<lambda>s. v scan_id" for h scan scan_id v
  by unfold_locales (simp_all add: sql_and_law)

text \<open>The push-down of the example, which by the sublocale also interprets the rewriting.\<close>

interpretation pushed: insertion sql_sem "example_plan join_and_filter [RexInput 14 3]" pushed_plan "example_row 2" "example_row 1" 11 11 13 0 17
  "RexOperator kEQ [RexInput 11 1, int_literal 1] bool_type" "[(0, ''a'')]" "[(11, 11), (12, 12)]" "\<lambda>s. if s = 14 then [(11, 11), (12, 12)] else [(s, s)]" "{11, 12, 14}"
  "\<lparr>node_id = 13, inputs = [11, 12], kind = RelJoin true_literal INNER\<rparr>" "\<lparr>node_id = 13, inputs = [17, 12], kind = RelJoin true_literal INNER\<rparr>"
  "\<lparr>node_id = 11, inputs = [], kind = RelScan \<lparr>tableId = 5, tableName = ''r''\<rparr> [''a'', ''b'']\<rparr>" 17 true_literal INNER "\<lparr>tableId = 5, tableName = ''r''\<rparr>" "[''a'', ''b'']"
proof unfold_locales
  let ?h = "example_plan join_and_filter [RexInput 14 3]"
  show "store_ok ?h" "inj_on (getId ?h) (dom (node_at ?h))" by (fact example_store_ok example_ids(1))+
  show "row_ok sql_sem ?h (example_row 2)" "row_ok sql_sem pushed_plan (example_row 1)" by (fact example_row_before example_row_after)+
  show "store_ok pushed_plan" by (rule pushed_store_ok)
  show "node_at ?h 17 = None" by (simp add: example_plan_def)
  show "\<exists>nd'. node_at pushed_plan n = Some nd' \<and> node_id nd' = node_id nd \<and> inputs nd' = inputs nd \<and> same_class (kind nd) (kind nd')"
    if n: "node_at ?h n = Some nd" "n \<noteq> 13" for n nd
    using n example_node [OF n(1)] by (auto simp: same_class_def)
  show "leaves_ok ?h [(11, 11), (12, 12)]" using example_plan_leaves by (simp add: plan_leaves_def)
qed (use example_output(2) example_leaves in \<open>auto simp: sql_and_law getInput_def example_row_def feeds_def dest: example_node\<close>)

section \<open>Conditions that the rewriting does not keep\<close>

text \<open>The condition \<open>a = c AND (b = 1 OR d = 2)\<close>.\<close>

definition cross_or :: RexScalar where
  "cross_or = RexOperator kAND [RexOperator kEQ [RexInput 11 0, RexInput 12 0] bool_type,
     RexOperator kOR [RexOperator kEQ [RexInput 11 1, int_literal 1] bool_type, RexOperator kEQ [RexInput 12 1, int_literal 2] bool_type] bool_type] bool_type"


text \<open>
  The query \<open>SELECT a, n FROM (SELECT a, COUNT(*) AS n FROM r, s WHERE a = c AND b = 1 GROUP BY a) WHERE n > 5\<close>,
  or the same with \<open>HAVING\<close>: the filter over the aggregate is above the joins.
\<close>

definition having :: RexScalar where
  "having = RexOperator kGT [RexInput 16 1, int_literal 5] bool_type"

definition having_plan :: ra_store where
  "having_plan = (example_plan join_and_filter [RexInput 14 0])\<lparr>node_at := (node_at (example_plan join_and_filter [RexInput 14 0]))
      (16 \<mapsto> \<lparr>node_id = 16, inputs = [15], kind = RelAggregate 1 [\<lparr>agg_kind = kCOUNT, agg_distinct = False, agg_type = bool_type, agg_operands = []\<rparr>] [''a'', ''n'']\<rparr>,
       17 \<mapsto> \<lparr>node_id = 17, inputs = [16], kind = RelFilter having\<rparr>,
       18 \<mapsto> \<lparr>node_id = 18, inputs = [17], kind = RelProject [RexInput 17 0, RexInput 17 1] [''a'', ''n'']\<rparr>),
     next_ptr := 19, crt_id := 19\<rparr>"

lemma having_nodes [simp]:
  "node_at having_plan 11 = Some \<lparr>node_id = 11, inputs = [], kind = RelScan \<lparr>tableId = 5, tableName = ''r''\<rparr> [''a'', ''b'']\<rparr>"
  "node_at having_plan 12 = Some \<lparr>node_id = 12, inputs = [], kind = RelScan \<lparr>tableId = 6, tableName = ''s''\<rparr> [''c'', ''d'']\<rparr>"
  "node_at having_plan 13 = Some \<lparr>node_id = 13, inputs = [11, 12], kind = RelJoin true_literal INNER\<rparr>"
  "node_at having_plan 14 = Some \<lparr>node_id = 14, inputs = [13], kind = RelFilter join_and_filter\<rparr>"
  "node_at having_plan 15 = Some \<lparr>node_id = 15, inputs = [14], kind = RelProject [RexInput 14 0] [''x'']\<rparr>"
  "node_at having_plan 16 = Some \<lparr>node_id = 16, inputs = [15], kind = RelAggregate 1 [\<lparr>agg_kind = kCOUNT, agg_distinct = False, agg_type = bool_type, agg_operands = []\<rparr>] [''a'', ''n'']\<rparr>"
  "node_at having_plan 17 = Some \<lparr>node_id = 17, inputs = [16], kind = RelFilter having\<rparr>"
  "node_at having_plan 18 = Some \<lparr>node_id = 18, inputs = [17], kind = RelProject [RexInput 17 0, RexInput 17 1] [''a'', ''n'']\<rparr>"
  "next_ptr having_plan = 19" "crt_id having_plan = 19"
  by (simp_all add: having_plan_def)

lemma base_step: "node_at h n = Some nd \<Longrightarrow> inputs nd = m # ms \<Longrightarrow> (\<And>td fs. kind nd \<noteq> RelScan td fs) \<Longrightarrow> findBaseTableId h n = findBaseTableId h m"
  by (subst findBaseTableId.simps) (auto simp: getInput_def split: RelKind.splits)

lemma having_base: "findBaseTableId having_plan 15 = Some 11"
  using base_step [OF having_nodes(5)] base_step [OF having_nodes(4)] base_step [OF having_nodes(3)] findBaseTableId_scan [OF having_nodes(1)] by simp

lemma having_schema:
  "buildSchemaFromSource having_plan 11 = Some ([(11, 2)], [''a'', ''b''])" "buildSchemaFromSource having_plan 12 = Some ([(12, 2)], [''c'', ''d''])"
  "buildSchemaFromSource having_plan 14 = Some ([(11, 2), (12, 2)], [''a'', ''b'', ''c'', ''d''])"
  "buildSchemaFromSource having_plan 16 = Some ([(11, 2)], [''a'', ''n''])" "buildSchemaFromSource having_plan 17 = Some ([(11, 2)], [''a'', ''n''])"
proof -
  show a: "buildSchemaFromSource having_plan 11 = Some ([(11, 2)], [''a'', ''b''])" "buildSchemaFromSource having_plan 12 = Some ([(12, 2)], [''c'', ''d''])"
    by (simp_all add: schema_scan)
  have "buildSchemaFromSource having_plan 13 = Some ([(11, 2), (12, 2)], [''a'', ''b'', ''c'', ''d''])" using schema_join [OF having_nodes(3)] a by simp
  then show "buildSchemaFromSource having_plan 14 = Some ([(11, 2), (12, 2)], [''a'', ''b'', ''c'', ''d''])" using schema_filter [OF having_nodes(4)] by simp
  show b: "buildSchemaFromSource having_plan 16 = Some ([(11, 2)], [''a'', ''n''])" by (subst buildSchemaFromSource.simps) (simp add: getInput_def having_base)
  show "buildSchemaFromSource having_plan 17 = Some ([(11, 2)], [''a'', ''n''])" using schema_filter [OF having_nodes(7)] b by simp
qed

definition having_schemas :: schema_cache where
  "having_schemas = [17 \<mapsto> ([(11, 2)], [''a'', ''n'']), 16 \<mapsto> ([(11, 2)], [''a'', ''n'']), 14 \<mapsto> ([(11, 2), (12, 2)], [''a'', ''b'', ''c'', ''d'']),
     11 \<mapsto> ([(11, 2)], [''a'', ''b'']), 12 \<mapsto> ([(12, 2)], [''c'', ''d''])]"

lemma having_find:
  "findFilterAndProject having_plan [11, 12, 13, 14, 15, 16, 17, 18] 0 [] Map.empty =
     Some (RexOperator kEQ [RexInput 11 1, int_literal 1] bool_type, [(0, ''a''), (1, ''n'')], having_schemas)"
  by (simp add: join_and_filter_def having_def int_literal_def run_simps having_schema having_schemas_def fun_upd_twist numeral_2_eq_2 numeral_3_eq_3)


section \<open>Reachability in a plan\<close>

text \<open>
  C29. \<open>hasConnection\<close> returns on every acyclic plan and decides whether the first node is the second or
  one of the nodes below it.
\<close>
theorem hasConnection_correct:
  assumes "store_ok h" "n \<in> dom (node_at h)"
  shows "hasConnection h m n = Some ((m, n) \<in> (input_rel h)\<^sup>*)"
  by (rule hasConnection_decides [OF assms])

theorem hasConnection_correct_witness: "hasConnection pushed_plan 11 14 = Some True \<and> (11, 14) \<in> (input_rel pushed_plan)\<^sup>*"
proof -
  have "hasConnection pushed_plan 11 14 = Some True" by (simp add: hasConnection_def hasConnection_steps compound_node_def)
  moreover have "hasConnection pushed_plan 11 14 = Some ((11, 14) \<in> (input_rel pushed_plan)\<^sup>*)"
    by (rule hasConnection_correct [OF pushed_store_ok]) auto
  ultimately show ?thesis by simp
qed

section \<open>The join columns of a table that is not pushed down\<close>

text \<open>
  C33. For a table without push-down the loop that cuts its columns down to the join columns keeps exactly
  those when the last column is a join column, and otherwise reads the join columns past their end.
\<close>
theorem keep_join_columns_correct:
  assumes "sorted_wrt (<) js" "sorted_wrt (<) (map fst cols)" "set js \<subseteq> fst ` set cols"
  shows "keep_join_columns js cols =
    (if cols = [] \<or> fst (List.last cols) \<in> set js then Some (filter (\<lambda>c. fst c \<in> set js) cols) else None)"
  using assms
proof (induction js cols rule: keep_join_columns.induct)
  case (3 j js c cs)
  have above: "fst c < fst d" if "d \<in> set cs" for d using 3(4) that by auto
  show ?case
  proof (cases "fst c = j")
    case True
    then have sub: "set js \<subseteq> fst ` set cs" using 3(3,5) by auto
    have "fst d \<noteq> j" if "d \<in> set cs" for d using above [OF that] True by simp
    then have f: "filter (\<lambda>d. fst d = j \<or> fst d \<in> set js) cs = filter (\<lambda>d. fst d \<in> set js) cs" by (intro filter_cong) auto
    have l: "cs \<noteq> [] \<Longrightarrow> fst (List.last cs) \<noteq> j" using above [of "List.last cs"] True by auto
    show ?thesis using 3(1) [OF True _ _ sub] 3(3,4) True f l by auto
  next
    case False
    then have "fst c \<notin> set (j # js)" using 3(3,5) above by fastforce
    moreover from this have sub: "set (j # js) \<subseteq> fst ` set cs" using 3(5) by auto
    ultimately show ?thesis using 3(2) [OF False _ _ sub] 3(3,4) by auto
  qed
qed auto

theorem keep_join_columns_correct_witness:
  "keep_join_columns [0, 2] [(0, ''a''), (1, ''b''), (2, ''c'')] = Some [(0, ''a''), (2, ''c'')] \<and> keep_join_columns [0] [(0, ''a''), (1, ''b'')] = None"
  using keep_join_columns_correct [of "[0, 2]" "[(0, ''a''), (1, ''b''), (2, ''c'')]"] keep_join_columns_correct [of "[0]" "[(0, ''a''), (1, ''b'')]"] by auto

end
